(* ===== verification/Prelude.thy ===== *)
theory Prelude
  imports Main "HOL-Library.Word"
begin

text \<open>
  What every component shares: the machine integers, the driver's error type
  (\<^verbatim>\<open>wiznet-rs/src/error.rs\<close>), the result of a fallible Rust function, the state
  passing combinators that the handlers are written with, big-endian conversions and
  the slice operations of the standard library.
\<close>

unbundle bit_operations_syntax

subsection \<open>Machine integers\<close>

text \<open>
  The target is \<open>thumbv7m\<close>, so \<^verbatim>\<open>usize\<close> has 32 bits. Free-running counters are
  kept at that width (\<open>+\<close> and \<open>-\<close> wrap); the lengths of slices are \<open>nat\<close>.
\<close>

type_synonym u8 = "8 word"
type_synonym u16 = "16 word"
type_synonym u32 = "32 word"
type_synonym usize = "32 word"
type_synonym bytes = "u8 list"

subsection \<open>Errors and results\<close>

datatype driver_error = SpiError | PinError | ScratchBufferOverrun | UnexpectedResponse

text \<open>\<^verbatim>\<open>pub type Error = nb::Error<DriverError>\<close>: would block, or a driver error.\<close>

datatype error = WouldBlock | Other driver_error

text \<open>
  The outcome of a Rust call: \<open>Ok\<close>, \<open>Err\<close>, or a panic. \<open>Panic\<close> also stands for what an
  \<^verbatim>\<open>unsafe\<close> copy outside its buffer would do, so that a theorem that excludes
  \<open>Panic\<close> is a theorem of memory safety; unsigned subtraction that would underflow
  panics, as it does in the development profile the workspace builds with.
\<close>

datatype 'a res = Ok 'a | Err error | Panic

type_synonym ('s, 'a) sm = "'s \<Rightarrow> 'a res \<times> 's"

named_theorems monad_defs \<open>unfolding the combinators\<close>
named_theorems wp_rules \<open>weakest preconditions of the combinators and operations\<close>

definition ret :: "'a \<Rightarrow> ('s, 'a) sm" where
  [monad_defs]: "ret x s = (Ok x, s)"

definition raise :: "error \<Rightarrow> ('s, 'a) sm" where
  [monad_defs]: "raise e s = (Err e, s)"

definition panic :: "('s, 'a) sm" where
  [monad_defs]: "panic s = (Panic, s)"

text \<open>\<open>bnd m f\<close> is \<^verbatim>\<open>let x = m?; f(x)\<close>: what \<open>m\<close> did to the state stays, whatever its result.\<close>

definition bnd :: "('s, 'a) sm \<Rightarrow> ('a \<Rightarrow> ('s, 'b) sm) \<Rightarrow> ('s, 'b) sm" where
  [monad_defs]: "bnd m f s =
     (case m s of (r, s') \<Rightarrow>
       (case r of Ok x \<Rightarrow> f x s' | Err e \<Rightarrow> (Err e, s') | Panic \<Rightarrow> (Panic, s')))"

definition gets :: "('s \<Rightarrow> 'a) \<Rightarrow> ('s, 'a) sm" where
  [monad_defs]: "gets f s = (Ok (f s), s)"

definition modify :: "('s \<Rightarrow> 's) \<Rightarrow> ('s, unit) sm" where
  [monad_defs]: "modify f s = (Ok (), f s)"

text \<open>Run an operation on a part of the state.\<close>

definition zoom :: "('s \<Rightarrow> 't) \<Rightarrow> ('t \<Rightarrow> 's \<Rightarrow> 's) \<Rightarrow> ('t, 'a) sm \<Rightarrow> ('s, 'a) sm" where
  [monad_defs]: "zoom get put m s = (case m (get s) of (r, t) \<Rightarrow> (r, put t s))"

text \<open>\<^verbatim>\<open>result.map(|()| x)\<close>.\<close>

definition mapr :: "'b \<Rightarrow> ('s, unit) sm \<Rightarrow> ('s, 'b) sm" where
  [monad_defs]: "mapr x m = bnd m (\<lambda>_. ret x)"

subsection \<open>Weakest preconditions\<close>

text \<open>
  \<open>wp m Q s\<close>: running \<open>m\<close> from \<open>s\<close> gives a result and a state with \<open>Q\<close>. The
  equations below rewrite the \<open>wp\<close> of a composed operation into that of its parts, so
  that a proof about a handler is a simplification plus the facts about the bus.
\<close>

definition wp :: "('s, 'a) sm \<Rightarrow> ('a res \<Rightarrow> 's \<Rightarrow> bool) \<Rightarrow> 's \<Rightarrow> bool" where
  "wp m Q s = (case m s of (r, s') \<Rightarrow> Q r s')"

lemma wp_ret [wp_rules]: "wp (ret x) Q s = Q (Ok x) s"
  by (simp add: wp_def ret_def)

lemma wp_raise [wp_rules]: "wp (raise e) Q s = Q (Err e) s"
  by (simp add: wp_def raise_def)

lemma wp_panic [wp_rules]: "wp panic Q s = Q Panic s"
  by (simp add: wp_def panic_def)

lemma wp_gets [wp_rules]: "wp (gets f) Q s = Q (Ok (f s)) s"
  by (simp add: wp_def gets_def)

lemma wp_modify [wp_rules]: "wp (modify f) Q s = Q (Ok ()) (f s)"
  by (simp add: wp_def modify_def)

lemma wp_bnd [wp_rules]:
  "wp (bnd m f) Q s =
     wp m (\<lambda>r s'. case r of Ok x \<Rightarrow> wp (f x) Q s' | Err e \<Rightarrow> Q (Err e) s' | Panic \<Rightarrow> Q Panic s') s"
  by (auto simp: wp_def bnd_def split: prod.splits res.splits)

lemma wp_zoom [wp_rules]:
  "wp (zoom get put m) Q s = wp m (\<lambda>r t. Q r (put t s)) (get s)"
  by (auto simp: wp_def zoom_def split: prod.splits)

lemma wp_mapr [wp_rules]:
  "wp (mapr x m) Q s =
     wp m (\<lambda>r s'. case r of Ok _ \<Rightarrow> Q (Ok x) s' | Err e \<Rightarrow> Q (Err e) s' | Panic \<Rightarrow> Q Panic s') s"
  by (auto simp: wp_def mapr_def bnd_def ret_def split: prod.splits res.splits)

lemma wp_if [wp_rules]: "wp (if b then m else n) Q s = (if b then wp m Q s else wp n Q s)"
  by simp

lemma wp_mono: "wp m P s \<Longrightarrow> (\<And>r s'. P r s' \<Longrightarrow> Q r s') \<Longrightarrow> wp m Q s"
  by (auto simp: wp_def split: prod.splits)

lemma wp_conj: "wp m (\<lambda>r s'. P r s' \<and> Q r s') s \<longleftrightarrow> wp m P s \<and> wp m Q s"
  by (auto simp: wp_def split: prod.splits)

lemma wpD: "wp m Q s \<Longrightarrow> m s = (r, s') \<Longrightarrow> Q r s'"
  by (simp add: wp_def)

lemma wpI: "(\<And>r s'. m s = (r, s') \<Longrightarrow> Q r s') \<Longrightarrow> wp m Q s"
  by (simp add: wp_def split: prod.splits)

text \<open>\<open>keeps I m\<close>: from a state with \<open>I\<close> the operation does not panic and ends in one.\<close>

definition keeps :: "('s \<Rightarrow> bool) \<Rightarrow> ('s, 'a) sm \<Rightarrow> bool" where
  "keeps I m \<longleftrightarrow> (\<forall>s. I s \<longrightarrow> wp m (\<lambda>r s'. I s' \<and> r \<noteq> Panic) s)"

lemma keepsD: "keeps I m \<Longrightarrow> I s \<Longrightarrow> wp m (\<lambda>r s'. I s' \<and> r \<noteq> Panic) s"
  by (simp add: keeps_def)

lemma keeps_bnd:
  assumes "keeps I m" "\<And>x. keeps I (f x)"
  shows "keeps I (bnd m f)"
  unfolding keeps_def wp_bnd
proof (intro allI impI)
  fix s assume "I s"
  then have "wp m (\<lambda>r s'. I s' \<and> r \<noteq> Panic) s" using assms(1) by (simp add: keeps_def)
  then show "wp m (\<lambda>r s'. case r of Ok x \<Rightarrow> wp (f x) (\<lambda>r s'. I s' \<and> r \<noteq> Panic) s'
      | Err e \<Rightarrow> I s' \<and> Err e \<noteq> Panic | Panic \<Rightarrow> I s' \<and> Panic \<noteq> Panic) s"
    by (rule wp_mono) (use assms(2) in \<open>auto simp: keeps_def split: res.splits\<close>)
qed

lemma keeps_basic:
  "keeps I (ret x)" "keeps I (raise e)" "keeps I (gets g)"
  "keeps I m \<Longrightarrow> keeps I n \<Longrightarrow> keeps I (if b then m else n)"
  by (simp_all add: keeps_def wp_rules)

lemma bnd_assoc: "bnd (bnd m f) g = bnd m (\<lambda>x. bnd (f x) g)"
  by (rule ext) (auto simp: bnd_def split: prod.splits res.splits)

lemma bnd_ret [simp]: "bnd (ret x) f = f x"
  by (rule ext) (simp add: bnd_def ret_def)

lemma bnd_Ok: "m s = (Ok x, s') \<Longrightarrow> bnd m f s = f x s'"
  by (simp add: bnd_def)

lemma bnd_Err: "m s = (Err e, s') \<Longrightarrow> bnd m f s = (Err e, s')"
  by (simp add: bnd_def)

subsection \<open>Big-endian bytes\<close>

text \<open>
  \<open>to_be n w\<close> is \<^verbatim>\<open>w.to_be_bytes()\<close> for an \<open>n\<close>-byte integer, \<open>from_be bs\<close> is
  \<^verbatim>\<open>from_be_bytes\<close>.
\<close>

definition to_be :: "nat \<Rightarrow> 'a::len word \<Rightarrow> bytes" where
  "to_be n w = map (\<lambda>i. ucast (drop_bit (8 * (n - 1 - i)) w)) [0..<n]"

definition from_be :: "bytes \<Rightarrow> 'a::len word" where
  "from_be bs = foldl (\<lambda>acc b. push_bit 8 acc OR ucast b) 0 bs"

lemma length_to_be [simp]: "length (to_be n w) = n"
  by (simp add: to_be_def)

lemma to_be_1: "to_be 1 w = [ucast w]"
  by (simp add: to_be_def)

lemma to_be_2: "to_be 2 w = [ucast (drop_bit 8 w), ucast w]"
  by (simp add: to_be_def upt_rec)

lemma to_be_4: "to_be 4 w = [ucast (drop_bit 24 w), ucast (drop_bit 16 w), ucast (drop_bit 8 w), ucast w]"
  by (simp add: to_be_def upt_rec)

lemma from_be_1 [simp]: "from_be [b] = ucast b"
  by (simp add: from_be_def)

lemma from_be_to_be_1 [simp]: "from_be (to_be 1 (w :: u8)) = w"
  by (simp add: to_be_def from_be_def)

lemma from_be_to_be_2 [simp]: "from_be (to_be 2 (w :: u16)) = w"
  unfolding to_be_2 from_be_def
  by (rule bit_word_eqI) (auto simp: bit_simps)

lemma from_be_to_be_4 [simp]: "from_be (to_be 4 (w :: u32)) = w"
proof (rule bit_word_eqI)
  fix n assume "n < LENGTH(32)"
  then consider "n < 8" | "8 \<le> n" "n < 16" | "16 \<le> n" "n < 24" | "24 \<le> n" "n < 32"
    by fastforce
  then show "bit (from_be (to_be 4 w) :: u32) n = bit w n"
    unfolding to_be_4 from_be_def
    by cases (auto simp: bit_simps)
qed

subsection \<open>Slices\<close>

text \<open>\<open>slice a n xs\<close> is \<^verbatim>\<open>xs[a..a+n]\<close>, which panics (\<open>None\<close>) outside the slice.\<close>

definition slice :: "nat \<Rightarrow> nat \<Rightarrow> 'a list \<Rightarrow> 'a list option" where
  "slice a n xs = (if a + n \<le> length xs then Some (take n (drop a xs)) else None)"

text \<open>\<open>copy_at a ys xs\<close>: overwrite \<^verbatim>\<open>xs[a..a+ys.len()]\<close> with \<open>ys\<close>, for a range inside \<open>xs\<close>.\<close>

definition copy_at :: "nat \<Rightarrow> 'a list \<Rightarrow> 'a list \<Rightarrow> 'a list" where
  "copy_at a ys xs = take a xs @ ys @ drop (a + length ys) xs"

lemma slice_Some [simp]: "a + n \<le> length xs \<Longrightarrow> slice a n xs = Some (take n (drop a xs))"
  by (simp add: slice_def)

lemma slice_length: "slice a n xs = Some ys \<Longrightarrow> length ys = n"
  by (auto simp: slice_def split: if_splits)

lemma length_copy_at [simp]: "a + length ys \<le> length xs \<Longrightarrow> length (copy_at a ys xs) = length xs"
  by (simp add: copy_at_def)

lemma copy_at_Nil [simp]: "a \<le> length xs \<Longrightarrow> copy_at a [] xs = xs"
  by (simp add: copy_at_def)

lemma nth_copy_at:
  "a + length ys \<le> length xs \<Longrightarrow> j < length xs \<Longrightarrow>
     copy_at a ys xs ! j = (if a \<le> j \<and> j < a + length ys then ys ! (j - a) else xs ! j)"
  by (auto simp: copy_at_def nth_append min_def)

lemma take_drop_copy_at:
  "a + length ys \<le> length xs \<Longrightarrow> take (length ys) (drop a (copy_at a ys xs)) = ys"
  by (simp add: copy_at_def)

lemma take_copy_at:
  "a + length ys \<le> length xs \<Longrightarrow> n \<le> a \<Longrightarrow> take n (copy_at a ys xs) = take n xs"
  by (simp add: copy_at_def min_def)

end
