(* ===== verification/Atomic_Cell.thy ===== *)
theory Atomic_Cell
  imports Prelude
begin

text \<open>
  The try-lock cell of \<^verbatim>\<open>wiznet-rs/src/atomic_cell.rs\<close>: a value behind a busy flag. A
  second taker is never blocked, it gets \<^verbatim>\<open>Busy\<close>, which the driver's \<^verbatim>\<open>From\<close> instance turns
  into \<open>WouldBlock\<close> (\<^verbatim>\<open>lib.rs\<close>). The guard gives the cell back when it goes out of scope,
  on every exit.
\<close>

record 'a atomic_cell =
  cell :: 'a
  busy :: bool

datatype atomic_error = Busy

definition cell_new :: "'a \<Rightarrow> 'a atomic_cell" where
  "cell_new v = \<lparr>cell = v, busy = False\<rparr>"

text \<open>\<^verbatim>\<open>compare_exchange(false, true)\<close> on the flag; \<^verbatim>\<open>lock\<close> and \<^verbatim>\<open>lock_mut\<close> differ only in the guard.\<close>

definition try_lock_internal :: "'a atomic_cell \<Rightarrow> (atomic_error + unit) \<times> 'a atomic_cell" where
  "try_lock_internal c = (if busy c then (Inl Busy, c) else (Inr (), c\<lparr>busy := True\<rparr>))"

definition lock_mut :: "'a atomic_cell \<Rightarrow> (atomic_error + 'a) \<times> 'a atomic_cell" where
  "lock_mut c =
     (case try_lock_internal c of
        (Inl e, c') \<Rightarrow> (Inl e, c')
      | (Inr _, c') \<Rightarrow> (Inr (cell c'), c'))"

text \<open>Dropping the guard stores what was written through it and releases the flag.\<close>

definition drop_guard :: "'a \<Rightarrow> 'a atomic_cell \<Rightarrow> 'a atomic_cell" where
  "drop_guard v c = c\<lparr>cell := v, busy := False\<rparr>"

text \<open>\<^verbatim>\<open>impl From<AtomicError> for Error\<close>.\<close>

definition from_atomic_error :: "atomic_error \<Rightarrow> error" where
  "from_atomic_error e = WouldBlock"

text \<open>
  \<open>locked m\<close> is the scope \<^verbatim>\<open>let mut g = cell.lock_mut()?; m(g.as_mut())\<close>: the body runs on
  the value while the flag is set, and the flag is cleared when the scope ends.
\<close>

definition locked :: "('a, 'b) sm \<Rightarrow> ('a atomic_cell, 'b) sm" where
  "locked m c =
     (case lock_mut c of
        (Inl e, c') \<Rightarrow> (Err (from_atomic_error e), c')
      | (Inr v, c') \<Rightarrow> (case m v of (r, v') \<Rightarrow> (r, drop_guard v' c')))"

lemma locked_busy: "busy c \<Longrightarrow> locked m c = (Err WouldBlock, c)"
  by (simp add: locked_def lock_mut_def try_lock_internal_def from_atomic_error_def)

lemma locked_free:
  "\<not> busy c \<Longrightarrow> locked m c = (case m (cell c) of (r, v) \<Rightarrow> (r, \<lparr>cell = v, busy = False, \<dots> = atomic_cell.more c\<rparr>))"
  by (cases c) (simp add: locked_def lock_mut_def try_lock_internal_def drop_guard_def split: prod.splits)

lemma locked_cell:
  "locked m \<lparr>cell = v, busy = False\<rparr> = (case m v of (r, v') \<Rightarrow> (r, \<lparr>cell = v', busy = False\<rparr>))"
  by (simp add: locked_def lock_mut_def try_lock_internal_def drop_guard_def split: prod.splits)

lemma wp_locked [wp_rules]:
  "wp (locked m) Q c =
     (if busy c then Q (Err WouldBlock) c
      else wp m (\<lambda>r v. Q r (c\<lparr>cell := v, busy := False\<rparr>)) (cell c))"
  by (cases c)
    (simp add: wp_def locked_def lock_mut_def try_lock_internal_def drop_guard_def
      from_atomic_error_def split: prod.splits)

end
