(* ===== verification/Transceiver.thy ===== *)
theory Transceiver
  imports Atomic_Cell
begin

text \<open>
  The SPI transport: the contract of the platform's DMA engine (\<^verbatim>\<open>wiznet-rs/src/spi_dma.rs\<close>)
  and the driver's \<^verbatim>\<open>Transceiver\<close> on top of it (\<^verbatim>\<open>wiznet-rs/src/transiver.rs\<close>), which
  frames the chip's commands, batches operations into the scratch buffers and splits a bulk
  transfer into a start and a finish.
\<close>

subsection \<open>The platform's contract\<close>

record dma_buffers =
  rx_buf :: bytes
  tx_buf :: bytes
  dma_len :: nat

datatype completion = Poll | Interrupt

text \<open>
  The traits \<^verbatim>\<open>SpiDmaDevice\<close> and \<^verbatim>\<open>SpiDmaTransaction\<close> as the dictionary of their methods:
  \<open>'d\<close> is the device, \<open>'t\<close> a transfer in flight. The error value of a failed \<^verbatim>\<open>transceive\<close>
  is dropped by the driver and by the model; what comes back with it is kept.
\<close>

record ('d, 't) spi_dma_device =
  transceive :: "'d \<Rightarrow> dma_buffers \<Rightarrow> completion \<Rightarrow> ('d \<times> dma_buffers) + 't"
  wait :: "'t \<Rightarrow> 'd \<times> dma_buffers"
  delay_ns :: "u32 \<Rightarrow> 'd \<Rightarrow> 'd"

subsection \<open>Addresses and the command header\<close>

datatype block_selection_bits =
    CommonRegister
  | SocketRegister "3 word"
  | SocketTxBuffer "3 word"
  | SocketRxBuffer "3 word"

text \<open>The discriminants \<^verbatim>\<open>0bSSS_01\<close>, \<^verbatim>\<open>0bSSS_10\<close> and \<^verbatim>\<open>0bSSS_11\<close> of socket \<open>SSS\<close>.\<close>

fun block_bits :: "block_selection_bits \<Rightarrow> u8" where
  "block_bits CommonRegister = 0"
| "block_bits (SocketRegister n) = push_bit 2 (ucast n) OR 1"
| "block_bits (SocketTxBuffer n) = push_bit 2 (ucast n) OR 2"
| "block_bits (SocketRxBuffer n) = push_bit 2 (ucast n) OR 3"

record block_address =
  reg :: block_selection_bits
  tx_block :: block_selection_bits
  rx_block :: block_selection_bits

text \<open>The three selectors of hardware socket \<open>i\<close>, as \<^verbatim>\<open>W6100::new\<close> lists them.\<close>

definition socket_block :: "nat \<Rightarrow> block_address" where
  "socket_block i = \<lparr>reg = SocketRegister (of_nat i), tx_block = SocketTxBuffer (of_nat i),
     rx_block = SocketRxBuffer (of_nat i)\<rparr>"

record address =
  addr :: u16
  block :: block_selection_bits

definition HEADER :: nat where
  "HEADER = 3"

definition create_header :: "address \<Rightarrow> bool \<Rightarrow> bytes" where
  "create_header a wr =
     to_be 2 (addr a) @ [push_bit 3 (block_bits (block a)) OR (if wr then 4 else 0)]"

lemma length_create_header [simp]: "length (create_header a w) = HEADER"
  by (simp add: create_header_def HEADER_def)

subsection \<open>Operations and state\<close>

text \<open>\<^verbatim>\<open>embedded_hal::spi::Operation\<close>; a buffer that is read into is its contents.\<close>

datatype operation =
    OpRead bytes
  | OpWrite bytes
  | OpTransfer bytes bytes
  | OpTransferInPlace bytes
  | OpDelayNs u32

datatype ('d, 't) dma_state = Pending | Idle 'd dma_buffers | InFlight 't

record ('d, 't) transceiver =
  dev_cell :: "('d, 't) dma_state atomic_cell"

text \<open>\<^verbatim>\<open>Transceiver::new\<close> panics when the scratch buffers differ in length.\<close>

definition transceiver_new :: "'d \<Rightarrow> dma_buffers \<Rightarrow> ('d, 't) transceiver option" where
  "transceiver_new d b =
     (if length (rx_buf b) \<noteq> length (tx_buf b) then None
      else Some \<lparr>dev_cell = cell_new (Idle d b)\<rparr>)"

definition on_cell :: "(('d, 't) dma_state, 'a) sm \<Rightarrow> (('d, 't) transceiver, 'a) sm" where
  "on_cell m = zoom dev_cell (\<lambda>c t. t\<lparr>dev_cell := c\<rparr>) (locked m)"

subsection \<open>Executing a transaction\<close>

text \<open>
  The batching pass: stage operations into the scratch TX buffer until one does not fit or
  is a delay. The result is the number of operations staged, the bytes they occupy, and
  the buffers.
\<close>

fun stage :: "operation list \<Rightarrow> nat \<Rightarrow> dma_buffers \<Rightarrow> nat \<times> nat \<times> dma_buffers" where
  "stage [] off b = (0, off, b)"
| "stage (OpDelayNs ns # ops) off b = (0, off, b)"
| "stage (OpRead items # ops) off b =
     (if length (rx_buf b) < off + length items then (0, off, b)
      else (case stage ops (off + length items) b of (k, r) \<Rightarrow> (Suc k, r)))"
| "stage (OpWrite items # ops) off b =
     (if length (tx_buf b) < off + length items then (0, off, b)
      else (case stage ops (off + length items) (b\<lparr>tx_buf := copy_at off items (tx_buf b)\<rparr>)
            of (k, r) \<Rightarrow> (Suc k, r)))"
| "stage (OpTransfer dst items # ops) off b =
     (if length (tx_buf b) < off + length items then (0, off, b)
      else (case stage ops (off + length items) (b\<lparr>tx_buf := copy_at off items (tx_buf b)\<rparr>)
            of (k, r) \<Rightarrow> (Suc k, r)))"
| "stage (OpTransferInPlace items # ops) off b =
     (if length (tx_buf b) < off + length items then (0, off, b)
      else (case stage ops (off + length items) (b\<lparr>tx_buf := copy_at off items (tx_buf b)\<rparr>)
            of (k, r) \<Rightarrow> (Suc k, r)))"

text \<open>
  The copy-back pass over the staged operations: reads take their window of the scratch RX
  buffer, and a write advances past its slot. \<open>None\<close> is the panic of an out-of-range slice.
\<close>

fun unstage :: "operation list \<Rightarrow> nat \<Rightarrow> bytes \<Rightarrow> operation list option" where
  "unstage [] off rx = Some []"
| "unstage (OpRead items # ops) off rx =
     Option.bind (slice off (length items) rx)
       (\<lambda>ys. map_option ((#) (OpRead ys)) (unstage ops (off + length items) rx))"
| "unstage (OpTransfer items src # ops) off rx =
     Option.bind (slice off (length items) rx)
       (\<lambda>ys. map_option ((#) (OpTransfer ys src)) (unstage ops (off + length items) rx))"
| "unstage (OpTransferInPlace items # ops) off rx =
     Option.bind (slice off (length items) rx)
       (\<lambda>ys. map_option ((#) (OpTransferInPlace ys)) (unstage ops (off + length items) rx))"
| "unstage (OpWrite items # ops) off rx =
     map_option ((#) (OpWrite items)) (unstage ops (off + length items) rx)"
| "unstage (OpDelayNs ns # ops) off rx = map_option ((#) (OpDelayNs ns)) (unstage ops off rx)"

text \<open>
  \<^verbatim>\<open>exec_transaction\<close>: the device and buffers it hands back, the error if any, and the
  operations with their buffers filled in. The outer loop drops at least one operation per
  round.
\<close>

function exec_transaction ::
  "('d, 't) spi_dma_device \<Rightarrow> 'd \<Rightarrow> dma_buffers \<Rightarrow> operation list \<Rightarrow>
     ('d \<times> dma_buffers \<times> driver_error option \<times> operation list) option" where
  "exec_transaction D d b [] = Some (d, b, None, [])"
| "exec_transaction D d b (op # ops) =
     (case stage (op # ops) 0 b of (k, off, b1) \<Rightarrow>
       (if k = 0 then
          (case op of
             OpDelayNs ns \<Rightarrow>
               map_option (\<lambda>(d', b', e, done). (d', b', e, op # done))
                 (exec_transaction D (delay_ns D ns d) b1 ops)
           | _ \<Rightarrow> Some (d, b1, Some ScratchBufferOverrun, op # ops))
        else
          (case transceive D d (b1\<lparr>dma_len := off\<rparr>) Poll of
             Inl (d', b') \<Rightarrow> Some (d', b', Some SpiError, op # ops)
           | Inr t \<Rightarrow>
               (case wait D t of (d', b2) \<Rightarrow>
                 (case unstage (take k (op # ops)) 0 (rx_buf b2) of
                    None \<Rightarrow> None
                  | Some batch \<Rightarrow>
                      map_option (\<lambda>(d'', b', e, done). (d'', b', e, batch @ done))
                        (exec_transaction D d' b2 (drop k (op # ops))))))))"
  by pat_completeness auto
termination
  by (relation "measure (\<lambda>(D, d, b, ops). length ops)") auto

text \<open>\<^verbatim>\<open>transaction\<close>: only from \<open>Idle\<close>, and back to \<open>Idle\<close> whatever the outcome.\<close>

definition transaction_body ::
  "('d, 't) spi_dma_device \<Rightarrow> operation list \<Rightarrow> (('d, 't) dma_state, operation list) sm" where
  "transaction_body D ops s =
     (case s of
        Idle d b \<Rightarrow>
          (case exec_transaction D d b ops of
             None \<Rightarrow> (Panic, Pending)
           | Some (d', b', e, ops') \<Rightarrow>
               ((case e of Some err \<Rightarrow> Err (Other err) | None \<Rightarrow> Ok ops'), Idle d' b'))
      | _ \<Rightarrow> (Err WouldBlock, s))"

definition transaction ::
  "('d, 't) spi_dma_device \<Rightarrow> operation list \<Rightarrow> (('d, 't) transceiver, operation list) sm" where
  "transaction D ops = on_cell (transaction_body D ops)"

text \<open>\<^verbatim>\<open>read\<close> fills the buffer it is given; the model returns the filled buffer.\<close>

definition spi_read ::
  "('d, 't) spi_dma_device \<Rightarrow> address \<Rightarrow> bytes \<Rightarrow> (('d, 't) transceiver, bytes) sm" where
  "spi_read D a data =
     bnd (transaction D [OpWrite (create_header a False), OpRead data])
       (\<lambda>ops. case ops of [_, OpRead out] \<Rightarrow> ret out | _ \<Rightarrow> panic)"

definition spi_write ::
  "('d, 't) spi_dma_device \<Rightarrow> address \<Rightarrow> bytes \<Rightarrow> (('d, 't) transceiver, unit) sm" where
  "spi_write D a data =
     bnd (transaction D [OpWrite (create_header a True), OpWrite data]) (\<lambda>_. ret ())"

definition read_u8 :: "('d, 't) spi_dma_device \<Rightarrow> address \<Rightarrow> (('d, 't) transceiver, u8) sm" where
  "read_u8 D a = bnd (spi_read D a (replicate 1 0)) (\<lambda>bs. ret (from_be bs))"

definition read_u16 :: "('d, 't) spi_dma_device \<Rightarrow> address \<Rightarrow> (('d, 't) transceiver, u16) sm" where
  "read_u16 D a = bnd (spi_read D a (replicate 2 0)) (\<lambda>bs. ret (from_be bs))"

definition read_u32 :: "('d, 't) spi_dma_device \<Rightarrow> address \<Rightarrow> (('d, 't) transceiver, u32) sm" where
  "read_u32 D a = bnd (spi_read D a (replicate 4 0)) (\<lambda>bs. ret (from_be bs))"

definition write_u8 :: "('d, 't) spi_dma_device \<Rightarrow> address \<Rightarrow> u8 \<Rightarrow> (('d, 't) transceiver, unit) sm" where
  "write_u8 D a v = spi_write D a (to_be 1 v)"

definition write_u16 :: "('d, 't) spi_dma_device \<Rightarrow> address \<Rightarrow> u16 \<Rightarrow> (('d, 't) transceiver, unit) sm" where
  "write_u16 D a v = spi_write D a (to_be 2 v)"

definition write_u32 :: "('d, 't) spi_dma_device \<Rightarrow> address \<Rightarrow> u32 \<Rightarrow> (('d, 't) transceiver, unit) sm" where
  "write_u32 D a v = spi_write D a (to_be 4 v)"

subsection \<open>Bulk transfers: start, finish, abort\<close>

definition take_idle :: "(('d, 't) dma_state, 'd \<times> dma_buffers) sm" where
  "take_idle s = (case s of Idle d b \<Rightarrow> (Ok (d, b), Pending) | other \<Rightarrow> (Err WouldBlock, other))"

definition launch ::
  "('d, 't) spi_dma_device \<Rightarrow> 'd \<Rightarrow> dma_buffers \<Rightarrow> (('d, 't) dma_state, unit) sm" where
  "launch D d b s =
     (case transceive D d b Interrupt of
        Inr t \<Rightarrow> (Ok (), InFlight t)
      | Inl (d', b') \<Rightarrow> (Err (Other SpiError), Idle d' b'))"

definition start_read ::
  "('d, 't) spi_dma_device \<Rightarrow> address \<Rightarrow> nat \<Rightarrow> (('d, 't) transceiver, unit) sm" where
  "start_read D a len = on_cell
     (bnd take_idle (\<lambda>(d, scratch).
        if length (tx_buf scratch) < HEADER + len
        then bnd (modify (\<lambda>_. Idle d scratch)) (\<lambda>_. raise (Other ScratchBufferOverrun))
        else launch D d (scratch\<lparr>tx_buf := copy_at 0 (create_header a False) (tx_buf scratch),
                                dma_len := HEADER + len\<rparr>)))"

text \<open>
  \<^verbatim>\<open>start_write\<close> calls \<^verbatim>\<open>fill\<close> on the payload window of the scratch buffer. In the driver
  the closure drains a ring, so it has a state of its own, \<open>'r\<close>, and may fail with it: the
  operation works on the pair of transceiver and that state.
\<close>

definition start_write ::
  "('d, 't) spi_dma_device \<Rightarrow> address \<Rightarrow> nat \<Rightarrow> (bytes \<Rightarrow> ('r, bytes) sm) \<Rightarrow>
     (('d, 't) transceiver \<times> 'r, unit) sm" where
  "start_write D a len fill = (\<lambda>(t, r).
     if busy (dev_cell t) then (Err WouldBlock, (t, r))
     else
       (case cell (dev_cell t) of
          Idle d scratch \<Rightarrow>
            if length (tx_buf scratch) < HEADER + len
            then (Err (Other ScratchBufferOverrun), (t, r))
            else
              (let tx = copy_at 0 (create_header a True) (tx_buf scratch)
               in (case fill (take len (drop HEADER tx)) r of
                     (Ok payload, r') \<Rightarrow>
                       (case launch D d (scratch\<lparr>tx_buf := copy_at HEADER payload tx,
                                                dma_len := HEADER + len\<rparr>) Pending of
                          (res, s') \<Rightarrow> (res, (t\<lparr>dev_cell := (dev_cell t)\<lparr>cell := s'\<rparr>\<rparr>, r')))
                   | (Err e, r') \<Rightarrow> (Err e, (t, r'))
                   | (Panic, r') \<Rightarrow> (Panic, (t, r'))))
        | _ \<Rightarrow> (Err WouldBlock, (t, r))))"

text \<open>\<^verbatim>\<open>finish_read\<close> hands \<^verbatim>\<open>rx[HEADER..HEADER + len]\<close> to its closure; here it returns it.\<close>

definition finish_read ::
  "('d, 't) spi_dma_device \<Rightarrow> nat \<Rightarrow> (('d, 't) transceiver, bytes) sm" where
  "finish_read D len = on_cell (\<lambda>s.
     case s of
       InFlight t \<Rightarrow>
         (case wait D t of (d, scratch) \<Rightarrow>
           (case slice HEADER len (rx_buf scratch) of
              None \<Rightarrow> (Panic, Pending)
            | Some payload \<Rightarrow> (Ok payload, Idle d scratch)))
     | other \<Rightarrow> (Err WouldBlock, other))"

definition finish_write :: "('d, 't) spi_dma_device \<Rightarrow> (('d, 't) transceiver, unit) sm" where
  "finish_write D = on_cell (\<lambda>s.
     case s of
       InFlight t \<Rightarrow> (case wait D t of (d, scratch) \<Rightarrow> (Ok (), Idle d scratch))
     | other \<Rightarrow> (Err WouldBlock, other))"

definition abort :: "('d, 't) spi_dma_device \<Rightarrow> (('d, 't) transceiver, unit) sm" where
  "abort D t =
     (if busy (dev_cell t) then (Ok (), t)
      else
        (case cell (dev_cell t) of
           InFlight x \<Rightarrow>
             (case wait D x of (d, scratch) \<Rightarrow>
               (Ok (), t\<lparr>dev_cell := (dev_cell t)\<lparr>cell := Idle d scratch\<rparr>\<rparr>))
         | _ \<Rightarrow> (Ok (), t)))"

end
