(* ===== verification/Spi_Contract.thy ===== *)
theory Spi_Contract
  imports Transceiver
begin

text \<open>
  What the driver relies on in a DMA engine, as a locale over the trait's dictionary, and
  what the transceiver then guarantees: it never panics on the operations the driver
  issues, always comes back to \<open>Idle\<close> or \<open>InFlight\<close>, and keeps the scratch buffers. The
  recording mock of the crate's unit tests (\<^verbatim>\<open>transiver.rs\<close>, \<^verbatim>\<open>mod tests\<close>) provides the
  contract; so does the chip model of theory \<open>Chip_Model\<close>.
\<close>

subsection \<open>Buffers\<close>

definition good_bufs :: "nat \<Rightarrow> dma_buffers \<Rightarrow> bool" where
  "good_bufs L b \<longleftrightarrow> length (rx_buf b) = L \<and> length (tx_buf b) = L"

fun op_len :: "operation \<Rightarrow> nat" where
  "op_len (OpRead xs) = length xs"
| "op_len (OpWrite xs) = length xs"
| "op_len (OpTransfer dst src) = length src"
| "op_len (OpTransferInPlace xs) = length xs"
| "op_len (OpDelayNs _) = 0"

text \<open>An operation with the buffers it reads into cleared: what a transaction must not change.\<close>

fun blank :: "operation \<Rightarrow> operation" where
  "blank (OpRead xs) = OpRead (replicate (length xs) 0)"
| "blank (OpWrite xs) = OpWrite xs"
| "blank (OpTransfer dst src) = OpTransfer (replicate (length dst) 0) src"
| "blank (OpTransferInPlace xs) = OpTransferInPlace (replicate (length xs) 0)"
| "blank (OpDelayNs ns) = OpDelayNs ns"

lemma replicate_eq_replicate: "replicate m x = replicate n x \<longleftrightarrow> m = n"
  by (metis length_replicate)

lemma blank_eq_read: "blank op = blank (OpRead xs) \<longleftrightarrow> (\<exists>ys. op = OpRead ys \<and> length ys = length xs)"
  by (cases op) (auto simp: replicate_eq_replicate)

definition balanced :: "operation \<Rightarrow> bool" where
  "balanced op = (case op of OpTransfer dst src \<Rightarrow> length dst = length src | _ \<Rightarrow> True)"

definition is_delay :: "operation \<Rightarrow> bool" where
  "is_delay op = (case op of OpDelayNs _ \<Rightarrow> True | _ \<Rightarrow> False)"

lemma op_cases_simps [simp]:
  "balanced (OpRead xs)" "balanced (OpWrite xs)" "balanced (OpTransferInPlace xs)" "balanced (OpDelayNs ns)"
  "balanced (OpTransfer dst src) = (length dst = length src)"
  "\<not> is_delay (OpRead xs)" "\<not> is_delay (OpWrite xs)" "\<not> is_delay (OpTransfer dst src)"
  "\<not> is_delay (OpTransferInPlace xs)" "is_delay (OpDelayNs ns)"
  by (simp_all add: balanced_def is_delay_def)

lemma stage_spec:
  "stage ops off b = (k, off', b') \<Longrightarrow> good_bufs L b \<Longrightarrow> off \<le> L \<Longrightarrow>
     k \<le> length ops \<and> good_bufs L b' \<and> off' = off + sum_list (map op_len (take k ops)) \<and> off' \<le> L \<and>
     (\<forall>op \<in> set (take k ops). \<not> is_delay op \<and> op_len op \<le> L)"
proof (induction ops off b arbitrary: k off' b' rule: stage.induct)
  case (4 items ops off b)
  then show ?case
    by (fastforce simp: good_bufs_def split: if_splits prod.splits)
next
  case (5 dst items ops off b)
  then show ?case
    by (fastforce simp: good_bufs_def split: if_splits prod.splits)
next
  case (6 items ops off b)
  then show ?case
    by (fastforce simp: good_bufs_def split: if_splits prod.splits)
qed (fastforce simp: good_bufs_def split: if_splits prod.splits)+

lemma stage_zero:
  assumes "stage (op # ops) off b = (0, off', b')"
  shows "b' = b \<and> (is_delay op \<or> min (length (rx_buf b)) (length (tx_buf b)) < off + op_len op)"
  using assms by (cases op) (auto split: if_splits prod.splits)

lemma stage_pos:
  assumes "good_bufs L b" "\<not> is_delay op" "op_len op \<le> L"
  shows "fst (stage (op # ops) 0 b) \<noteq> 0"
  using assms by (cases op) (auto simp: good_bufs_def split: prod.splits)

lemma unstage_some:
  "\<forall>op \<in> set ops. balanced op \<and> \<not> is_delay op \<Longrightarrow> off + sum_list (map op_len ops) \<le> length rx \<Longrightarrow>
     \<exists>ops'. unstage ops off rx = Some ops' \<and> map blank ops' = map blank ops \<and> length ops' = length ops"
proof (induction ops off rx rule: unstage.induct)
  case (2 items ops off rx)
  then show ?case by (fastforce simp: slice_def)
next
  case (3 items src ops off rx)
  then show ?case by (fastforce simp: slice_def)
next
  case (4 items ops off rx)
  then show ?case by (fastforce simp: slice_def)
qed auto

subsection \<open>The contract\<close>

text \<open>
  A batch ran: no panic, the buffers came back, success means that every operation fits the
  scratch buffer, and an overrun that some operation does not.
\<close>

definition exec_ok ::
  "nat \<Rightarrow> ('d, 't) spi_dma_device \<Rightarrow> 'd \<Rightarrow> dma_buffers \<Rightarrow> operation list \<Rightarrow> bool" where
  "exec_ok L D d b ops \<longleftrightarrow>
     (\<exists>d' b' e ops'. exec_transaction D d b ops = Some (d', b', e, ops') \<and> good_bufs L b' \<and>
       map blank ops' = map blank ops \<and>
       (case e of
          None \<Rightarrow> \<forall>op \<in> set ops. is_delay op \<or> op_len op \<le> L
        | Some err \<Rightarrow> err = SpiError \<or> err = ScratchBufferOverrun \<and> (\<exists>op \<in> set ops. L < op_len op)))"

lemma exec_okI:
  assumes "exec_transaction D d b ops = Some (d', b', e, ops')" "good_bufs L b'"
    "map blank ops' = map blank ops"
    "e = None \<Longrightarrow> \<forall>op \<in> set ops. is_delay op \<or> op_len op \<le> L"
    "\<And>err. e = Some err \<Longrightarrow> err = SpiError \<or> err = ScratchBufferOverrun \<and> (\<exists>op \<in> set ops. L < op_len op)"
  shows "exec_ok L D d b ops"
  using assms unfolding exec_ok_def by (cases e) auto

lemma exec_okE:
  assumes "exec_ok L D d b ops"
  obtains d' b' e ops' where "exec_transaction D d b ops = Some (d', b', e, ops')" "good_bufs L b'"
    "map blank ops' = map blank ops"
    "e = None \<Longrightarrow> \<forall>op \<in> set ops. is_delay op \<or> op_len op \<le> L"
    "\<And>err. e = Some err \<Longrightarrow> err = SpiError \<or> err = ScratchBufferOverrun \<and> (\<exists>op \<in> set ops. L < op_len op)"
proof -
  from assms obtain d' b' e ops' where *: "exec_transaction D d b ops = Some (d', b', e, ops')"
    "good_bufs L b'" "map blank ops' = map blank ops"
    "case e of None \<Rightarrow> \<forall>op \<in> set ops. is_delay op \<or> op_len op \<le> L
     | Some err \<Rightarrow> err = SpiError \<or> err = ScratchBufferOverrun \<and> (\<exists>op \<in> set ops. L < op_len op)"
    unfolding exec_ok_def by blast
  show thesis by (rule that [OF *(1,2,3)]) (use *(4) in auto)
qed

text \<open>One round of the outer loop, in its two shapes.\<close>

lemma exec_ok_delay:
  assumes st: "stage (OpDelayNs ns # rest) 0 b = (0, off, b)"
    and ok: "exec_ok L D (delay_ns D ns d) b rest"
  shows "exec_ok L D d b (OpDelayNs ns # rest)"
  by (rule exec_okE [OF ok], rule exec_okI) (use st in auto)

lemma exec_ok_batch:
  assumes st: "stage ops 0 b = (k, off, b1)" "k \<noteq> 0" "ops = op # rest"
    and fits: "\<forall>op \<in> set (take k ops). \<not> is_delay op \<and> op_len op \<le> L"
    and run: "transceive D d (b1\<lparr>dma_len := off\<rparr>) Poll = Inr t" "wait D t = (d', b2)"
      "unstage (take k ops) 0 (rx_buf b2) = Some batch" "map blank batch = map blank (take k ops)"
    and ok: "exec_ok L D d' b2 (drop k ops)"
  shows "exec_ok L D d b ops"
proof (rule exec_okE [OF ok])
  fix d'' b' e ops'
  assume *: "exec_transaction D d' b2 (drop k ops) = Some (d'', b', e, ops')" "good_bufs L b'"
    "map blank ops' = map blank (drop k ops)"
    "e = None \<Longrightarrow> \<forall>op \<in> set (drop k ops). is_delay op \<or> op_len op \<le> L"
    "\<And>err. e = Some err \<Longrightarrow> err = SpiError \<or>
       err = ScratchBufferOverrun \<and> (\<exists>op \<in> set (drop k ops). L < op_len op)"
  have sets: "set ops = set (take k ops) \<union> set (drop k ops)"
    by (metis append_take_drop_id set_append)
  show ?thesis
  proof (rule exec_okI)
    show "exec_transaction D d b ops = Some (d'', b', e, batch @ ops')"
      using st run(1-3) *(1) by auto
    show "map blank (batch @ ops') = map blank ops"
      using run(4) *(3) by (metis append_take_drop_id map_append)
  qed (use fits * sets in blast)+
qed

subsection \<open>The states of the transceiver\<close>

definition idle :: "nat \<Rightarrow> ('d, 't) transceiver \<Rightarrow> bool" where
  "idle L t \<longleftrightarrow> \<not> busy (dev_cell t) \<and> (\<exists>d b. cell (dev_cell t) = Idle d b \<and> good_bufs L b)"

definition in_flight :: "('d, 't) spi_dma_device \<Rightarrow> nat \<Rightarrow> ('d, 't) transceiver \<Rightarrow> bool" where
  "in_flight D L t \<longleftrightarrow> \<not> busy (dev_cell t) \<and>
     (\<exists>x. cell (dev_cell t) = InFlight x \<and> good_bufs L (snd (wait D x)))"

text \<open>
  What an operation on an idle transceiver may do: it stays idle on the same buffers, does
  not panic, and does not report \<open>WouldBlock\<close>.
\<close>

definition bus_safe :: "nat \<Rightarrow> (('d, 't) transceiver, 'a) sm \<Rightarrow> bool" where
  "bus_safe L m \<longleftrightarrow>
     (\<forall>t r t'. idle L t \<longrightarrow> m t = (r, t') \<longrightarrow> idle L t' \<and> r \<noteq> Panic \<and> r \<noteq> Err WouldBlock)"

lemma bus_safe_ret: "bus_safe L (ret x)"
  by (simp add: bus_safe_def ret_def)

lemma bus_safe_bnd:
  assumes "bus_safe L m" "\<And>x. bus_safe L (f x)"
  shows "bus_safe L (bnd m f)"
  unfolding bus_safe_def
proof (intro allI impI)
  fix t r t' assume t: "idle L t" and run: "bnd m f t = (r, t')"
  obtain r1 t1 where m: "m t = (r1, t1)" by (cases "m t") auto
  have 1: "idle L t1" "r1 \<noteq> Panic" "r1 \<noteq> Err WouldBlock"
    using assms(1) t m by (auto simp: bus_safe_def)
  show "idle L t' \<and> r \<noteq> Panic \<and> r \<noteq> Err WouldBlock"
  proof (cases r1)
    case (Ok x)
    then show ?thesis using run m 1(1) assms(2) [of x] unfolding bus_safe_def bnd_def by simp
  qed (use run m 1 in \<open>auto simp: bnd_def\<close>)
qed

lemma idle_not_in_flight: "idle L t \<Longrightarrow> \<not> in_flight D L' t"
  by (auto simp: idle_def in_flight_def)

lemma idle_set: "idle L (t\<lparr>dev_cell := \<lparr>cell = Idle d b, busy = False, \<dots> = z\<rparr>\<rparr>) = good_bufs L b"
  by (simp add: idle_def)

locale spi_contract =
  fixes D :: "('d, 't) spi_dma_device"
  assumes wait_buffers: "transceive D d b c = Inr t \<Longrightarrow> good_bufs L b \<Longrightarrow> dma_len b \<le> L \<Longrightarrow>
       good_bufs L (snd (wait D t))"
    and fail_buffers: "transceive D d b c = Inl (d', b') \<Longrightarrow> good_bufs L b \<Longrightarrow> dma_len b \<le> L \<Longrightarrow>
       good_bufs L b'"
begin

text \<open>Executing a batch: no panic, the buffers come back, and only two errors.\<close>

lemma exec_transaction_spec:
  "good_bufs L b \<Longrightarrow> \<forall>op \<in> set ops. balanced op \<Longrightarrow> exec_ok L D d b ops"
proof (induction ops arbitrary: d b rule: length_induct)
  case (1 ops)
  show ?case
  proof (cases ops)
    case Nil
    then show ?thesis using "1.prems" by (simp add: exec_ok_def)
  next
    case (Cons op rest)
    obtain k off b1 where st: "stage ops 0 b = (k, off, b1)" by (cases "stage ops 0 b") auto
    have ss: "k \<le> length ops" "good_bufs L b1" "off = sum_list (map op_len (take k ops))" "off \<le> L"
      "\<forall>op \<in> set (take k ops). \<not> is_delay op \<and> op_len op \<le> L"
      using stage_spec [OF st "1.prems"(1)] by auto
    show ?thesis
    proof (cases "k = 0")
      case True
      then have z: "b1 = b" "is_delay op \<or> L < op_len op"
        using stage_zero [of op rest 0 b off b1] st Cons "1.prems"(1) by (auto simp: good_bufs_def)
      show ?thesis
      proof (cases op)
        case (OpDelayNs ns)
        have "exec_ok L D (delay_ns D ns d) b rest"
          using "1.IH" Cons "1.prems" by simp
        then show ?thesis using exec_ok_delay [of ns rest b off] st True z(1) OpDelayNs Cons by simp
      qed (use st True z "1.prems" Cons in \<open>auto simp: exec_ok_def\<close>)
    next
      case False
      show ?thesis
      proof (cases "transceive D d (b1\<lparr>dma_len := off\<rparr>) Poll")
        case (Inl p)
        then obtain d' b' where tr: "transceive D d (b1\<lparr>dma_len := off\<rparr>) Poll = Inl (d', b')"
          by (cases p) auto
        have "good_bufs L b'" using fail_buffers [OF tr, of L] ss(2,4) by (simp add: good_bufs_def)
        then show ?thesis using st False Cons tr by (auto simp: exec_ok_def)
      next
        case (Inr t)
        obtain d' b2 where w: "wait D t = (d', b2)" by (cases "wait D t") auto
        have g2: "good_bufs L b2"
          using wait_buffers [OF Inr, of L] ss(2,4) w by (simp add: good_bufs_def)
        have "\<forall>op \<in> set (take k ops). balanced op \<and> \<not> is_delay op"
          using ss(5) "1.prems"(2) by (meson in_set_takeD)
        then obtain batch where batch: "unstage (take k ops) 0 (rx_buf b2) = Some batch"
          "map blank batch = map blank (take k ops)"
          using unstage_some [of "take k ops" 0 "rx_buf b2"] ss(3,4) g2 by (auto simp: good_bufs_def)
        have "\<forall>op \<in> set (drop k ops). balanced op" "length (drop k ops) < length ops"
          using "1.prems"(2) False Cons by (meson in_set_dropD, simp)
        then have "exec_ok L D d' b2 (drop k ops)" using "1.IH" g2 by blast
        then show ?thesis by (rule exec_ok_batch [OF st False Cons ss(5) Inr w batch])
      qed
    qed
  qed
qed

lemma transaction_idle:
  assumes "idle L t" "\<forall>op \<in> set ops. balanced op" "transaction D ops t = (r, t')"
  shows "idle L t' \<and>
    (case r of
       Ok ops' \<Rightarrow> map blank ops' = map blank ops \<and> (\<forall>op \<in> set ops. is_delay op \<or> op_len op \<le> L)
     | Err e \<Rightarrow> e = Other SpiError \<or> e = Other ScratchBufferOverrun \<and> (\<exists>op \<in> set ops. L < op_len op)
     | Panic \<Rightarrow> False)"
proof -
  obtain d b where t: "\<not> busy (dev_cell t)" "cell (dev_cell t) = Idle d b" "good_bufs L b"
    using assms(1) by (auto simp: idle_def)
  from exec_transaction_spec [OF t(3) assms(2), of d] show ?thesis
  proof (rule exec_okE)
    fix d' b' e ops'
    assume ex: "exec_transaction D d b ops = Some (d', b', e, ops')" "good_bufs L b'"
      "map blank ops' = map blank ops" "e = None \<Longrightarrow> \<forall>op \<in> set ops. is_delay op \<or> op_len op \<le> L"
      "\<And>err. e = Some err \<Longrightarrow>
         err = SpiError \<or> err = ScratchBufferOverrun \<and> (\<exists>op \<in> set ops. L < op_len op)"
    have "r = (case e of Some err \<Rightarrow> Err (Other err) | None \<Rightarrow> Ok ops') \<and> idle L t'"
      using assms(3) t ex(1,2)
      by (auto simp: transaction_def on_cell_def zoom_def locked_free transaction_body_def idle_def)
    then show ?thesis using ex(3-5) by (cases e) auto
  qed
qed

lemma spi_read_idle:
  assumes "idle L t" "spi_read D a data t = (r, t')"
  shows "idle L t' \<and>
    (case r of
       Ok out \<Rightarrow> length out = length data \<and> HEADER \<le> L \<and> length data \<le> L
     | Err e \<Rightarrow> e = Other SpiError \<or> e = Other ScratchBufferOverrun \<and> (L < HEADER \<or> L < length data)
     | Panic \<Rightarrow> False)"
proof -
  let ?ops = "[OpWrite (create_header a False), OpRead data]"
  obtain r1 t1 where tr: "transaction D ?ops t = (r1, t1)" by (cases "transaction D ?ops t") auto
  note * = transaction_idle [OF assms(1) _ tr]
  show ?thesis
  proof (cases r1)
    case (Ok ops')
    then obtain h op where "ops' = [h, op]" "blank op = blank (OpRead data)"
      using * by auto
    moreover from this(2) obtain out where "op = OpRead out" "length out = length data"
      unfolding blank_eq_read by blast
    ultimately show ?thesis using * assms(2) tr Ok by (auto simp: spi_read_def bnd_def ret_def)
  qed (use * assms(2) tr in \<open>auto simp: spi_read_def bnd_def\<close>)
qed

lemma spi_write_idle:
  assumes "idle L t" "spi_write D a data t = (r, t')"
  shows "idle L t' \<and>
    (case r of
       Ok _ \<Rightarrow> HEADER \<le> L \<and> length data \<le> L
     | Err e \<Rightarrow> e = Other SpiError \<or> e = Other ScratchBufferOverrun \<and> (L < HEADER \<or> L < length data)
     | Panic \<Rightarrow> False)"
proof -
  let ?ops = "[OpWrite (create_header a True), OpWrite data]"
  obtain r1 t1 where tr: "transaction D ?ops t = (r1, t1)" by (cases "transaction D ?ops t") auto
  note * = transaction_idle [OF assms(1) _ tr]
  show ?thesis
    by (cases r1) (use * assms(2) tr in \<open>auto simp: spi_write_def bnd_def ret_def\<close>)
qed

lemma bus_safe_spi_read: "bus_safe L (spi_read D a data)"
  unfolding bus_safe_def
proof (intro allI impI)
  fix t r t' assume "idle L t" "spi_read D a data t = (r, t')"
  from spi_read_idle [OF this] show "idle L t' \<and> r \<noteq> Panic \<and> r \<noteq> Err WouldBlock"
    by (cases r) auto
qed

lemma bus_safe_spi_write: "bus_safe L (spi_write D a data)"
  unfolding bus_safe_def
proof (intro allI impI)
  fix t r t' assume "idle L t" "spi_write D a data t = (r, t')"
  from spi_write_idle [OF this] show "idle L t' \<and> r \<noteq> Panic \<and> r \<noteq> Err WouldBlock"
    by (cases r) auto
qed

lemma bus_safe_primitives [intro, simp]:
  "bus_safe L (read_u8 D a)" "bus_safe L (read_u16 D a)" "bus_safe L (read_u32 D a)"
  "bus_safe L (write_u8 D a b)" "bus_safe L (write_u16 D a h)" "bus_safe L (write_u32 D a w)"
  by (simp_all add: read_u8_def read_u16_def read_u32_def write_u8_def write_u16_def write_u32_def
      bus_safe_bnd bus_safe_ret bus_safe_spi_read bus_safe_spi_write)

text \<open>The bulk operations move between the two states.\<close>

lemma launch_states:
  assumes "good_bufs L b" "dma_len b \<le> L" "launch D d b s = (r, s')"
  shows "(r = Ok () \<and> (\<exists>x. s' = InFlight x \<and> good_bufs L (snd (wait D x)))) \<or>
         (r = Err (Other SpiError) \<and> (\<exists>d b. s' = Idle d b \<and> good_bufs L b))"
  using assms wait_buffers [of d b Interrupt] fail_buffers [of d b Interrupt]
  by (auto simp: launch_def split: sum.splits)

lemma start_read_idle:
  assumes "idle L t" "start_read D a n t = (r, t')"
  shows "(r = Ok () \<and> in_flight D L t' \<and> HEADER + n \<le> L) \<or>
         (r = Err (Other SpiError) \<and> idle L t') \<or>
         (r = Err (Other ScratchBufferOverrun) \<and> idle L t' \<and> L < HEADER + n)"
proof -
  obtain d b where t: "\<not> busy (dev_cell t)" "cell (dev_cell t) = Idle d b" "good_bufs L b"
    using assms(1) by (auto simp: idle_def)
  show ?thesis
  proof (cases "L < HEADER + n")
    case True
    then show ?thesis using t assms(2)
      by (auto simp: start_read_def on_cell_def zoom_def locked_free bnd_def take_idle_def
          modify_def raise_def idle_def good_bufs_def)
  next
    case False
    let ?b = "b\<lparr>tx_buf := copy_at 0 (create_header a False) (tx_buf b), dma_len := HEADER + n\<rparr>"
    have g: "good_bufs L ?b" using t(3) False by (auto simp: good_bufs_def HEADER_def)
    obtain r1 s1 where l: "launch D d ?b Pending = (r1, s1)" by (cases "launch D d ?b Pending") auto
    have "r = r1 \<and> t' = t\<lparr>dev_cell := \<lparr>cell = s1, busy = False, \<dots> = atomic_cell.more (dev_cell t)\<rparr>\<rparr>"
      using t False assms(2) l
      by (auto simp: start_read_def on_cell_def zoom_def locked_free bnd_def take_idle_def good_bufs_def)
    with launch_states [OF g _ l] False show ?thesis by (auto simp: in_flight_def idle_def)
  qed
qed

text \<open>\<open>fill\<close> must not fail and must fill a window of the length it is given.\<close>

lemma start_write_idle:
  assumes "idle L t" "start_write D a n fill (t, q) = (r, (t', q'))"
    and fill: "\<And>w. length w = n \<Longrightarrow> \<exists>p q1. fill w q = (Ok p, q1) \<and> length p = n \<and> P q1"
  shows "(r = Ok () \<and> in_flight D L t' \<and> HEADER + n \<le> L \<and> P q') \<or>
         (r = Err (Other SpiError) \<and> idle L t' \<and> P q') \<or>
         (r = Err (Other ScratchBufferOverrun) \<and> idle L t' \<and> L < HEADER + n \<and> q' = q)"
proof -
  obtain d b where t: "\<not> busy (dev_cell t)" "cell (dev_cell t) = Idle d b" "good_bufs L b"
    using assms(1) by (auto simp: idle_def)
  show ?thesis
  proof (cases "L < HEADER + n")
    case True
    then show ?thesis using t assms by (auto simp: start_write_def good_bufs_def)
  next
    case False
    let ?tx = "copy_at 0 (create_header a True) (tx_buf b)"
    have "length (take n (drop HEADER ?tx)) = n" using False t(3) by (simp add: good_bufs_def)
    from fill [OF this] obtain p q1 where f: "fill (take n (drop HEADER ?tx)) q = (Ok p, q1)"
      "length p = n" "P q1"
      by blast
    let ?b = "b\<lparr>tx_buf := copy_at HEADER p ?tx, dma_len := HEADER + n\<rparr>"
    have g: "good_bufs L ?b" using t(3) False f(2) by (auto simp: good_bufs_def)
    obtain r1 s1 where l: "launch D d ?b Pending = (r1, s1)" by (cases "launch D d ?b Pending") auto
    have "r = r1 \<and> t' = t\<lparr>dev_cell := (dev_cell t)\<lparr>cell := s1\<rparr>\<rparr> \<and> q' = q1"
      using t False assms(2) l f(1) by (auto simp: start_write_def good_bufs_def Let_def)
    with launch_states [OF g _ l] False t(1) f(3) show ?thesis by (auto simp: in_flight_def idle_def)
  qed
qed

lemma finish_read_in_flight:
  assumes "in_flight D L t" "finish_read D n t = (r, t')" "HEADER + n \<le> L"
  shows "idle L t' \<and> (\<exists>payload. r = Ok payload \<and> length payload = n)"
  using assms
  by (auto simp: finish_read_def on_cell_def zoom_def locked_free in_flight_def idle_def
      good_bufs_def slice_def split: prod.splits)

lemma finish_write_in_flight:
  assumes "in_flight D L t" "finish_write D t = (r, t')"
  shows "idle L t' \<and> r = Ok ()"
  using assms
  by (auto simp: finish_write_def on_cell_def zoom_def locked_free in_flight_def idle_def
      split: prod.splits)

lemma abort_settles:
  assumes "idle L t \<or> in_flight D L t" "abort D t = (r, t')"
  shows "idle L t' \<and> r = Ok ()"
  using assms by (auto simp: abort_def in_flight_def idle_def split: prod.splits)

end

subsection \<open>The recording mock of the unit tests\<close>

text \<open>
  \<^verbatim>\<open>MockDevice\<close> logs the bytes clocked out and answers \<^verbatim>\<open>rx[i] = i\<close>, so that a test can tell
  the payload window from the bytes under the header. A transfer of it is the device and
  the buffers themselves.
\<close>

record mock_device =
  transfers :: "bytes list"
  delays :: "u32 list"

definition mock_transceive ::
  "mock_device \<Rightarrow> dma_buffers \<Rightarrow> completion \<Rightarrow>
     (mock_device \<times> dma_buffers) + (mock_device \<times> dma_buffers)" where
  "mock_transceive d b c =
     Inr (d\<lparr>transfers := transfers d @ [take (dma_len b) (tx_buf b)]\<rparr>,
          b\<lparr>rx_buf := copy_at 0 (map of_nat [0..<dma_len b]) (rx_buf b)\<rparr>)"

definition mock_delay_ns :: "u32 \<Rightarrow> mock_device \<Rightarrow> mock_device" where
  "mock_delay_ns ns d = d\<lparr>delays := delays d @ [ns]\<rparr>"

definition mock :: "(mock_device, mock_device \<times> dma_buffers) spi_dma_device" where
  "mock = \<lparr>transceive = mock_transceive, wait = id, delay_ns = mock_delay_ns\<rparr>"

lemma mock_simps [simp]:
  "transceive mock = mock_transceive" "wait mock = id" "delay_ns mock = mock_delay_ns"
  by (simp_all add: mock_def)

interpretation mock: spi_contract mock
  by unfold_locales (auto simp: mock_transceive_def good_bufs_def)

definition mock_rig :: "nat \<Rightarrow> (mock_device, mock_device \<times> dma_buffers) transceiver" where
  "mock_rig n = \<lparr>dev_cell = cell_new (Idle \<lparr>transfers = [], delays = []\<rparr>
     \<lparr>rx_buf = replicate n 0, tx_buf = replicate n 0, dma_len = 0\<rparr>)\<rparr>"

lemma mock_rig_idle: "idle n (mock_rig n)"
  by (simp add: mock_rig_def idle_def cell_new_def good_bufs_def)

text \<open>The same answers from a device that fails once its budget of transfers is spent.\<close>

definition flaky_transceive ::
  "nat \<Rightarrow> dma_buffers \<Rightarrow> completion \<Rightarrow> (nat \<times> dma_buffers) + (nat \<times> dma_buffers)" where
  "flaky_transceive d b c =
     (if d = 0 then Inl (d, b)
      else Inr (d - 1, b\<lparr>rx_buf := copy_at 0 (map of_nat [0..<dma_len b]) (rx_buf b)\<rparr>))"

definition flaky :: "(nat, nat \<times> dma_buffers) spi_dma_device" where
  "flaky = \<lparr>transceive = flaky_transceive, wait = id, delay_ns = (\<lambda>_ d. d)\<rparr>"

interpretation flaky: spi_contract flaky
  by unfold_locales (auto simp: flaky_def flaky_transceive_def good_bufs_def split: if_splits)

definition flaky_rig :: "nat \<Rightarrow> nat \<Rightarrow> (nat, nat \<times> dma_buffers) transceiver" where
  "flaky_rig budget n = \<lparr>dev_cell = cell_new (Idle budget
     \<lparr>rx_buf = replicate n 0, tx_buf = replicate n 0, dma_len = 0\<rparr>)\<rparr>"

lemma flaky_rig_idle: "idle n (flaky_rig budget n)"
  by (simp add: flaky_rig_def idle_def cell_new_def good_bufs_def)

subsection \<open>What a transaction guarantees\<close>



text \<open>
  One command, one SPI frame: when header and payload fit the scratch buffer together, a
  read is exactly one full-duplex transfer of the header and \<open>n\<close> more bytes, and returns the
  bytes captured behind the header.
\<close>

theorem spi_read_one_frame:
  assumes "HEADER + length data \<le> length (tx_buf b)" "length (rx_buf b) = length (tx_buf b)"
  shows "spi_read D a data \<lparr>dev_cell = \<lparr>cell = Idle d b, busy = False\<rparr>\<rparr> =
    (case transceive D d (b\<lparr>tx_buf := copy_at 0 (create_header a False) (tx_buf b),
                            dma_len := HEADER + length data\<rparr>) Poll of
       Inl (d', b') \<Rightarrow> (Err (Other SpiError), \<lparr>dev_cell = \<lparr>cell = Idle d' b', busy = False\<rparr>\<rparr>)
     | Inr x \<Rightarrow>
         (case wait D x of (d', b') \<Rightarrow>
           (case slice HEADER (length data) (rx_buf b') of
              None \<Rightarrow> (Panic, \<lparr>dev_cell = \<lparr>cell = Pending, busy = False\<rparr>\<rparr>)
            | Some out \<Rightarrow> (Ok out, \<lparr>dev_cell = \<lparr>cell = Idle d' b', busy = False\<rparr>\<rparr>))))"
  using assms
  by (auto simp: spi_read_def transaction_def on_cell_def zoom_def locked_cell transaction_body_def
      bnd_def ret_def split: sum.splits prod.splits option.splits)

theorem spi_read_one_frame_witness:
  "fst (spi_read mock \<lparr>addr = 0x1234, block = CommonRegister\<rparr> (replicate 4 0) (mock_rig 16)) = Ok [3, 4, 5, 6]"
proof -
  let ?b = "\<lparr>rx_buf = replicate 16 0, tx_buf = replicate 16 0, dma_len = 0\<rparr>"
  have "HEADER + length (replicate 4 (0 :: u8)) \<le> length (tx_buf ?b)"
    "length (rx_buf ?b) = length (tx_buf ?b)"
    by (simp_all add: HEADER_def)
  from spi_read_one_frame [OF this, of mock "\<lparr>addr = 0x1234, block = CommonRegister\<rparr>"
      "\<lparr>transfers = [], delays = []\<rparr>"]
  show ?thesis
    by (simp add: mock_rig_def cell_new_def mock_transceive_def HEADER_def slice_def copy_at_def upt_rec)
qed

text \<open>
  C25. The frame is split when header and payload fit the scratch buffer one by one but not
  together: the read goes out as two transfers, the header alone and then \<open>n\<close> stale bytes as
  a command of their own, and the bytes returned are those under the second frame's header.
  No error is reported (the bulk operations check the sum; the synchronous ones do not).
\<close>

theorem spi_read_splits_frame:
  assumes "HEADER \<le> L" "n \<le> L" "L < HEADER + n"
  shows "fst (spi_read mock a (replicate n 0) (mock_rig L)) = Ok (map of_nat [0..<n]) \<and>
    (\<exists>d b. cell (dev_cell (snd (spi_read mock a (replicate n 0) (mock_rig L)))) = Idle d b \<and>
       length (transfers d) = 2 \<and> transfers d ! 0 = create_header a False \<and>
       transfers d ! 1 = take n (create_header a False @ replicate (L - HEADER) 0))"
  using assms
  by (auto simp: spi_read_def transaction_def on_cell_def zoom_def locked_cell transaction_body_def
      bnd_def ret_def mock_rig_def cell_new_def mock_transceive_def copy_at_def slice_def HEADER_def)

theorem spi_read_splits_frame_witness:
  "fst (spi_read mock \<lparr>addr = 0, block = SocketRxBuffer 0\<rparr> (replicate 8 0) (mock_rig 8)) =
     Ok [0, 1, 2, 3, 4, 5, 6, 7]"
  using spi_read_splits_frame [of 8 8 "\<lparr>addr = 0, block = SocketRxBuffer 0\<rparr>"]
  by (simp add: HEADER_def upt_rec)

text \<open>
  C18. The bulk read, on a transceiver that is idle. Header and payload that do not fit the scratch
  buffer are refused and nothing changes; a transfer the device refuses leaves the transceiver idle
  with the buffers the device returned; otherwise the transfer of exactly the command header and
  \<open>n\<close> more bytes is in flight. In flight every transaction and every start of another transfer is
  refused and changes nothing, and \<^verbatim>\<open>finish_read\<close> always delivers the payload: the \<open>n\<close> bytes that
  the device captured behind the header. It leaves the transceiver idle.
\<close>

theorem bulk_read_lifecycle:
  assumes "spi_contract D" "dev_cell t = \<lparr>cell = Idle d b, busy = False\<rparr>" "good_bufs L b"
    "staged = b\<lparr>tx_buf := create_header a False @ drop HEADER (tx_buf b), dma_len := HEADER + n\<rparr>"
  shows "if L < HEADER + n then start_read D a n t = (Err (Other ScratchBufferOverrun), t)
    else case transceive D d staged Interrupt of
      Inl (d', b') \<Rightarrow> start_read D a n t = (Err (Other SpiError), t\<lparr>dev_cell := \<lparr>cell = Idle d' b', busy = False\<rparr>\<rparr>) \<and> good_bufs L b'
    | Inr x \<Rightarrow> (\<exists>t' d' b'. start_read D a n t = (Ok (), t') \<and> in_flight D L t' \<and>
        transaction D ops t' = (Err WouldBlock, t') \<and> start_read D a' m t' = (Err WouldBlock, t') \<and>
        start_write D a' m fill (t', q) = (Err WouldBlock, (t', q)) \<and>
        wait D x = (d', b') \<and> good_bufs L b' \<and> length (take n (drop HEADER (rx_buf b'))) = n \<and>
        finish_read D n t' = (Ok (take n (drop HEADER (rx_buf b'))), t\<lparr>dev_cell := \<lparr>cell = Idle d' b', busy = False\<rparr>\<rparr>))"
proof (cases "L < HEADER + n")
  case True
  then show ?thesis using assms(2,3)
    by (cases t) (auto simp: start_read_def on_cell_def zoom_def locked_cell bnd_def take_idle_def modify_def raise_def good_bufs_def)
next
  case False
  have L: "length (tx_buf b) = L" "length (rx_buf b) = L" using assms(3) by (auto simp: good_bufs_def)
  have "length (create_header a False) = HEADER" by (simp add: create_header_def HEADER_def)
  then have s: "b\<lparr>tx_buf := copy_at 0 (create_header a False) (tx_buf b), dma_len := HEADER + n\<rparr> = staged" unfolding assms(4)
    by (simp add: copy_at_def)
  have g: "good_bufs L staged" "dma_len staged \<le> L" using L False unfolding s [symmetric] by (auto simp: good_bufs_def HEADER_def create_header_def)
  show ?thesis
  proof (cases "transceive D d staged Interrupt")
    case (Inl e)
    obtain d' b' where e: "e = (d', b')" by (cases e)
    have "good_bufs L b'" using spi_contract.fail_buffers [OF assms(1) Inl [unfolded e] g] .
    with Inl e s False L assms(2) show ?thesis
      by (cases t) (auto simp: start_read_def on_cell_def zoom_def locked_cell bnd_def take_idle_def launch_def)
  next
    case (Inr x)
    obtain d' b' where w: "wait D x = (d', b')" by (cases "wait D x")
    have g': "good_bufs L b'" using spi_contract.wait_buffers [OF assms(1) Inr g] w by simp
    let ?t = "t\<lparr>dev_cell := \<lparr>cell = InFlight x, busy = False\<rparr>\<rparr>"
    have st: "start_read D a n t = (Ok (), ?t)" using Inr s False L assms(2)
      by (cases t) (auto simp: start_read_def on_cell_def zoom_def locked_cell bnd_def take_idle_def launch_def)
    have sl: "slice HEADER n (rx_buf b') = Some (take n (drop HEADER (rx_buf b')))" "length (take n (drop HEADER (rx_buf b'))) = n"
      using g' False by (simp_all add: slice_def good_bufs_def)
    have "transaction D ops ?t = (Err WouldBlock, ?t)" "start_read D a' m ?t = (Err WouldBlock, ?t)"
      "start_write D a' m fill (?t, q) = (Err WouldBlock, (?t, q))"
      "finish_read D n ?t = (Ok (take n (drop HEADER (rx_buf b'))), t\<lparr>dev_cell := \<lparr>cell = Idle d' b', busy = False\<rparr>\<rparr>)"
      using w sl(1) by (auto simp: transaction_def start_read_def start_write_def finish_read_def on_cell_def zoom_def locked_cell
        transaction_body_def bnd_def take_idle_def)
    moreover have "in_flight D L ?t" using w g' by (simp add: in_flight_def)
    ultimately show ?thesis using Inr False st w g' sl(2) by auto
  qed
qed

theorem bulk_read_lifecycle_witness:
  "\<exists>t'. start_read mock \<lparr>addr = 0x1234, block = SocketRxBuffer 0\<rparr> 4 (mock_rig 16) = (Ok (), t') \<and>
    fst (finish_read mock 4 t') = Ok [3, 4, 5, 6]"
proof -
  let ?a = "\<lparr>addr = 0x1234, block = SocketRxBuffer 0\<rparr>"
  let ?b = "\<lparr>rx_buf = replicate 16 0, tx_buf = replicate 16 0, dma_len = 0\<rparr>"
  have c: "dev_cell (mock_rig 16) = \<lparr>cell = Idle \<lparr>transfers = [], delays = []\<rparr> ?b, busy = False\<rparr>"
    by (simp add: mock_rig_def cell_new_def)
  have g: "good_bufs 16 ?b" by (simp add: good_bufs_def)
  show ?thesis
    using bulk_read_lifecycle [where a = ?a and n = 4 and ops = "[]" and a' = ?a and m = 0 and fill = ret and q = "()", OF mock.spi_contract_axioms c g refl]
    by (auto simp: HEADER_def mock_transceive_def copy_at_def upt_rec)
qed

end
