(* ===== verification/Byte_Fifo.thy ===== *)
theory Byte_Fifo
  imports Prelude
begin

text \<open>
  The contract every client of a ring relies on, as a locale: a bounded byte queue with
  partial writes, consuming reads and peeks. \<open>view\<close> is the queue's abstract value, \<open>room\<close>
  what a write can still take, \<open>size\<close> the capacity. The socket handles and the protocol
  machines use only these laws; theory \<open>Spsc_Ring\<close> discharges them for the ring.
\<close>

locale byte_fifo =
  fixes inv :: "'r \<Rightarrow> bool"
    and view :: "'r \<Rightarrow> bytes"
    and room :: "'r \<Rightarrow> nat"
    and size :: "'r \<Rightarrow> nat"
    and put :: "bytes \<Rightarrow> ('r, nat) sm"
    and get :: "nat \<Rightarrow> ('r, bytes) sm"
    and peek :: "nat \<Rightarrow> ('r, bytes) sm"
  assumes fifo_write: "inv r \<Longrightarrow> \<exists>r'. put xs r = (Ok (min (length xs) (room r)), r') \<and>
       view r' = view r @ take (room r) xs \<and> inv r' \<and> size r' = size r"
    and fifo_read: "inv r \<Longrightarrow> \<exists>r'. get k r = (Ok (take k (view r)), r') \<and>
       view r' = drop k (view r) \<and> inv r' \<and> size r' = size r"
    and fifo_peek: "inv r \<Longrightarrow> peek k r = (Ok (take k (view r)), r)"
    and fifo_room: "inv r \<Longrightarrow> room r + length (view r) = size r"
begin

lemma write_wp:
  assumes "inv r"
    and "\<And>r'. view r' = view r @ take (room r) xs \<Longrightarrow> inv r' \<Longrightarrow> size r' = size r \<Longrightarrow>
           Q (Ok (min (length xs) (room r))) r'"
  shows "wp (put xs) Q r"
  using fifo_write [OF assms(1), of xs] assms(2) by (auto simp: wp_def)

lemma read_wp:
  assumes "inv r"
    and "\<And>r'. view r' = drop k (view r) \<Longrightarrow> inv r' \<Longrightarrow> size r' = size r \<Longrightarrow>
           Q (Ok (take k (view r))) r'"
  shows "wp (get k) Q r"
  using fifo_read [OF assms(1), of k] assms(2) by (auto simp: wp_def)

lemma write_fits:
  assumes "inv r" "length xs \<le> room r"
  obtains r' where "put xs r = (Ok (length xs), r')" "view r' = view r @ xs"
    "inv r'" "size r' = size r" "room r' = room r - length xs"
proof -
  obtain r' where r': "put xs r = (Ok (min (length xs) (room r)), r')"
    "view r' = view r @ take (room r) xs" "inv r'" "size r' = size r"
    using fifo_write [OF assms(1), of xs] by blast
  moreover have "room r' = room r - length xs"
    using fifo_room [OF r'(3)] fifo_room [OF assms(1)] r'(2,4) assms(2) by simp
  ultimately show ?thesis using assms(2) that by (simp add: min_def)
qed

lemma read_prefix:
  assumes "inv r" "view r = xs @ ys"
  obtains r' where "get (length xs) r = (Ok xs, r')" "view r' = ys"
    "inv r'" "size r' = size r" "room r' = room r + length xs"
proof -
  obtain r' where r': "get (length xs) r = (Ok (take (length xs) (view r)), r')"
    "view r' = drop (length xs) (view r)" "inv r'" "size r' = size r"
    using fifo_read [OF assms(1), of "length xs"] by blast
  moreover have "room r' = room r + length xs"
    using fifo_room [OF r'(3)] fifo_room [OF assms(1)] r'(2,4) assms(2) by simp
  ultimately show ?thesis using assms(2) that by simp
qed

text \<open>A frame written in two pieces lands as one run, if both fit beforehand.\<close>

lemma write_twice:
  assumes "inv r" "length xs + length ys \<le> room r"
  obtains r1 r2 where "put xs r = (Ok (length xs), r1)" "put ys r1 = (Ok (length ys), r2)"
    "view r2 = view r @ xs @ ys" "inv r2" "size r2 = size r"
proof -
  obtain r1 where r1: "put xs r = (Ok (length xs), r1)" "view r1 = view r @ xs"
    "inv r1" "size r1 = size r" "room r1 = room r - length xs"
    using write_fits [OF assms(1), of xs] assms(2) by auto
  obtain r2 where "put ys r1 = (Ok (length ys), r2)" "view r2 = view r1 @ ys"
    "inv r2" "size r2 = size r1"
  proof -
    have "length ys \<le> room r1" using assms(2) r1(5) by simp
    from write_fits [OF r1(3) this] that show ?thesis by blast
  qed
  with r1 that show ?thesis by simp
qed

lemma room_bound: "inv r \<Longrightarrow> length (view r) \<le> size r"
  using fifo_room [of r] by linarith

lemma write_read_roundtrip:
  assumes "inv r" "view r = []" "length xs \<le> room r"
  shows "\<exists>r1 r2. put xs r = (Ok (length xs), r1) \<and> get (length xs) r1 = (Ok xs, r2) \<and> view r2 = []"
  using write_fits [OF assms(1,3)] read_prefix [of _ xs "[]"] assms(2) by (metis append_Nil append_Nil2)

end

end
