(* ===== verification/Spsc_Ring.thy ===== *)
theory Spsc_Ring
  imports Byte_Fifo
begin

text \<open>
  The single-producer single-consumer byte ring of \<^verbatim>\<open>wiznet-rs/src/spsc_ring.rs\<close>. The
  operations here are the ones of the source run to completion; their interleaving across
  the interrupt boundary is the subject of theory \<open>Spsc_Concurrent\<close>. The abstraction is
  \<open>contents\<close>, the bytes stored, oldest first.
\<close>

subsection \<open>State\<close>

text \<open>
  \<open>ring_buf\<close> is the memory behind \<^verbatim>\<open>ptr\<close>; \<open>cap\<close> is its length once installed. The
  four counters are \<^verbatim>\<open>AtomicUsize\<close> and wrap.
\<close>

record spsc_ring =
  ring_buf :: bytes
  cap :: nat
  head :: usize
  tail :: usize
  frames_in :: usize
  frames_out :: usize

definition ring_new :: spsc_ring where
  "ring_new = \<lparr>ring_buf = [], cap = 0, head = 0, tail = 0, frames_in = 0, frames_out = 0\<rparr>"

definition ring_install :: "bytes \<Rightarrow> spsc_ring \<Rightarrow> spsc_ring" where
  "ring_install b r = r\<lparr>head := 0, tail := 0, frames_in := 0, frames_out := 0,
     ring_buf := b, cap := length b\<rparr>"

definition ring_clear :: "spsc_ring \<Rightarrow> spsc_ring" where
  "ring_clear r = r\<lparr>head := 0, frames_out := 0, frames_in := 0, tail := 0\<rparr>"

definition ring_len :: "spsc_ring \<Rightarrow> nat" where
  "ring_len r = unat (tail r - head r)"

text \<open>\<^verbatim>\<open>self.capacity() - self.len()\<close> is a plain subtraction: it panics on underflow.\<close>

definition ring_free :: "(spsc_ring, nat) sm" where
  "ring_free r = (if cap r < ring_len r then (Panic, r) else (Ok (cap r - ring_len r), r))"

subsection \<open>The byte path\<close>

text \<open>
  The two \<^verbatim>\<open>copy_nonoverlapping\<close> runs of the producer and of the consumer. Outside the
  backing memory they would be undefined behaviour, which is \<open>None\<close> here and becomes a
  \<open>Panic\<close> of the operation.
\<close>

definition wrap_copy_in :: "nat \<Rightarrow> nat \<Rightarrow> bytes \<Rightarrow> bytes \<Rightarrow> bytes option" where
  "wrap_copy_in c start src b =
     (let n = length src; first = min n (c - start)
      in if start + first \<le> length b \<and> n - first \<le> length b
         then (let b1 = copy_at start (take first src) b
               in Some (if first < n then copy_at 0 (drop first src) b1 else b1))
         else None)"

definition wrap_copy_out :: "nat \<Rightarrow> nat \<Rightarrow> nat \<Rightarrow> bytes \<Rightarrow> bytes option" where
  "wrap_copy_out c start n b =
     (let first = min n (c - start)
      in if start + first \<le> length b \<and> n - first \<le> length b
         then Some (take first (drop start b) @ (if first < n then take (n - first) b else []))
         else None)"

definition ring_write :: "bytes \<Rightarrow> (spsc_ring, nat) sm" where
  "ring_write src r =
     (if cap r = 0 then (Ok 0, r)
      else if cap r < unat (tail r - head r) then (Panic, r)
      else
        let n = min (length src) (cap r - unat (tail r - head r))
        in if n = 0 then (Ok 0, r)
           else
             (case wrap_copy_in (cap r) (unat (tail r) mod cap r) (take n src) (ring_buf r) of
                None \<Rightarrow> (Panic, r)
              | Some b \<Rightarrow> (Ok n, r\<lparr>ring_buf := b, tail := tail r + of_nat n\<rparr>)))"

text \<open>
  \<open>ring_read k\<close> and \<open>ring_peek k\<close> are \<^verbatim>\<open>read\<close> and \<^verbatim>\<open>peek\<close> on a destination of \<open>k\<close> bytes;
  the bytes they return are the prefix of the destination they fill (its length is the
  count the source returns).
\<close>

definition ring_peek :: "nat \<Rightarrow> (spsc_ring, bytes) sm" where
  "ring_peek k r =
     (if cap r = 0 then (Ok [], r)
      else
        let n = min k (unat (tail r - head r))
        in if n = 0 then (Ok [], r)
           else
             (case wrap_copy_out (cap r) (unat (head r) mod cap r) n (ring_buf r) of
                None \<Rightarrow> (Panic, r)
              | Some out \<Rightarrow> (Ok out, r)))"

definition ring_read :: "nat \<Rightarrow> (spsc_ring, bytes) sm" where
  "ring_read k r =
     (if cap r = 0 then (Ok [], r)
      else
        let n = min k (unat (tail r - head r))
        in if n = 0 then (Ok [], r)
           else
             (case wrap_copy_out (cap r) (unat (head r) mod cap r) n (ring_buf r) of
                None \<Rightarrow> (Panic, r)
              | Some out \<Rightarrow> (Ok out, r\<lparr>head := head r + of_nat n\<rparr>)))"

subsection \<open>The frame counters\<close>

definition ring_frames :: "spsc_ring \<Rightarrow> usize" where
  "ring_frames r = frames_in r - frames_out r"

definition commit_frame :: "spsc_ring \<Rightarrow> spsc_ring" where
  "commit_frame r = r\<lparr>frames_in := frames_in r + 1\<rparr>"

definition release_frame :: "spsc_ring \<Rightarrow> spsc_ring" where
  "release_frame r = r\<lparr>frames_out := frames_out r + 1\<rparr>"

subsection \<open>Abstraction and invariant\<close>

text \<open>The stored bytes: the \<open>i\<close>-th one sits at index \<^verbatim>\<open>(head + i) % cap\<close>.\<close>

definition contents :: "spsc_ring \<Rightarrow> bytes" where
  "contents r = map (\<lambda>i. ring_buf r ! ((unat (head r) + i) mod cap r)) [0..<ring_len r]"

text \<open>
  The capacity is the length of the memory, no more bytes are stored than fit, and the
  counters agree with the modulus: either the capacity divides \<open>2 ^ 32\<close>, so that the wrap
  of a counter does not move the index, or the counters have not wrapped.
\<close>

definition no_wrap :: "spsc_ring \<Rightarrow> nat \<Rightarrow> bool" where
  "no_wrap r n \<longleftrightarrow> cap r dvd 2 ^ 32 \<or> unat (head r) + ring_len r + n < 2 ^ 32"

definition ring_ok :: "spsc_ring \<Rightarrow> bool" where
  "ring_ok r \<longleftrightarrow>
     length (ring_buf r) = cap r \<and> cap r < 2 ^ 32 \<and> ring_len r \<le> cap r \<and> no_wrap r 0"

definition free_space :: "spsc_ring \<Rightarrow> nat" where
  "free_space r = cap r - length (contents r)"

lemma length_contents [simp]: "length (contents r) = ring_len r"
  by (simp add: contents_def)

lemma contents_Nil_iff [simp]: "contents r = [] \<longleftrightarrow> ring_len r = 0"
  by (simp flip: length_0_conv)

lemma contents_nth: "i < ring_len r \<Longrightarrow> contents r ! i = ring_buf r ! ((unat (head r) + i) mod cap r)"
  by (simp add: contents_def)

subsection \<open>Index arithmetic\<close>

text \<open>The distance from \<open>y\<close> to \<open>x\<close> around a ring of size \<open>c\<close>.\<close>

lemma ring_dist:
  assumes "0 < (c::nat)" "y \<le> x"
  shows "(x mod c + c - y mod c) mod c = (x - y) mod c"
proof -
  have "y mod c \<le> x mod c + c"
    using assms mod_less_divisor [of c y] by linarith
  moreover have "(x mod c + c) mod c = x mod c" by simp
  moreover obtain d where "x = y + d" using assms(2) le_Suc_ex by blast
  ultimately show ?thesis
  proof -
    assume *: "x = y + d" and le: "y mod c \<le> x mod c + c"
    have "(y mod c + d) mod c = x mod c" by (simp add: * mod_add_left_eq)
    then obtain q where q: "y mod c + d = x mod c + q * c"
      using div_mult_mod_eq [of "y mod c + d" c] by (metis add.commute)
    have "(x mod c + c - y mod c) + q * c = d + c"
      using q le by linarith
    then have "(x mod c + c - y mod c) mod c = (d + c) mod c"
      by (metis mod_mult_self1)
    then show ?thesis by (simp add: *)
  qed
qed

text \<open>The wrapped copy as a function of the index: the run of \<open>src\<close> starting at \<open>start\<close>.\<close>

lemma wrap_copy_in_nth:
  assumes "length b = c" "start < c" "length src \<le> c"
  shows "\<exists>b'. wrap_copy_in c start src b = Some b' \<and> length b' = c \<and>
     (\<forall>j<c. b' ! j = (let d = (j + c - start) mod c in if d < length src then src ! d else b ! j))"
proof -
  let ?n = "length src" and ?first = "min (length src) (c - start)"
  let ?b1 = "copy_at start (take ?first src) b"
  have len1: "length ?b1 = c" and fit: "start + length (take ?first src) \<le> length b"
    using assms by auto
  have nth1: "?b1 ! j = (if start \<le> j \<and> j < start + ?first then src ! (j - start) else b ! j)"
    if "j < c" for j
    using that assms fit by (subst nth_copy_at) (auto simp del: min_less_iff_conj)
  define b' where "b' = (if ?first < ?n then copy_at 0 (drop ?first src) ?b1 else ?b1)"
  have nth': "b' ! j = (let d = (j + c - start) mod c in if d < ?n then src ! d else b ! j)"
    if j: "j < c" for j
  proof (cases "start \<le> j")
    case True
    then have "(j + c - start) mod c = j - start"
      using j assms(2) by (metis Nat.add_diff_assoc2 le_less_trans less_imp_diff_less mod_add_self2 mod_less)
    with True show ?thesis
      using j assms len1 by (auto simp: b'_def nth1 nth_copy_at Let_def)
  next
    case False
    then have "(j + c - start) mod c = j + c - start"
      using assms(2) by simp
    with False show ?thesis
      using j assms len1 by (auto simp: b'_def nth1 nth_copy_at Let_def add.commute)
  qed
  have "length b' = c" using len1 assms by (auto simp: b'_def)
  moreover have "wrap_copy_in c start src b = Some b'"
    using assms by (auto simp: wrap_copy_in_def Let_def b'_def)
  ultimately show ?thesis using nth' by blast
qed

lemma wrap_copy_out_nth:
  assumes "length b = c" "start < c" "n \<le> c"
  shows "wrap_copy_out c start n b = Some (map (\<lambda>i. b ! ((start + i) mod c)) [0..<n])"
proof -
  let ?first = "min n (c - start)"
  have "take ?first (drop start b) @ (if ?first < n then take (n - ?first) b else []) =
        map (\<lambda>i. b ! ((start + i) mod c)) [0..<n]" (is "?l = ?r")
  proof (rule nth_equalityI)
    show len: "length ?l = length ?r" using assms by auto
    fix i assume "i < length ?l"
    then have i: "i < n" using len by simp
    show "?l ! i = ?r ! i"
    proof (cases "i < ?first")
      case True
      then show ?thesis using i assms by (simp add: nth_append)
    next
      case False
      then have "start + i - c < c" "c \<le> start + i" using i assms by auto
      then have "(start + i) mod c = start + i - c" by (simp add: mod_if)
      with False show ?thesis
        using i assms by (auto simp: nth_append min_def not_less add.commute split: if_splits)
    qed
  qed
  then show ?thesis
    using assms by (auto simp: wrap_copy_out_def Let_def)
qed

subsection \<open>Counters and indices\<close>

lemma unat_add_of_nat: "unat (w + of_nat n :: usize) = (unat w + n) mod 2 ^ 32"
  by (simp add: unat_word_ariths unat_of_nat mod_add_right_eq)

lemma unat_tail: "unat (tail r) = (unat (head r) + ring_len r) mod 2 ^ 32"
proof -
  have "tail r = head r + of_nat (ring_len r)" by (simp add: ring_len_def)
  then show ?thesis by (metis unat_add_of_nat)
qed

lemma no_wrap_mod:
  assumes "no_wrap r n" "k \<le> ring_len r + n"
  shows "((unat (head r) + k) mod 2 ^ 32) mod cap r = (unat (head r) + k) mod cap r"
  using assms unfolding no_wrap_def
  by (metis (mono_tags, opaque_lifting) add.assoc add_le_cancel_left le_less_trans mod_less mod_mod_cancel)

lemma no_wrap_mono: "no_wrap r n \<Longrightarrow> m \<le> n \<Longrightarrow> no_wrap r m"
  by (auto simp: no_wrap_def)

lemma tail_index:
  assumes "no_wrap r 0"
  shows "unat (tail r) mod cap r = (unat (head r) + ring_len r) mod cap r"
  using no_wrap_mod [OF assms, of "ring_len r"] by (simp add: unat_tail)

text \<open>A power-of-two capacity never needs a bound on the number of bytes moved.\<close>

lemma no_wrap_dvd: "cap r dvd 2 ^ 32 \<Longrightarrow> no_wrap r n"
  by (simp add: no_wrap_def)

lemma ring_len_write:
  assumes "ring_len r + n < 2 ^ 32"
  shows "ring_len (r\<lparr>ring_buf := b, tail := tail r + of_nat n\<rparr>) = ring_len r + n"
proof -
  have "unat (tail r + of_nat n - head r) = unat ((tail r - head r) + of_nat n)"
    by (simp add: algebra_simps)
  also have "\<dots> = unat (tail r - head r) + n"
    using assms unat_add_of_nat [of "tail r - head r" n] by (simp add: ring_len_def)
  finally show ?thesis by (simp add: ring_len_def)
qed

lemma ring_len_read:
  assumes "n \<le> ring_len r"
  shows "ring_len (r\<lparr>head := head r + of_nat n\<rparr>) = ring_len r - n"
proof -
  have un: "unat (of_nat n :: usize) = n"
    using assms unsigned_less [of "tail r - head r", where 'a = nat] unfolding ring_len_def
    by (simp add: unat_of_nat)
  have "unat (tail r - (head r + of_nat n)) = unat ((tail r - head r) - of_nat n)"
    by (simp add: algebra_simps)
  also have "\<dots> = unat (tail r - head r) - n"
    using assms un by (subst unat_sub) (auto simp: ring_len_def word_le_nat_alt)
  finally show ?thesis by (simp add: ring_len_def)
qed

subsection \<open>What the operations do to the stored bytes\<close>

text \<open>
  The producer's copy leaves the stored bytes alone and puts the new ones behind them.
\<close>

lemma write_copy:
  assumes ok: "ring_ok r" and nw: "no_wrap r n" and n: "ring_len r + n \<le> cap r" "length xs = n"
    and c: "0 < cap r"
  shows "\<exists>b. wrap_copy_in (cap r) (unat (tail r) mod cap r) xs (ring_buf r) = Some b \<and>
     length b = cap r \<and>
     (\<forall>i<ring_len r. b ! ((unat (head r) + i) mod cap r) = contents r ! i) \<and>
     (\<forall>i<n. b ! ((unat (head r) + (ring_len r + i)) mod cap r) = xs ! i)"
proof -
  let ?c = "cap r" and ?h = "unat (head r)" and ?l = "ring_len r"
  let ?start = "unat (tail r) mod ?c"
  have start: "?start = (?h + ?l) mod ?c" "?start < ?c"
    using ok c tail_index [of r] by (auto simp: ring_ok_def)
  have dist: "((?h + k) mod ?c + ?c - ?start) mod ?c = k - ?l" if "?l \<le> k" "k < ?l + ?c" for k
    using ring_dist [of ?c "?h + ?l" "?h + k"] c that by (simp add: start)
  have dist': "((?h + k) mod ?c + ?c - ?start) mod ?c = k + ?c - ?l" if "k < ?l" for k
    using ring_dist [of ?c "?h + ?l" "?h + k + ?c"] c that ok
    by (simp add: start ring_ok_def)
  have fit: "length (ring_buf r) = ?c" "length xs \<le> ?c"
    using ok n by (auto simp: ring_ok_def)
  obtain b where b: "wrap_copy_in ?c ?start xs (ring_buf r) = Some b" "length b = ?c"
    "\<forall>j<?c. b ! j = (let d = (j + ?c - ?start) mod ?c in if d < length xs then xs ! d else ring_buf r ! j)"
    using wrap_copy_in_nth [OF fit(1) start(2) fit(2)] by blast
  have "b ! ((?h + i) mod ?c) = contents r ! i" if "i < ?l" for i
  proof -
    have "\<not> i + ?c - ?l < n" using n by linarith
    then show ?thesis
      using b(3) [rule_format, of "(?h + i) mod ?c"] c that n dist' [OF that]
      by (simp add: contents_nth Let_def)
  qed
  moreover have "b ! ((?h + (?l + i)) mod ?c) = xs ! i" if "i < n" for i
    using b(3) c that n dist [of "?l + i"] by (simp add: Let_def)
  ultimately show ?thesis using b(1,2) by blast
qed

text \<open>\<^verbatim>\<open>write\<close>: takes \<^verbatim>\<open>min(src.len(), free())\<close> bytes and appends them.\<close>

lemma ring_write_spec:
  assumes ok: "ring_ok r" and nw: "no_wrap r (length src)"
  shows "\<exists>r'. ring_write src r = (Ok (min (length src) (free_space r)), r') \<and>
     contents r' = contents r @ take (free_space r) src \<and> ring_ok r' \<and> cap r' = cap r \<and>
     frames_in r' = frames_in r \<and> frames_out r' = frames_out r \<and> head r' = head r"
proof -
  define n where "n = min (length src) (free_space r)"
  have used: "unat (tail r - head r) = ring_len r" by (simp add: ring_len_def)
  have le: "ring_len r \<le> cap r" using ok by (simp add: ring_ok_def)
  show ?thesis
  proof (cases "cap r = 0 \<or> n = 0")
    case True
    then have "ring_write src r = (Ok n, r)"
      using le by (auto simp: ring_write_def used free_space_def n_def Let_def min_def split: if_splits)
    moreover have "take (free_space r) src = []"
      using True by (auto simp: free_space_def n_def min_def split: if_splits)
    ultimately show ?thesis using ok by (auto simp: n_def)
  next
    case False
    have room: "ring_len r + n \<le> cap r" using le by (simp add: n_def free_space_def)
    have nwn: "no_wrap r n" using nw by (rule no_wrap_mono) (simp add: n_def)
    obtain b where b:
      "wrap_copy_in (cap r) (unat (tail r) mod cap r) (take n src) (ring_buf r) = Some b"
      "length b = cap r"
      "\<forall>i<ring_len r. b ! ((unat (head r) + i) mod cap r) = contents r ! i"
      "\<forall>i<n. b ! ((unat (head r) + (ring_len r + i)) mod cap r) = take n src ! i"
      using write_copy [OF ok nwn room, of "take n src"] False by (auto simp: n_def)
    let ?r' = "r\<lparr>ring_buf := b, tail := tail r + of_nat n\<rparr>"
    have big: "ring_len r + n < 2 ^ 32" using room ok by (simp add: ring_ok_def)
    have len': "ring_len ?r' = ring_len r + n" by (rule ring_len_write [OF big])
    have "contents ?r' = contents r @ take n src"
    proof (rule nth_equalityI)
      show len: "length (contents ?r') = length (contents r @ take n src)"
        by (simp add: len') (simp add: n_def)
      fix i assume "i < length (contents ?r')"
      then have i: "i < ring_len r + n" by (simp add: len')
      then show "contents ?r' ! i = (contents r @ take n src) ! i"
        using b(3) b(4) [rule_format, of "i - ring_len r"]
        by (cases "i < ring_len r") (simp_all add: contents_nth len' nth_append)
    qed
    moreover have "take (free_space r) src = take n src" by (simp add: n_def min_def)
    moreover have "ring_ok ?r'"
      using ok nwn room b(2) by (auto simp: ring_ok_def len' no_wrap_def)
    moreover have "ring_write src r = (Ok n, ?r')"
    proof -
      have nn: "min (length src) (cap r - ring_len r) = n" by (simp add: n_def free_space_def)
      show ?thesis using False le b(1) by (simp add: ring_write_def used nn Let_def)
    qed
    ultimately show ?thesis by (auto simp: n_def)
  qed
qed

lemma wrap_copy_out_contents:
  assumes ok: "ring_ok r" and n: "n \<le> ring_len r" and c: "0 < cap r"
  shows "wrap_copy_out (cap r) (unat (head r) mod cap r) n (ring_buf r) = Some (take n (contents r))"
proof -
  have "wrap_copy_out (cap r) (unat (head r) mod cap r) n (ring_buf r) =
     Some (map (\<lambda>i. ring_buf r ! ((unat (head r) mod cap r + i) mod cap r)) [0..<n])"
    using ok n c by (intro wrap_copy_out_nth) (auto simp: ring_ok_def)
  then show ?thesis using n by (simp add: contents_def take_map mod_add_left_eq)
qed

text \<open>\<^verbatim>\<open>peek\<close>: the oldest bytes, which stay; \<^verbatim>\<open>read\<close>: the oldest bytes, which go.\<close>

lemma ring_peek_spec:
  assumes "ring_ok r"
  shows "ring_peek k r = (Ok (take k (contents r)), r)"
proof -
  have "take (min k (ring_len r)) (contents r) = take k (contents r)" by (simp add: min_def)
  moreover have "cap r = 0 \<Longrightarrow> contents r = []" using assms by (auto simp: ring_ok_def contents_def)
  ultimately show ?thesis
    using wrap_copy_out_contents [OF assms, of "min k (ring_len r)"]
    by (auto simp: ring_peek_def Let_def ring_len_def [symmetric] min_def contents_def split: if_splits)
qed

lemma contents_read:
  assumes ok: "ring_ok r" and n: "n \<le> ring_len r"
  defines "r' \<equiv> r\<lparr>head := head r + of_nat n\<rparr>"
  shows "contents r' = drop n (contents r) \<and> ring_ok r'"
proof -
  have len': "ring_len r' = ring_len r - n" unfolding r'_def by (rule ring_len_read [OF n])
  have h: "unat (head r') = (unat (head r) + n) mod 2 ^ 32" by (simp add: r'_def unat_add_of_nat)
  have nw: "no_wrap r 0" using ok by (simp add: ring_ok_def)
  have idx: "(unat (head r') + i) mod cap r = (unat (head r) + (n + i)) mod cap r" for i
    using no_wrap_mod [OF nw, of n] n by (simp add: h) (metis add.assoc mod_add_left_eq)
  have "contents r' = drop n (contents r)"
  proof (rule nth_equalityI)
    show "length (contents r') = length (drop n (contents r))" by (simp add: len')
    fix i assume "i < length (contents r')"
    then show "contents r' ! i = drop n (contents r) ! i"
      using idx [of i] n by (simp add: contents_nth len') (simp add: r'_def)
  qed
  moreover have "no_wrap r' 0"
    using nw n unfolding no_wrap_def len' h by (auto simp: r'_def)
  ultimately show ?thesis using ok n by (auto simp: ring_ok_def len') (auto simp: r'_def)
qed

lemma ring_read_spec:
  assumes ok: "ring_ok r"
  shows "\<exists>r'. ring_read k r = (Ok (take k (contents r)), r') \<and> contents r' = drop k (contents r) \<and>
     ring_ok r' \<and> cap r' = cap r \<and> frames_in r' = frames_in r \<and> frames_out r' = frames_out r"
proof -
  define n where "n = min k (ring_len r)"
  have used: "unat (tail r - head r) = ring_len r" by (simp add: ring_len_def)
  have tk: "take k (contents r) = take n (contents r)" "drop k (contents r) = drop n (contents r)"
    by (auto simp: n_def min_def)
  show ?thesis
  proof (cases "cap r = 0 \<or> n = 0")
    case True
    then have "ring_read k r = (Ok [], r)" by (auto simp: ring_read_def used n_def Let_def)
    moreover have "cap r = 0 \<Longrightarrow> contents r = []" using ok by (auto simp: ring_ok_def contents_def)
    ultimately show ?thesis using True ok tk by auto
  next
    case False
    then have "ring_read k r = (Ok (take n (contents r)), r\<lparr>head := head r + of_nat n\<rparr>)"
      using wrap_copy_out_contents [OF ok, of n]
      by (auto simp: ring_read_def used n_def Let_def)
    with contents_read [OF ok, of n] show ?thesis by (auto simp: tk n_def)
  qed
qed

lemma ring_free_spec: "ring_ok r \<Longrightarrow> ring_free r = (Ok (free_space r), r)"
  by (auto simp: ring_free_def ring_ok_def free_space_def)

lemma ring_clear_spec: "ring_ok r \<Longrightarrow> ring_ok (ring_clear r) \<and> contents (ring_clear r) = []"
  by (auto simp: ring_ok_def ring_clear_def contents_def ring_len_def no_wrap_def)

lemma ring_install_spec:
  "length b < 2 ^ 32 \<Longrightarrow> ring_ok (ring_install b r) \<and> contents (ring_install b r) = [] \<and>
     cap (ring_install b r) = length b"
  by (auto simp: ring_ok_def ring_install_def contents_def ring_len_def no_wrap_def)

lemma ring_new_ok: "ring_ok ring_new"
  by (simp add: ring_ok_def ring_new_def ring_len_def no_wrap_def)

subsection \<open>The ring provides the queue contract\<close>

text \<open>
  The invariant of a ring in service: well formed, and not installed yet or of a capacity
  that divides \<open>2 ^ 32\<close> (the firmware and the tests use 512). With it the ring never
  needs a bound on the bytes it has moved.
\<close>

definition ring_inv :: "spsc_ring \<Rightarrow> bool" where
  "ring_inv r \<longleftrightarrow> ring_ok r \<and> (cap r = 0 \<or> cap r dvd 2 ^ 32)"

lemma ring_inv_ok: "ring_inv r \<Longrightarrow> ring_ok r"
  by (simp add: ring_inv_def)

lemma ring_inv_write:
  assumes "ring_inv r"
  shows "\<exists>r'. ring_write src r = (Ok (min (length src) (free_space r)), r') \<and>
     contents r' = contents r @ take (free_space r) src \<and> ring_inv r' \<and> cap r' = cap r"
proof (cases "cap r = 0")
  case True
  then show ?thesis using assms by (auto simp: ring_write_def free_space_def)
next
  case False
  then have "cap r dvd 2 ^ 32" using assms by (simp add: ring_inv_def)
  with ring_write_spec [OF ring_inv_ok [OF assms] no_wrap_dvd] show ?thesis
    by (fastforce simp: ring_inv_def)
qed

lemma ring_inv_read:
  assumes "ring_inv r"
  shows "\<exists>r'. ring_read k r = (Ok (take k (contents r)), r') \<and>
     contents r' = drop k (contents r) \<and> ring_inv r' \<and> cap r' = cap r"
  using ring_read_spec [OF ring_inv_ok [OF assms], of k] assms by (auto simp: ring_inv_def)

interpretation ring: byte_fifo ring_inv contents free_space cap ring_write ring_read ring_peek
proof unfold_locales
  fix r assume inv: "ring_inv r"
  show "free_space r + length (contents r) = cap r"
    using inv by (simp add: ring_inv_def ring_ok_def free_space_def)
  show "ring_peek k r = (Ok (take k (contents r)), r)" for k
    by (rule ring_peek_spec [OF ring_inv_ok [OF inv]])
qed (auto intro: ring_inv_write ring_inv_read)

lemma ring_write_frames:
  "ring_write src r = (x, r') \<Longrightarrow> frames_in r' = frames_in r \<and> frames_out r' = frames_out r"
  by (auto simp: ring_write_def Let_def split: if_splits option.splits)

lemma ring_read_frames:
  "ring_read k r = (x, r') \<Longrightarrow> frames_in r' = frames_in r \<and> frames_out r' = frames_out r"
  by (auto simp: ring_read_def Let_def split: if_splits option.splits)

lemma ring_inv_clear: "ring_inv r \<Longrightarrow> ring_inv (ring_clear r) \<and> contents (ring_clear r) = []"
  using ring_clear_spec [of r] by (auto simp: ring_inv_def ring_clear_def)

lemma ring_inv_install:
  "length b = 0 \<or> length b dvd 2 ^ 32 \<Longrightarrow> length b < 2 ^ 32 \<Longrightarrow> ring_inv (ring_install b r)"
  using ring_install_spec [of b r] by (auto simp: ring_inv_def)

lemma ring_inv_new: "ring_inv ring_new"
  using ring_new_ok by (simp add: ring_inv_def ring_new_def)

text \<open>The frame counters sit beside the bytes.\<close>

lemma frame_counter_contents [simp]:
  "contents (commit_frame r) = contents r" "contents (release_frame r) = contents r"
  "cap (commit_frame r) = cap r" "cap (release_frame r) = cap r"
  "ring_inv (commit_frame r) = ring_inv r" "ring_inv (release_frame r) = ring_inv r"
  "free_space (commit_frame r) = free_space r" "free_space (release_frame r) = free_space r"
  by (simp_all add: contents_def commit_frame_def release_frame_def ring_len_def ring_inv_def
      ring_ok_def no_wrap_def free_space_def)

subsection \<open>Streams\<close>

text \<open>
  A history of producer and consumer calls: which bytes the writes accepted, which bytes
  the reads returned.
\<close>

datatype ring_op = Write bytes | Read nat

fun ring_run :: "ring_op list \<Rightarrow> spsc_ring \<Rightarrow> ((bytes \<times> bytes) \<times> spsc_ring) option" where
  "ring_run [] r = Some (([], []), r)"
| "ring_run (Write xs # ops) r =
     (case ring_write xs r of
        (Ok n, r') \<Rightarrow> map_option (\<lambda>((i, out), r''). ((take n xs @ i, out), r'')) (ring_run ops r')
      | _ \<Rightarrow> None)"
| "ring_run (Read k # ops) r =
     (case ring_read k r of
        (Ok ys, r') \<Rightarrow> map_option (\<lambda>((i, out), r''). ((i, ys @ out), r'')) (ring_run ops r')
      | _ \<Rightarrow> None)"

text \<open>
  C14. Order-preserving, lossless, never failing: after any sequence of calls on a ring in
  service, the bytes read followed by the bytes still stored are the bytes stored at the
  start followed by the bytes the writes accepted.
\<close>

theorem ring_stream_integrity:
  assumes "ring_inv r"
  shows "\<exists>i out r'. ring_run ops r = Some ((i, out), r') \<and> ring_inv r' \<and>
     out @ contents r' = contents r @ i \<and> length (contents r') \<le> cap r"
  using assms
proof (induction ops arbitrary: r)
  case Nil
  then show ?case using ring.room_bound by simp
next
  case (Cons op ops)
  show ?case
  proof (cases op)
    case (Write xs)
    obtain r1 where r1: "ring_write xs r = (Ok (min (length xs) (free_space r)), r1)"
      "contents r1 = contents r @ take (free_space r) xs" "ring_inv r1" "cap r1 = cap r"
      using ring.fifo_write [OF Cons.prems, of xs] by blast
    then show ?thesis using Cons.IH [OF r1(3)] Write by (fastforce simp: min_def)
  next
    case (Read k)
    obtain r1 where r1: "ring_read k r = (Ok (take k (contents r)), r1)"
      "contents r1 = drop k (contents r)" "ring_inv r1" "cap r1 = cap r"
      using ring.fifo_read [OF Cons.prems, of k] by blast
    then show ?thesis using Cons.IH [OF r1(3)] Read by fastforce
  qed
qed

theorem ring_stream_integrity_witness:
  "ring_inv (ring_install (replicate 4 0) ring_new) \<and>
   (\<exists>i out r'. ring_run [Write [1, 2, 3], Read 2, Write [4, 5, 6], Read 9]
        (ring_install (replicate 4 0) ring_new) = Some ((i, out), r') \<and> out @ contents r' = i) \<and>
   map_option fst (ring_run [Write [1, 2, 3], Read 2, Write [4, 5, 6], Read 9]
        (ring_install (replicate 4 0) ring_new)) = Some ([1, 2, 3, 4, 5, 6], [1, 2, 3, 4, 5, 6])"
  (is "?inv \<and> ?stream \<and> ?result")
proof (intro conjI)
  let ?r = "ring_install (replicate 4 0) ring_new"
  show inv: ?inv by (rule ring_inv_install) simp_all
  have "contents ?r = []" by (simp add: contents_def ring_install_def ring_len_def)
  then show ?stream using ring_stream_integrity [OF inv] by fastforce
  show ?result by code_simp
qed

text \<open>A full transfer through an empty ring: the bytes come out as they went in.\<close>

lemma ring_write_read_roundtrip:
  assumes "ring_inv r" "contents r = []" "length xs \<le> free_space r"
  shows "\<exists>r1 r2. ring_write xs r = (Ok (length xs), r1) \<and>
     ring_read (length xs) r1 = (Ok xs, r2) \<and> contents r2 = []"
  using assms by (rule ring.write_read_roundtrip)

subsection \<open>Capacities that do not divide the counter range\<close>

text \<open>
  The counters are described as free-running and wrapping with index \<^verbatim>\<open>counter % cap\<close>. When
  the capacity does not divide \<open>2 ^ 32\<close>, the index jumps as a counter wraps. \<open>spun w\<close> is a
  ring of 5 bytes through which \<open>w\<close> zero bytes have passed, one at a time.
\<close>

definition spun :: "usize \<Rightarrow> spsc_ring" where
  "spun w = \<lparr>ring_buf = replicate 5 0, cap = 5, head = w, tail = w, frames_in = 0, frames_out = 0\<rparr>"

lemma copy_at_replicate: "k < m \<Longrightarrow> copy_at k [x] (replicate m x) = replicate m x"
  by (rule nth_equalityI) (auto simp: nth_copy_at)

lemma spun_step:
  "ring_run (Write [0] # Read 1 # ops) (spun w) =
     map_option (\<lambda>((i, out), r). ((0 # i, 0 # out), r)) (ring_run ops (spun (w + 1)))"
proof -
  have k: "unat w mod 5 < 5" and k': "unat w mod 5 \<le> 4" by simp_all
  have "wrap_copy_in 5 (unat w mod 5) [0] (replicate 5 0) = Some (replicate 5 0)"
    using k' copy_at_replicate [OF k, of 0] by (simp add: wrap_copy_in_def Let_def)
  then have 1: "ring_write [0] (spun w) = (Ok 1, (spun w)\<lparr>tail := w + 1\<rparr>)"
    by (simp add: ring_write_def spun_def Let_def)
  have "wrap_copy_out 5 (unat w mod 5) 1 (replicate 5 0) = Some [0]"
    using k' by (simp add: wrap_copy_out_def Let_def)
  then have 2: "ring_read 1 ((spun w)\<lparr>tail := w + 1\<rparr>) = (Ok [0], spun (w + 1))"
    by (simp add: ring_read_def spun_def Let_def)
  show ?thesis by (simp add: 1 2 option.map_comp comp_def case_prod_unfold del: One_nat_def)
qed

lemma spun_many:
  "ring_run (concat (replicate n [Write [0], Read 1]) @ ops) (spun w) =
     map_option (\<lambda>((i, out), r). ((replicate n 0 @ i, replicate n 0 @ out), r))
       (ring_run ops (spun (w + of_nat n)))"
proof (induction n arbitrary: w)
  case 0
  then show ?case by (simp add: case_prod_unfold option.map_ident)
next
  case (Suc n)
  have "ring_run (concat (replicate (Suc n) [Write [0], Read 1]) @ ops) (spun w) =
    ring_run (Write [0] # Read 1 # (concat (replicate n [Write [0], Read 1]) @ ops)) (spun w)"
    by simp
  then show ?case
    by (simp only: spun_step Suc) (simp add: option.map_comp comp_def case_prod_unfold algebra_simps)
qed

lemma spun_wraps:
  "\<exists>r'. ring_run [Write [1, 2, 3, 4], Read 2, Read 2] (spun (- 2)) = Some (([1, 2, 3, 4], [1, 2, 2, 3]), r')"
  by (simp add: spun_def ring_write_def ring_read_def Let_def wrap_copy_in_def wrap_copy_out_def
      copy_at_def)

text \<open>
  C24. The stream guarantee fails for a capacity that does not divide \<open>2 ^ 32\<close>: there is a
  sequence of calls on a freshly installed ring of 5 bytes, the size the crate's own test
  uses, after which the bytes delivered are not a prefix of the bytes accepted (the last
  four are \<open>1 2 2 3\<close> instead of \<open>1 2 3 4\<close>): the tail counter wrapped.
\<close>

theorem ring_corrupts_on_counter_wrap:
  "\<exists>ops i out r'. ring_run ops (ring_install (replicate 5 0) ring_new) =
       Some ((i @ [1, 2, 3, 4], i @ out), r') \<and> out = [1, 2, 2, 3]"
proof -
  let ?ops = "[Write [1, 2, 3, 4], Read 2, Read 2]"
  have start: "ring_install (replicate 5 0) ring_new = spun 0"
    by (simp add: ring_install_def ring_new_def spun_def)
  have "(of_nat (unat (- 2 :: usize)) :: usize) = - 2" by (simp only: of_nat_unat ucast_id)
  then obtain n where n: "of_nat n = (- 2 :: usize)" by blast
  from spun_wraps obtain r' where
    "ring_run ?ops (spun (0 + of_nat n)) = Some (([1, 2, 3, 4], [1, 2, 2, 3]), r')"
    unfolding n add_0 by blast
  with spun_many [of n ?ops 0] have
    "ring_run (concat (replicate n [Write [0], Read 1]) @ ?ops) (spun 0) =
       Some ((replicate n 0 @ [1, 2, 3, 4], replicate n 0 @ [1, 2, 2, 3]), r')"
    by simp
  then show ?thesis unfolding start by blast
qed

end
