(* ===== verification/Socket_Common.thy ===== *)
theory Socket_Common
  imports Spi_Contract Spsc_Ring
begin

text \<open>
  The vocabulary of the chip's socket registers (\<^verbatim>\<open>wiznet-rs/src/socket_common.rs\<close>) and the
  types that the protocol machines share (\<^verbatim>\<open>wiznet-rs/src/socket.rs\<close>): every accessor is one
  framed command on the transceiver, addressed through the socket's block selectors.
\<close>

subsection \<open>Registers, commands, status\<close>

named_theorems sn_regs \<open>offsets of the socket registers\<close>

definition SN_MR :: u16 where [sn_regs]: "SN_MR = 0x0000"
definition SN_CR :: u16 where [sn_regs]: "SN_CR = 0x0010"
definition SN_IR :: u16 where [sn_regs]: "SN_IR = 0x0020"
definition SN_IMR :: u16 where [sn_regs]: "SN_IMR = 0x0024"
definition SN_IRCLR :: u16 where [sn_regs]: "SN_IRCLR = 0x0028"
definition SN_SR :: u16 where [sn_regs]: "SN_SR = 0x0030"
definition SN_PORTR0 :: u16 where [sn_regs]: "SN_PORTR0 = 0x0114"
definition SN_DIPR0 :: u16 where [sn_regs]: "SN_DIPR0 = 0x0120"
definition SN_DPORTR0 :: u16 where [sn_regs]: "SN_DPORTR0 = 0x0140"
definition SN_TX_FSR0 :: u16 where [sn_regs]: "SN_TX_FSR0 = 0x0204"
definition SN_TX_WR0 :: u16 where [sn_regs]: "SN_TX_WR0 = 0x020C"
definition SN_RX_RSR0 :: u16 where [sn_regs]: "SN_RX_RSR0 = 0x0224"
definition SN_RX_RD0 :: u16 where [sn_regs]: "SN_RX_RD0 = 0x0228"

text \<open>\<^verbatim>\<open>SocketInterrupt\<close> is a set of flags in a byte.\<close>

type_synonym socket_interrupt = u8

definition SENDOK :: socket_interrupt where "SENDOK = push_bit 4 1"
definition TIMEOUT :: socket_interrupt where "TIMEOUT = push_bit 3 1"
definition RECV :: socket_interrupt where "RECV = push_bit 2 1"
definition DISCON :: socket_interrupt where "DISCON = push_bit 1 1"
definition CON :: socket_interrupt where "CON = push_bit 0 1"

lemmas interrupt_bits = SENDOK_def TIMEOUT_def RECV_def DISCON_def CON_def

definition from_bits_truncate :: "u8 \<Rightarrow> socket_interrupt" where
  "from_bits_truncate b = b AND (SENDOK OR TIMEOUT OR RECV OR DISCON OR CON)"

definition contains :: "socket_interrupt \<Rightarrow> socket_interrupt \<Rightarrow> bool" where
  "contains s f \<longleftrightarrow> s AND f = f"

datatype socket_command =
    CmdNone | Open | Listen | Connect | Connect6 | Disconnect | Close | Send | Send6 | SendKeep | Receive

fun command_code :: "socket_command \<Rightarrow> u8" where
  "command_code CmdNone = 0"
| "command_code Open = 0x01"
| "command_code Listen = 0x02"
| "command_code Connect = 0x04"
| "command_code Connect6 = 0x84"
| "command_code Disconnect = 0x08"
| "command_code Close = 0x10"
| "command_code Send = 0x20"
| "command_code Send6 = 0xA0"
| "command_code SendKeep = 0x22"
| "command_code Receive = 0x40"

datatype socket_status_register =
    SrClosed | SrInit | SrListen | SrEstablished | SrCloseWait | SrUdp | SrIpraw | SrIpraw6
  | SrMacraw | SrSynsent | SrSynrecv | SrFinWait | SrTimeWait | SrLastAck | SrUnknown

fun status_code :: "socket_status_register \<Rightarrow> u8" where
  "status_code SrClosed = 0x00"
| "status_code SrInit = 0x13"
| "status_code SrListen = 0x14"
| "status_code SrEstablished = 0x17"
| "status_code SrCloseWait = 0x1C"
| "status_code SrUdp = 0x22"
| "status_code SrIpraw = 0x32"
| "status_code SrIpraw6 = 0x33"
| "status_code SrMacraw = 0x42"
| "status_code SrSynsent = 0x15"
| "status_code SrSynrecv = 0x16"
| "status_code SrFinWait = 0x18"
| "status_code SrTimeWait = 0x1B"
| "status_code SrLastAck = 0x1D"
| "status_code SrUnknown = 0xFF"

text \<open>The \<^verbatim>\<open>match\<close> of \<^verbatim>\<open>read_status\<close>.\<close>

definition decode_status :: "u8 \<Rightarrow> socket_status_register" where
  "decode_status v =
     (if v = 0x00 then SrClosed
      else if v = 0x13 then SrInit
      else if v = 0x14 then SrListen
      else if v = 0x17 then SrEstablished
      else if v = 0x1C then SrCloseWait
      else if v = 0x22 then SrUdp
      else if v = 0x32 then SrIpraw
      else if v = 0x33 then SrIpraw6
      else if v = 0x42 then SrMacraw
      else if v = 0x15 then SrSynsent
      else if v = 0x16 then SrSynrecv
      else if v = 0x18 then SrFinWait
      else if v = 0x1B then SrTimeWait
      else if v = 0x1D then SrLastAck
      else SrUnknown)"

text \<open>
  C23. Decoding the status byte is faithful: every status decodes from its own code, and any
  byte that is decoded to a known status is that status's code (the codes do not collide).
\<close>

theorem decode_status_roundtrip:
  "decode_status (status_code s) = s \<and>
   (decode_status v = s \<longrightarrow> s = SrUnknown \<or> v = status_code s)"
  by (cases s) (simp_all add: decode_status_def)

theorem decode_status_roundtrip_witness:
  "decode_status (status_code SrSynrecv) = SrSynrecv \<and> (SrSynrecv = SrUnknown \<or> 0x16 = status_code SrSynrecv)"
proof -
  have "decode_status 0x16 = SrSynrecv" by (simp add: decode_status_def)
  with decode_status_roundtrip [of SrSynrecv "0x16"] show ?thesis by simp
qed

subsection \<open>Types shared by the protocol machines\<close>

text \<open>\<^verbatim>\<open>SocketProtocolMode\<close>.\<close>

definition MODE_CLOSED :: u8 where "MODE_CLOSED = 0"
definition MODE_TCP4 :: u8 where "MODE_TCP4 = 1"
definition MODE_UDP4 :: u8 where "MODE_UDP4 = 2"

datatype socket_status =
    StInit | Opening | Connecting | Established | Listening
  | ClosingDueToError | ClosingDueToTimeout | Closing | StTimeout | StError | Closed

datatype bulk_kind = BulkReceive | BulkReceiveDatagram u32 u16 | BulkTransmit

text \<open>What a tick did with the bus: nothing asynchronous, or a bulk transfer from \<open>pointer\<close> of \<open>len\<close> bytes.\<close>

datatype bulk_action = ActNone | Started bulk_kind u16 nat

record socket_rings =
  rx :: spsc_ring
  tx :: spsc_ring

definition rings_new :: socket_rings where
  "rings_new = \<lparr>rx = ring_new, tx = ring_new\<rparr>"

definition rings_install :: "bytes \<Rightarrow> bytes \<Rightarrow> socket_rings \<Rightarrow> socket_rings" where
  "rings_install rxb txb r = r\<lparr>rx := ring_install rxb (rx r), tx := ring_install txb (tx r)\<rparr>"

definition rings_clear :: "socket_rings \<Rightarrow> socket_rings" where
  "rings_clear r = r\<lparr>rx := ring_clear (rx r), tx := ring_clear (tx r)\<rparr>"

definition rings_inv :: "socket_rings \<Rightarrow> bool" where
  "rings_inv r \<longleftrightarrow> ring_inv (rx r) \<and> ring_inv (tx r)"

subsection \<open>Register accessors\<close>

definition sn_addr :: "block_address \<Rightarrow> u16 \<Rightarrow> address" where
  "sn_addr blk a = \<lparr>addr = a, block = reg blk\<rparr>"

named_theorems bus_ops \<open>the register accessors\<close>

definition init_socket ::
  "('d, 't) spi_dma_device \<Rightarrow> block_address \<Rightarrow> u8 \<Rightarrow> (('d, 't) transceiver, unit) sm" where
  [bus_ops]: "init_socket D blk mode =
     bnd (write_u8 D (sn_addr blk SN_MR) mode) (\<lambda>_.
     bnd (write_u8 D (sn_addr blk SN_IRCLR) 0xFF) (\<lambda>_.
     write_u8 D (sn_addr blk SN_IMR) (CON OR DISCON OR RECV OR TIMEOUT)))"

definition get_interrupts ::
  "('d, 't) spi_dma_device \<Rightarrow> block_address \<Rightarrow> (('d, 't) transceiver, socket_interrupt) sm" where
  [bus_ops]: "get_interrupts D blk = bnd (read_u8 D (sn_addr blk SN_IR)) (\<lambda>ir. ret (from_bits_truncate ir))"

definition clear_interrupts ::
  "('d, 't) spi_dma_device \<Rightarrow> block_address \<Rightarrow> socket_interrupt \<Rightarrow> (('d, 't) transceiver, unit) sm" where
  [bus_ops]: "clear_interrupts D blk flags = write_u8 D (sn_addr blk SN_IRCLR) flags"

definition set_src_port ::
  "('d, 't) spi_dma_device \<Rightarrow> block_address \<Rightarrow> u16 \<Rightarrow> (('d, 't) transceiver, unit) sm" where
  [bus_ops]: "set_src_port D blk port = write_u16 D (sn_addr blk SN_PORTR0) port"

definition set_dst_port ::
  "('d, 't) spi_dma_device \<Rightarrow> block_address \<Rightarrow> u16 \<Rightarrow> (('d, 't) transceiver, unit) sm" where
  [bus_ops]: "set_dst_port D blk port = write_u16 D (sn_addr blk SN_DPORTR0) port"

definition set_ipv4_dst_addr ::
  "('d, 't) spi_dma_device \<Rightarrow> block_address \<Rightarrow> u32 \<Rightarrow> (('d, 't) transceiver, unit) sm" where
  [bus_ops]: "set_ipv4_dst_addr D blk ip = write_u32 D (sn_addr blk SN_DIPR0) ip"

definition send_sock_command ::
  "('d, 't) spi_dma_device \<Rightarrow> block_address \<Rightarrow> socket_command \<Rightarrow> (('d, 't) transceiver, unit) sm" where
  [bus_ops]: "send_sock_command D blk c = write_u8 D (sn_addr blk SN_CR) (command_code c)"

definition get_rx_received_size ::
  "('d, 't) spi_dma_device \<Rightarrow> block_address \<Rightarrow> (('d, 't) transceiver, u16) sm" where
  [bus_ops]: "get_rx_received_size D blk = read_u16 D (sn_addr blk SN_RX_RSR0)"

definition get_rx_read_pointer ::
  "('d, 't) spi_dma_device \<Rightarrow> block_address \<Rightarrow> (('d, 't) transceiver, u16) sm" where
  [bus_ops]: "get_rx_read_pointer D blk = read_u16 D (sn_addr blk SN_RX_RD0)"

definition set_rx_read_pointer ::
  "('d, 't) spi_dma_device \<Rightarrow> block_address \<Rightarrow> u16 \<Rightarrow> (('d, 't) transceiver, unit) sm" where
  [bus_ops]: "set_rx_read_pointer D blk p = write_u16 D (sn_addr blk SN_RX_RD0) p"

definition read_rx_buffer ::
  "('d, 't) spi_dma_device \<Rightarrow> block_address \<Rightarrow> u16 \<Rightarrow> bytes \<Rightarrow> (('d, 't) transceiver, bytes) sm" where
  [bus_ops]: "read_rx_buffer D blk p data = spi_read D \<lparr>addr = p, block = rx_block blk\<rparr> data"

definition start_read_rx_buffer ::
  "('d, 't) spi_dma_device \<Rightarrow> block_address \<Rightarrow> u16 \<Rightarrow> nat \<Rightarrow> (('d, 't) transceiver, unit) sm" where
  "start_read_rx_buffer D blk p len = start_read D \<lparr>addr = p, block = rx_block blk\<rparr> len"

definition get_tx_free_size ::
  "('d, 't) spi_dma_device \<Rightarrow> block_address \<Rightarrow> (('d, 't) transceiver, u16) sm" where
  [bus_ops]: "get_tx_free_size D blk = read_u16 D (sn_addr blk SN_TX_FSR0)"

definition get_tx_write_pointer ::
  "('d, 't) spi_dma_device \<Rightarrow> block_address \<Rightarrow> (('d, 't) transceiver, u16) sm" where
  [bus_ops]: "get_tx_write_pointer D blk = read_u16 D (sn_addr blk SN_TX_WR0)"

definition set_tx_write_pointer ::
  "('d, 't) spi_dma_device \<Rightarrow> block_address \<Rightarrow> u16 \<Rightarrow> (('d, 't) transceiver, unit) sm" where
  [bus_ops]: "set_tx_write_pointer D blk p = write_u16 D (sn_addr blk SN_TX_WR0) p"

definition write_tx_buffer ::
  "('d, 't) spi_dma_device \<Rightarrow> block_address \<Rightarrow> u16 \<Rightarrow> bytes \<Rightarrow> (('d, 't) transceiver, unit) sm" where
  [bus_ops]: "write_tx_buffer D blk p data = spi_write D \<lparr>addr = p, block = tx_block blk\<rparr> data"

definition start_write_tx_buffer ::
  "('d, 't) spi_dma_device \<Rightarrow> block_address \<Rightarrow> u16 \<Rightarrow> nat \<Rightarrow> (bytes \<Rightarrow> ('r, bytes) sm) \<Rightarrow>
     (('d, 't) transceiver \<times> 'r, unit) sm" where
  "start_write_tx_buffer D blk p len fill = start_write D \<lparr>addr = p, block = tx_block blk\<rparr> len fill"

definition is_command_pending ::
  "('d, 't) spi_dma_device \<Rightarrow> block_address \<Rightarrow> (('d, 't) transceiver, bool) sm" where
  [bus_ops]: "is_command_pending D blk = bnd (read_u8 D (sn_addr blk SN_CR)) (\<lambda>v. ret (v \<noteq> 0))"

definition read_status ::
  "('d, 't) spi_dma_device \<Rightarrow> block_address \<Rightarrow> (('d, 't) transceiver, socket_status_register) sm" where
  [bus_ops]: "read_status D blk = bnd (read_u8 D (sn_addr blk SN_SR)) (\<lambda>v. ret (decode_status v))"

text \<open>
  Every accessor keeps an idle transceiver idle, never panics and never blocks: the fact the
  protocol machines are proved from.
\<close>

context spi_contract
begin

lemma accessors_safe [simp]:
  "bus_safe L (init_socket D blk mode)"
  "bus_safe L (get_interrupts D blk)"
  "bus_safe L (clear_interrupts D blk flags)"
  "bus_safe L (set_src_port D blk port)"
  "bus_safe L (set_dst_port D blk port)"
  "bus_safe L (set_ipv4_dst_addr D blk ip)"
  "bus_safe L (send_sock_command D blk c)"
  "bus_safe L (get_rx_received_size D blk)"
  "bus_safe L (get_rx_read_pointer D blk)"
  "bus_safe L (set_rx_read_pointer D blk p)"
  "bus_safe L (read_rx_buffer D blk p data)"
  "bus_safe L (get_tx_free_size D blk)"
  "bus_safe L (get_tx_write_pointer D blk)"
  "bus_safe L (set_tx_write_pointer D blk p)"
  "bus_safe L (write_tx_buffer D blk p data)"
  "bus_safe L (is_command_pending D blk)"
  "bus_safe L (read_status D blk)"
  by (simp_all add: bus_ops bus_safe_bnd bus_safe_ret bus_safe_spi_read bus_safe_spi_write)

end

subsection \<open>The context of a tick\<close>

text \<open>
  A protocol handler runs on its own state (\<open>proto\<close>), the transceiver and the socket's
  rings: \<^verbatim>\<open>&mut self\<close>, \<^verbatim>\<open>&Transceiver\<close> and \<^verbatim>\<open>&SocketRings\<close> of the source's signatures.
\<close>

record ('d, 't, 'p) ctx =
  trans :: "('d, 't) transceiver"
  rings :: socket_rings
  proto :: 'p

definition tr :: "(('d, 't) transceiver, 'a) sm \<Rightarrow> (('d, 't, 'p) ctx, 'a) sm" where
  "tr = zoom trans (\<lambda>t c. c\<lparr>trans := t\<rparr>)"

definition on_rx :: "(spsc_ring, 'a) sm \<Rightarrow> (('d, 't, 'p) ctx, 'a) sm" where
  "on_rx = zoom (\<lambda>c. rx (rings c)) (\<lambda>r c. c\<lparr>rings := (rings c)\<lparr>rx := r\<rparr>\<rparr>)"

definition on_tx :: "(spsc_ring, 'a) sm \<Rightarrow> (('d, 't, 'p) ctx, 'a) sm" where
  "on_tx = zoom (\<lambda>c. tx (rings c)) (\<lambda>r c. c\<lparr>rings := (rings c)\<lparr>tx := r\<rparr>\<rparr>)"

definition upd_proto :: "('p \<Rightarrow> 'p) \<Rightarrow> (('d, 't, 'p) ctx, unit) sm" where
  "upd_proto f = modify (\<lambda>c. c\<lparr>proto := f (proto c)\<rparr>)"

text \<open>
  The closure \<^verbatim>\<open>|buf| { rings.tx.read(buf); }\<close>: what the ring yields overwrites the front of
  the window.
\<close>

definition drain_tx :: "bytes \<Rightarrow> (spsc_ring, bytes) sm" where
  "drain_tx w = bnd (ring_read (length w)) (\<lambda>ys. ret (copy_at 0 ys w))"

definition start_tx_from_ring ::
  "('d, 't) spi_dma_device \<Rightarrow> block_address \<Rightarrow> u16 \<Rightarrow> nat \<Rightarrow> (('d, 't, 'p) ctx, unit) sm" where
  "start_tx_from_ring D blk p len =
     zoom (\<lambda>c. (trans c, tx (rings c))) (\<lambda>(t, r) c. c\<lparr>trans := t, rings := (rings c)\<lparr>tx := r\<rparr>\<rparr>)
       (start_write_tx_buffer D blk p len drain_tx)"

subsection \<open>Rules for the verification of handlers\<close>

lemma wp_ring_free: "ring_inv (rx (rings c)) \<Longrightarrow>
    wp (on_rx ring_free) Q c = Q (Ok (free_space (rx (rings c)))) c"
  by (simp add: wp_def on_rx_def zoom_def ring_free_spec ring_inv_ok)

lemma wp_on_tx: "wp (on_tx m) Q c = wp m (\<lambda>r q. Q r (c\<lparr>rings := (rings c)\<lparr>tx := q\<rparr>\<rparr>)) (tx (rings c))"
  by (simp add: on_tx_def wp_zoom)

lemma wp_on_rx: "wp (on_rx m) Q c = wp m (\<lambda>r q. Q r (c\<lparr>rings := (rings c)\<lparr>rx := q\<rparr>\<rparr>)) (rx (rings c))"
  by (simp add: on_rx_def wp_zoom)

context spi_contract
begin

lemma wp_tr:
  assumes "bus_safe L m" "idle L (trans c)"
    and "\<And>t x. idle L t \<Longrightarrow> Q (Ok x) (c\<lparr>trans := t\<rparr>)"
    and "\<And>t e. idle L t \<Longrightarrow> Q (Err (Other e)) (c\<lparr>trans := t\<rparr>)"
  shows "wp (tr m) Q c"
proof -
  obtain r t where m: "m (trans c) = (r, t)" by (cases "m (trans c)") auto
  have "idle L t" "r \<noteq> Panic" "r \<noteq> Err WouldBlock" using assms(1,2) m by (auto simp: bus_safe_def)
  with assms(3,4) m show ?thesis
    by (cases r) (auto simp: wp_def tr_def zoom_def intro: error.exhaust)
qed

lemma wp_start_read:
  assumes "idle L (trans c)"
    and "\<And>t. in_flight D L t \<Longrightarrow> HEADER + n \<le> L \<Longrightarrow> Q (Ok ()) (c\<lparr>trans := t\<rparr>)"
    and "\<And>t e. idle L t \<Longrightarrow> Q (Err (Other e)) (c\<lparr>trans := t\<rparr>)"
  shows "wp (tr (start_read_rx_buffer D blk p n)) Q c"
proof -
  obtain r t where m: "start_read D \<lparr>addr = p, block = rx_block blk\<rparr> n (trans c) = (r, t)"
    by (cases "start_read D \<lparr>addr = p, block = rx_block blk\<rparr> n (trans c)") auto
  from start_read_idle [OF assms(1) m] assms(2,3) show ?thesis
    by (auto simp: wp_def tr_def zoom_def start_read_rx_buffer_def m)
qed

text \<open>A window longer than what the ring holds keeps its stale tail; the ring is drained either way.\<close>

lemma drain_tx_spec:
  assumes "ring_inv r" "length w = n"
  shows "\<exists>p r'. drain_tx w r = (Ok p, r') \<and> length p = n \<and> (n \<le> ring_len r \<longrightarrow> p = take n (contents r)) \<and>
    contents r' = drop n (contents r) \<and>
    ring_inv r' \<and> cap r' = cap r \<and> frames_in r' = frames_in r \<and> frames_out r' = frames_out r"
proof -
  obtain r' where r': "ring_read n r = (Ok (take n (contents r)), r')"
    "contents r' = drop n (contents r)" "ring_inv r'" "cap r' = cap r"
    using ring.fifo_read [OF assms(1)] by blast
  let ?p = "copy_at 0 (take n (contents r)) w"
  have "length ?p = n" "n \<le> ring_len r \<longrightarrow> ?p = take n (contents r)"
    using assms(2) by (simp_all add: copy_at_def)
  then show ?thesis
    using ring_read_frames [OF r'(1)] r' assms(2)
    by (intro exI [of _ ?p] exI [of _ r']) (simp add: drain_tx_def bnd_def ret_def)
qed

lemma wp_start_tx:
  assumes "idle L (trans c)" "ring_inv (tx (rings c))"
    and "\<And>t r. in_flight D L t \<Longrightarrow> HEADER + n \<le> L \<Longrightarrow> contents r = drop n (contents (tx (rings c))) \<Longrightarrow>
       ring_inv r \<Longrightarrow> cap r = cap (tx (rings c)) \<Longrightarrow> ring_frames r = ring_frames (tx (rings c)) \<Longrightarrow>
       Q (Ok ()) (c\<lparr>trans := t, rings := (rings c)\<lparr>tx := r\<rparr>\<rparr>)"
    and "\<And>t r e k. idle L t \<Longrightarrow> k \<in> {0, n} \<Longrightarrow> contents r = drop k (contents (tx (rings c))) \<Longrightarrow>
       ring_inv r \<Longrightarrow> cap r = cap (tx (rings c)) \<Longrightarrow> ring_frames r = ring_frames (tx (rings c)) \<Longrightarrow>
       Q (Err (Other e)) (c\<lparr>trans := t, rings := (rings c)\<lparr>tx := r\<rparr>\<rparr>)"
  shows "wp (start_tx_from_ring D blk p n) Q c"
proof -
  let ?a = "\<lparr>addr = p, block = tx_block blk\<rparr>" and ?q = "tx (rings c)"
  define P where "P = (\<lambda>k r. contents r = drop k (contents ?q) \<and> ring_inv r \<and> cap r = cap ?q \<and>
     ring_frames r = ring_frames ?q)"
  obtain r t q where m: "start_write D ?a n drain_tx (trans c, ?q) = (r, (t, q))"
    by (cases "start_write D ?a n drain_tx (trans c, ?q)") auto
  have fill: "\<exists>p q1. drain_tx w ?q = (Ok p, q1) \<and> length p = n \<and> P n q1" if "length w = n" for w
    using drain_tx_spec [OF assms(2) that] by (auto simp: P_def ring_frames_def)
  have P0: "P 0 ?q" by (simp add: P_def assms(2))
  have "((r = Ok () \<and> in_flight D L t \<and> HEADER + n \<le> L \<and> P n q) \<or>
         (r = Err (Other SpiError) \<and> idle L t \<and> P n q) \<or>
         (r = Err (Other ScratchBufferOverrun) \<and> idle L t \<and> P 0 q))"
    using start_write_idle [OF assms(1) m fill] P0 by blast
  with assms(3) assms(4) [where k = 0] assms(4) [where k = n] show ?thesis
    by (auto simp: wp_def start_tx_from_ring_def zoom_def start_write_tx_buffer_def m P_def)
qed

end

subsection \<open>The contract of a protocol machine\<close>

text \<open>
  What the layers above a tick rely on. When nothing was started the bus is idle; when a bulk
  transfer was started it is in flight, fits the scratch buffer, and what it will deliver
  fits the receive ring (a datagram brings an 8-byte frame header along).
\<close>

fun bulk_need :: "bulk_kind \<Rightarrow> nat \<Rightarrow> nat" where
  "bulk_need BulkReceive n = n"
| "bulk_need (BulkReceiveDatagram _ _) n = 8 + n"
| "bulk_need BulkTransmit n = 0"

definition bulk_ok :: "('d, 't) spi_dma_device \<Rightarrow> nat \<Rightarrow> bulk_action \<Rightarrow> ('d, 't, 'p) ctx \<Rightarrow> bool" where
  "bulk_ok D L a c = (case a of
     ActNone \<Rightarrow> idle L (trans c)
   | Started k p n \<Rightarrow> in_flight D L (trans c) \<and> 0 < n \<and> HEADER + n \<le> L \<and>
       bulk_need k n \<le> free_space (rx (rings c)))"

definition tick_ok ::
  "('d, 't) spi_dma_device \<Rightarrow> nat \<Rightarrow> ('d, 't, 'p) ctx \<Rightarrow> bulk_action res \<Rightarrow> ('d, 't, 'p) ctx \<Rightarrow> bool" where
  "tick_ok D L c r c' \<longleftrightarrow> rings_inv (rings c') \<and>
     cap (rx (rings c')) = cap (rx (rings c)) \<and> cap (tx (rings c')) = cap (tx (rings c)) \<and>
     (case r of
        Ok a \<Rightarrow> bulk_ok D L a c'
      | Err e \<Rightarrow> idle L (trans c') \<and> e \<noteq> WouldBlock
      | Panic \<Rightarrow> False)"

locale socket_machine =
  fixes D :: "('d, 't) spi_dma_device"
    and run :: "block_address \<Rightarrow> (('d, 't, 'p) ctx, bulk_action) sm"
    and closed :: "'p \<Rightarrow> bool"
  assumes tick: "idle L (trans c) \<Longrightarrow> rings_inv (rings c) \<Longrightarrow> run blk c = (r, c') \<Longrightarrow>
    tick_ok D L c r c' \<and> (\<exists>a. r = Ok a)"
    and started_open: "idle L (trans c) \<Longrightarrow> rings_inv (rings c) \<Longrightarrow>
    run blk c = (Ok (Started k p n), c') \<Longrightarrow> \<not> closed (proto c')"
begin

lemma tick_cases:
  assumes "idle L (trans c)" "rings_inv (rings c)"
  obtains (quiet) c' where "run blk c = (Ok ActNone, c')" "idle L (trans c')" "rings_inv (rings c')"
      "cap (rx (rings c')) = cap (rx (rings c))" "cap (tx (rings c')) = cap (tx (rings c))"
  | (started) k p n c' where "run blk c = (Ok (Started k p n), c')" "in_flight D L (trans c')"
      "rings_inv (rings c')" "cap (rx (rings c')) = cap (rx (rings c))" "cap (tx (rings c')) = cap (tx (rings c))"
      "0 < n" "HEADER + n \<le> L" "bulk_need k n \<le> free_space (rx (rings c'))" "\<not> closed (proto c')"
proof -
  obtain r c' where r: "run blk c = (r, c')" by (cases "run blk c") auto
  from tick [OF assms r] obtain a where a: "r = Ok a" "tick_ok D L c r c'" by blast
  show ?thesis
    by (cases a) (use a r quiet started started_open [OF assms] in \<open>auto simp: tick_ok_def bulk_ok_def\<close>)
qed

end

end
