(* ===== verification/Tcp_Socket.thy ===== *)
theory Tcp_Socket
  imports Socket_Common "HOL-Library.Sublist"
begin

text \<open>
  The TCP protocol machine of \<^verbatim>\<open>wiznet-rs/src/tcp_socket.rs\<close>: its state, one definition per
  handler, and the tick that dispatches on the status. The user handle's data path is the
  socket's rings; its control operations are here as far as they act on the machine.
\<close>

subsection \<open>State\<close>

datatype tcp_mode = ModeConnect u32 u16 u16 | ModeListen u16

record tcp_socket_state =
  tcp_mode :: tcp_mode
  tcp_status :: socket_status
  tcp_pending_error :: "error option"
  tcp_close_requested :: bool

definition tcp_connect :: "u32 \<Rightarrow> u16 \<Rightarrow> u16 \<Rightarrow> tcp_socket_state" where
  "tcp_connect a port src_port =
     \<lparr>tcp_mode = ModeConnect a port src_port, tcp_status = StInit,
      tcp_pending_error = None, tcp_close_requested = False\<rparr>"

definition tcp_listen :: "u16 \<Rightarrow> tcp_socket_state" where
  "tcp_listen port =
     \<lparr>tcp_mode = ModeListen port, tcp_status = StInit,
      tcp_pending_error = None, tcp_close_requested = False\<rparr>"

text \<open>The status a handle reports: a stored error wins over the machine's status.\<close>

definition tcp_reported_status :: "tcp_socket_state \<Rightarrow> socket_status" where
  "tcp_reported_status s = (if tcp_pending_error s \<noteq> None then StError else tcp_status s)"

definition tcp_rearm :: "tcp_socket_state \<Rightarrow> tcp_socket_state" where
  "tcp_rearm s = s\<lparr>tcp_status := StInit, tcp_pending_error := None, tcp_close_requested := False\<rparr>"

definition tcp_request_close :: "tcp_socket_state \<Rightarrow> tcp_socket_state" where
  "tcp_request_close s = s\<lparr>tcp_close_requested := True\<rparr>"

definition tcp_is_closed :: "tcp_socket_state \<Rightarrow> bool" where
  "tcp_is_closed s \<longleftrightarrow> tcp_status s \<in> {Closed, StError, StTimeout}"

type_synonym ('d, 't) tcp_ctx = "('d, 't, tcp_socket_state) ctx"

definition set_tcp_status :: "socket_status \<Rightarrow> (('d, 't) tcp_ctx, unit) sm" where
  "set_tcp_status st = upd_proto (\<lambda>s. s\<lparr>tcp_status := st\<rparr>)"

subsection \<open>Closing\<close>

text \<open>
  The loop of \<^verbatim>\<open>flush_sync\<close>: at most 64 bytes at a time from the ring to the chip, until
  \<open>to_send\<close> bytes are staged or the ring is empty; the result is the advanced pointer.
\<close>

function tcp_flush_loop ::
  "('d, 't) spi_dma_device \<Rightarrow> block_address \<Rightarrow> nat \<Rightarrow> nat \<Rightarrow> u16 \<Rightarrow> (('d, 't) tcp_ctx, u16) sm" where
  "tcp_flush_loop D blk to_send staged pointer c =
     (if staged < to_send then
        (case on_tx (ring_read (min 64 (to_send - staged))) c of
           (Ok ys, c1) \<Rightarrow>
             if ys = [] then (Ok pointer, c1)
             else
               (case tr (write_tx_buffer D blk pointer ys) c1 of
                  (Ok _, c2) \<Rightarrow>
                    tcp_flush_loop D blk to_send (staged + length ys) (pointer + of_nat (length ys)) c2
                | (Err e, c2) \<Rightarrow> (Err e, c2)
                | (Panic, c2) \<Rightarrow> (Panic, c2))
         | (Err e, c1) \<Rightarrow> (Err e, c1)
         | (Panic, c1) \<Rightarrow> (Panic, c1))
      else (Ok pointer, c))"
  by pat_completeness auto
termination
  by (relation "measure (\<lambda>(D, blk, to_send, staged, pointer, c). to_send - staged)")
    (auto simp: length_greater_0_conv [symmetric] simp del: length_greater_0_conv)

declare tcp_flush_loop.simps [simp del]

definition tcp_flush_sync ::
  "('d, 't) spi_dma_device \<Rightarrow> block_address \<Rightarrow> (('d, 't) tcp_ctx, unit) sm" where
  "tcp_flush_sync D blk =
     bnd (gets (\<lambda>c. ring_len (tx (rings c)))) (\<lambda>pending.
     if pending = 0 then ret ()
     else bnd (tr (get_tx_free_size D blk)) (\<lambda>free.
     let to_send = min pending (unat free)
     in if to_send = 0 then ret ()
     else bnd (tr (get_tx_write_pointer D blk)) (\<lambda>pointer.
     bnd (tcp_flush_loop D blk to_send 0 pointer) (\<lambda>end.
     bnd (tr (set_tx_write_pointer D blk end)) (\<lambda>_.
     tr (send_sock_command D blk Send))))))"

definition tcp_handle_close ::
  "('d, 't) spi_dma_device \<Rightarrow> block_address \<Rightarrow> (('d, 't) tcp_ctx, unit) sm" where
  "tcp_handle_close D blk =
     bnd (upd_proto (\<lambda>s. s\<lparr>tcp_close_requested := False\<rparr>)) (\<lambda>_.
     bnd (gets (\<lambda>c. tcp_status (proto c))) (\<lambda>st.
     if st \<in> {Closed, StError, StTimeout, ClosingDueToError, ClosingDueToTimeout, Closing} then ret ()
     else if st = Established then
       bnd (tcp_flush_sync D blk) (\<lambda>_.
       bnd (tr (send_sock_command D blk Disconnect)) (\<lambda>_.
       set_tcp_status Closing))
     else
       bnd (tr (send_sock_command D blk Close)) (\<lambda>_.
       set_tcp_status Closing)))"

definition tcp_handle_closing ::
  "('d, 't) spi_dma_device \<Rightarrow> block_address \<Rightarrow> (('d, 't) tcp_ctx, unit) sm" where
  "tcp_handle_closing D blk =
     bnd (tr (read_status D blk)) (\<lambda>sr.
     if sr = SrClosed then
       bnd (gets (\<lambda>c. tcp_status (proto c))) (\<lambda>st.
       case st of
         ClosingDueToError \<Rightarrow> set_tcp_status StError
       | ClosingDueToTimeout \<Rightarrow> set_tcp_status StTimeout
       | Closing \<Rightarrow> set_tcp_status Closed
       | _ \<Rightarrow> panic)
     else ret ())"

subsection \<open>Opening\<close>

fun tcp_src_port :: "tcp_mode \<Rightarrow> u16" where
  "tcp_src_port (ModeConnect _ _ src_port) = src_port"
| "tcp_src_port (ModeListen src_port) = src_port"

definition tcp_handle_init ::
  "('d, 't) spi_dma_device \<Rightarrow> block_address \<Rightarrow> (('d, 't) tcp_ctx, unit) sm" where
  "tcp_handle_init D blk =
     bnd (tr (init_socket D blk MODE_TCP4)) (\<lambda>_.
     bnd (gets (\<lambda>c. tcp_src_port (tcp_mode (proto c)))) (\<lambda>src_port.
     bnd (tr (set_src_port D blk src_port)) (\<lambda>_.
     bnd (tr (send_sock_command D blk Open)) (\<lambda>_.
     set_tcp_status Opening))))"

text \<open>The error exit three handlers share: \<^verbatim>\<open>CLOSE\<close>, remember why, report.\<close>

definition tcp_unexpected ::
  "('d, 't) spi_dma_device \<Rightarrow> block_address \<Rightarrow> (('d, 't) tcp_ctx, 'a) sm" where
  "tcp_unexpected D blk =
     bnd (tr (send_sock_command D blk Close)) (\<lambda>_.
     bnd (set_tcp_status ClosingDueToError) (\<lambda>_.
     raise (Other UnexpectedResponse)))"

definition tcp_handle_opening ::
  "('d, 't) spi_dma_device \<Rightarrow> block_address \<Rightarrow> (('d, 't) tcp_ctx, unit) sm" where
  "tcp_handle_opening D blk =
     bnd (tr (is_command_pending D blk)) (\<lambda>pending.
     if pending then ret ()
     else bnd (tr (read_status D blk)) (\<lambda>sr.
     case sr of
       SrInit \<Rightarrow>
         bnd (gets (\<lambda>c. tcp_mode (proto c))) (\<lambda>mode.
         case mode of
           ModeConnect dst_addr dst_port _ \<Rightarrow>
             bnd (tr (set_ipv4_dst_addr D blk dst_addr)) (\<lambda>_.
             bnd (tr (set_dst_port D blk dst_port)) (\<lambda>_.
             bnd (tr (send_sock_command D blk Connect)) (\<lambda>_.
             set_tcp_status Connecting)))
         | ModeListen _ \<Rightarrow>
             bnd (tr (send_sock_command D blk Listen)) (\<lambda>_.
             set_tcp_status Listening))
     | SrClosed \<Rightarrow> ret ()
     | _ \<Rightarrow> tcp_unexpected D blk))"

definition tcp_handle_connecting ::
  "('d, 't) spi_dma_device \<Rightarrow> block_address \<Rightarrow> (('d, 't) tcp_ctx, unit) sm" where
  "tcp_handle_connecting D blk =
     bnd (tr (is_command_pending D blk)) (\<lambda>pending.
     if pending then ret ()
     else bnd (tr (get_interrupts D blk)) (\<lambda>ir.
     if contains ir TIMEOUT then
       bnd (tr (clear_interrupts D blk TIMEOUT)) (\<lambda>_.
       bnd (tr (send_sock_command D blk Close)) (\<lambda>_.
       set_tcp_status ClosingDueToTimeout))
     else bnd (tr (read_status D blk)) (\<lambda>sr.
     case sr of
       SrEstablished \<Rightarrow>
         bnd (set_tcp_status Established) (\<lambda>_. tr (clear_interrupts D blk CON))
     | SrSynsent \<Rightarrow> ret ()
     | SrInit \<Rightarrow> ret ()
     | SrClosed \<Rightarrow> set_tcp_status Closed
     | _ \<Rightarrow> tcp_unexpected D blk)))"

definition tcp_handle_listening ::
  "('d, 't) spi_dma_device \<Rightarrow> block_address \<Rightarrow> (('d, 't) tcp_ctx, unit) sm" where
  "tcp_handle_listening D blk =
     bnd (tr (is_command_pending D blk)) (\<lambda>pending.
     if pending then ret ()
     else bnd (tr (read_status D blk)) (\<lambda>sr.
     if sr = SrListen \<or> sr = SrSynrecv then ret ()
     else if sr = SrEstablished \<or> sr = SrCloseWait then
       bnd (set_tcp_status Established) (\<lambda>_. tr (clear_interrupts D blk CON))
     else if sr = SrClosed then
       bnd (tr (clear_interrupts D blk TIMEOUT)) (\<lambda>_. set_tcp_status Closed)
     else tcp_unexpected D blk))"

subsection \<open>Moving data\<close>

definition tcp_receive ::
  "('d, 't) spi_dma_device \<Rightarrow> block_address \<Rightarrow> (('d, 't) tcp_ctx, bulk_action) sm" where
  "tcp_receive D blk =
     bnd (tr (get_rx_received_size D blk)) (\<lambda>received.
     let available = unat received
     in if available = 0 then ret ActNone
     else bnd (on_rx ring_free) (\<lambda>free.
     let to_read = min available free
     in if to_read = 0 then ret ActNone
     else bnd (tr (get_rx_read_pointer D blk)) (\<lambda>pointer.
     bnd (tr (start_read_rx_buffer D blk pointer to_read)) (\<lambda>_.
     ret (Started BulkReceive pointer to_read)))))"

definition tcp_transmit ::
  "('d, 't) spi_dma_device \<Rightarrow> block_address \<Rightarrow> (('d, 't) tcp_ctx, bulk_action) sm" where
  "tcp_transmit D blk =
     bnd (gets (\<lambda>c. ring_len (tx (rings c)))) (\<lambda>pending.
     if pending = 0 then ret ActNone
     else bnd (tr (get_tx_free_size D blk)) (\<lambda>free.
     let to_send = min pending (unat free)
     in if to_send = 0 then ret ActNone
     else bnd (tr (get_tx_write_pointer D blk)) (\<lambda>pointer.
     bnd (start_tx_from_ring D blk pointer to_send) (\<lambda>_.
     ret (Started BulkTransmit pointer to_send)))))"

definition tcp_handle_established ::
  "('d, 't) spi_dma_device \<Rightarrow> block_address \<Rightarrow> (('d, 't) tcp_ctx, bulk_action) sm" where
  "tcp_handle_established D blk =
     bnd (tr (get_interrupts D blk)) (\<lambda>ir.
     if contains ir TIMEOUT then
       bnd (tr (clear_interrupts D blk TIMEOUT)) (\<lambda>_.
       bnd (tr (send_sock_command D blk Close)) (\<lambda>_.
       mapr ActNone (set_tcp_status ClosingDueToTimeout)))
     else
     bnd (if contains ir DISCON then tr (clear_interrupts D blk DISCON) else ret ()) (\<lambda>_.
     bnd (tr (read_status D blk)) (\<lambda>sr.
     case sr of
       SrEstablished \<Rightarrow>
         bnd (tcp_receive D blk) (\<lambda>action.
         case action of Started _ _ _ \<Rightarrow> ret action | ActNone \<Rightarrow> tcp_transmit D blk)
     | SrCloseWait \<Rightarrow>
         bnd (tcp_receive D blk) (\<lambda>action.
         case action of
           Started _ _ _ \<Rightarrow> ret action
         | ActNone \<Rightarrow>
             bnd (tcp_transmit D blk) (\<lambda>action'.
             case action' of
               Started _ _ _ \<Rightarrow> ret action'
             | ActNone \<Rightarrow>
                 bnd (gets (\<lambda>c. (ring_len (tx (rings c)), ring_len (rx (rings c))))) (\<lambda>(ntx, nrx).
                 if ntx = 0 \<and> nrx = 0 then
                   bnd (tr (get_rx_received_size D blk)) (\<lambda>received.
                   if received = 0 then
                     bnd (tr (send_sock_command D blk Disconnect)) (\<lambda>_.
                     mapr ActNone (set_tcp_status Closing))
                   else ret ActNone)
                 else ret ActNone)))
     | SrClosed \<Rightarrow> mapr ActNone (set_tcp_status Closed)
     | _ \<Rightarrow> tcp_unexpected D blk)))"

subsection \<open>The tick\<close>

definition tcp_dispatch ::
  "('d, 't) spi_dma_device \<Rightarrow> block_address \<Rightarrow> (('d, 't) tcp_ctx, bulk_action) sm" where
  "tcp_dispatch D blk c =
     (if tcp_close_requested (proto c) then mapr ActNone (tcp_handle_close D blk) c
      else
        (case tcp_status (proto c) of
           StInit \<Rightarrow> mapr ActNone (tcp_handle_init D blk) c
         | Opening \<Rightarrow> mapr ActNone (tcp_handle_opening D blk) c
         | Connecting \<Rightarrow> mapr ActNone (tcp_handle_connecting D blk) c
         | Established \<Rightarrow> tcp_handle_established D blk c
         | Listening \<Rightarrow> mapr ActNone (tcp_handle_listening D blk) c
         | ClosingDueToError \<Rightarrow> mapr ActNone (tcp_handle_closing D blk) c
         | ClosingDueToTimeout \<Rightarrow> mapr ActNone (tcp_handle_closing D blk) c
         | Closing \<Rightarrow> mapr ActNone (tcp_handle_closing D blk) c
         | StTimeout \<Rightarrow> ret ActNone c
         | Closed \<Rightarrow> ret ActNone c
         | StError \<Rightarrow> ret ActNone c))"

text \<open>\<^verbatim>\<open>run\<close>: an error other than \<open>WouldBlock\<close> is stored and the tick reports nothing.\<close>

definition tcp_run ::
  "('d, 't) spi_dma_device \<Rightarrow> block_address \<Rightarrow> (('d, 't) tcp_ctx, bulk_action) sm" where
  "tcp_run D blk c =
     (case tcp_dispatch D blk c of
        (Ok action, c') \<Rightarrow> (Ok action, c')
      | (Err WouldBlock, c') \<Rightarrow> (Err WouldBlock, c')
      | (Err (Other e), c') \<Rightarrow>
          (Ok ActNone, c'\<lparr>proto := (proto c')\<lparr>tcp_pending_error := Some (Other e)\<rparr>\<rparr>)
      | (Panic, c') \<Rightarrow> (Panic, c'))"

subsection \<open>Specification\<close>

text \<open>The edges of the status graph: what one tick may do to the status.\<close>

declare suffix_drop [simp]

inductive tcp_edge :: "socket_status \<Rightarrow> socket_status \<Rightarrow> bool" where
  stay: "tcp_edge s s"
| opens: "tcp_edge StInit Opening"
| connects: "tcp_edge Opening Connecting"
| listens: "tcp_edge Opening Listening"
| connected: "tcp_edge Connecting Established"
| accepted: "tcp_edge Listening Established"
| refused: "s \<in> {Connecting, Listening, Established} \<Longrightarrow> tcp_edge s Closed"
| timed_out: "s \<in> {Connecting, Established} \<Longrightarrow> tcp_edge s ClosingDueToTimeout"
| failed: "s \<in> {Opening, Connecting, Listening, Established} \<Longrightarrow> tcp_edge s ClosingDueToError"
| closing: "s \<in> {StInit, Opening, Connecting, Listening, Established} \<Longrightarrow> tcp_edge s Closing"
| closed_error: "tcp_edge ClosingDueToError StError"
| closed_timeout: "tcp_edge ClosingDueToTimeout StTimeout"
| closed: "tcp_edge Closing Closed"

lemmas tcp_edge_intros = tcp_edge.intros

inductive_simps tcp_edge_simps [simp]:
  "tcp_edge StInit t" "tcp_edge Opening t" "tcp_edge Connecting t" "tcp_edge Listening t"
  "tcp_edge Established t" "tcp_edge ClosingDueToError t" "tcp_edge ClosingDueToTimeout t"
  "tcp_edge Closing t" "tcp_edge StTimeout t" "tcp_edge StError t" "tcp_edge Closed t"

text \<open>What a handler leaves alone: the rings, the mode and any stored error.\<close>

definition tcp_frame :: "('d, 't) tcp_ctx \<Rightarrow> ('d, 't) tcp_ctx \<Rightarrow> bool" where
  "tcp_frame c c' \<longleftrightarrow>
     tcp_mode (proto c') = tcp_mode (proto c) \<and>
     tcp_pending_error (proto c') = tcp_pending_error (proto c) \<and>
     tcp_edge (tcp_status (proto c)) (tcp_status (proto c')) \<and>
     rings_inv (rings c') \<and> rx (rings c') = rx (rings c) \<and>
     cap (tx (rings c')) = cap (tx (rings c)) \<and>
     suffix (contents (tx (rings c'))) (contents (tx (rings c)))"

definition tcp_quiet :: "nat \<Rightarrow> ('d, 't) tcp_ctx \<Rightarrow> 'a res \<Rightarrow> ('d, 't) tcp_ctx \<Rightarrow> bool" where
  "tcp_quiet L c r c' \<longleftrightarrow> idle L (trans c') \<and> r \<noteq> Panic \<and> r \<noteq> Err WouldBlock \<and> tcp_frame c c' \<and>
     tcp_close_requested (proto c') = tcp_close_requested (proto c)"

lemma tcp_frame_trans [simp]:
  "tcp_frame c (c'\<lparr>trans := t\<rparr>) = tcp_frame c c'"
  by (simp add: tcp_frame_def)

definition tcp_ready :: "nat \<Rightarrow> ('d, 't) tcp_ctx \<Rightarrow> bool" where
  "tcp_ready L c \<longleftrightarrow> idle L (trans c) \<and> rings_inv (rings c)"

definition tcp_action :: "('d, 't) spi_dma_device \<Rightarrow> nat \<Rightarrow> ('d, 't) tcp_ctx \<Rightarrow> bulk_action \<Rightarrow> ('d, 't) tcp_ctx \<Rightarrow> bool" where
  "tcp_action D L c a c' = (case a of
     ActNone \<Rightarrow> idle L (trans c')
   | Started k p n \<Rightarrow> in_flight D L (trans c') \<and> 0 < n \<and> HEADER + n \<le> L \<and>
       tcp_status (proto c') = tcp_status (proto c) \<and> tcp_status (proto c) = Established \<and>
       (case k of
          BulkReceive \<Rightarrow> n \<le> free_space (rx (rings c)) \<and> rings c' = rings c
        | BulkReceiveDatagram _ _ \<Rightarrow> False
        | BulkTransmit \<Rightarrow> n \<le> ring_len (tx (rings c)) \<and>
            contents (tx (rings c')) = drop n (contents (tx (rings c)))))"


definition tcp_step_ok :: "('d, 't) spi_dma_device \<Rightarrow> nat \<Rightarrow> ('d, 't) tcp_ctx \<Rightarrow> bulk_action res \<Rightarrow> ('d, 't) tcp_ctx \<Rightarrow> bool" where
  "tcp_step_ok D L c r c' \<longleftrightarrow> tcp_frame c c' \<and> \<not> tcp_close_requested (proto c') \<and>
     (case r of
        Ok a \<Rightarrow> tcp_action D L c a c'
      | Err e \<Rightarrow> idle L (trans c') \<and> e \<noteq> WouldBlock
      | Panic \<Rightarrow> False)"

lemmas handler_simps = wp_rules set_tcp_status_def upd_proto_def tcp_unexpected_def

context spi_contract
begin

lemma tcp_handle_init_quiet:
  assumes "tcp_ready L c" "tcp_status (proto c) = StInit"
  shows "wp (tcp_handle_init D blk) (tcp_quiet L c) c"
  using assms unfolding tcp_handle_init_def tcp_ready_def
  by (auto simp: handler_simps tcp_quiet_def tcp_frame_def intro!: wp_tr)

lemma tcp_handle_opening_quiet:
  assumes "tcp_ready L c" "tcp_status (proto c) = Opening"
  shows "wp (tcp_handle_opening D blk) (tcp_quiet L c) c"
  using assms unfolding tcp_handle_opening_def tcp_ready_def
  by (auto simp: handler_simps tcp_quiet_def tcp_frame_def intro!: wp_tr
      split: socket_status_register.splits tcp_mode.splits)

lemma tcp_handle_connecting_quiet:
  assumes "tcp_ready L c" "tcp_status (proto c) = Connecting"
  shows "wp (tcp_handle_connecting D blk) (tcp_quiet L c) c"
  using assms unfolding tcp_handle_connecting_def tcp_ready_def
  by (auto simp: handler_simps tcp_quiet_def tcp_frame_def intro!: wp_tr
      split: socket_status_register.splits)

lemma tcp_handle_listening_quiet:
  assumes "tcp_ready L c" "tcp_status (proto c) = Listening"
  shows "wp (tcp_handle_listening D blk) (tcp_quiet L c) c"
  using assms unfolding tcp_handle_listening_def tcp_ready_def
  by (auto simp: handler_simps tcp_quiet_def tcp_frame_def intro!: wp_tr)

lemma tcp_handle_closing_quiet:
  assumes "tcp_ready L c" "tcp_status (proto c) \<in> {ClosingDueToError, ClosingDueToTimeout, Closing}"
  shows "wp (tcp_handle_closing D blk) (tcp_quiet L c) c"
  using assms unfolding tcp_handle_closing_def tcp_ready_def
  by (auto simp: handler_simps tcp_quiet_def tcp_frame_def intro!: wp_tr)


text \<open>The flush moves the oldest bytes of the ring and advances the pointer by as many.\<close>

lemma tcp_flush_loop_spec:
  assumes "idle L (trans c)" "ring_inv (tx (rings c))"
  shows "wp (tcp_flush_loop D blk to_send staged pointer)
    (\<lambda>r c'. idle L (trans c') \<and> r \<noteq> Panic \<and> r \<noteq> Err WouldBlock \<and> proto c' = proto c \<and>
       rx (rings c') = rx (rings c) \<and> ring_inv (tx (rings c')) \<and> cap (tx (rings c')) = cap (tx (rings c)) \<and>
       (\<exists>k. contents (tx (rings c')) = drop k (contents (tx (rings c))) \<and>
          (\<forall>p. r = Ok p \<longrightarrow> k = min (to_send - staged) (ring_len (tx (rings c))) \<and> p = pointer + of_nat k))) c"
  using assms
proof (induction "to_send - staged" arbitrary: staged pointer c rule: less_induct)
  case less
  let ?q = "tx (rings c)"
  show ?case
  proof (cases "staged < to_send")
    case False
    then show ?thesis using less.prems
      by (auto simp: wp_def tcp_flush_loop.simps [of D blk to_send staged] intro!: exI [of _ 0])
  next
    case True
    define n where "n = min 64 (to_send - staged)"
    define ys where "ys = take n (contents ?q)"
    obtain q where q: "ring_read n ?q = (Ok ys, q)" "contents q = drop n (contents ?q)"
      "ring_inv q" "cap q = cap ?q"
      using ring.fifo_read [OF less.prems(2), of n] by (auto simp: ys_def)
    let ?c1 = "c\<lparr>rings := (rings c)\<lparr>tx := q\<rparr>\<rparr>"
    have rd: "on_tx (ring_read n) c = (Ok ys, ?c1)" by (simp add: on_tx_def zoom_def q(1))
    have drop_ys: "contents q = drop (length ys) (contents ?q)"
      using q(2) by (simp add: ys_def min_def)
    have len: "ring_len q = ring_len ?q - length ys"
      using drop_ys length_contents [of q] length_contents [of ?q] by (metis length_drop)
    show ?thesis
    proof (cases "ys = []")
      case True
      then have empty: "ring_len ?q = 0"
        using \<open>staged < to_send\<close> by (auto simp: ys_def n_def min_def take_eq_Nil split: if_splits)
      have same: "contents q = contents ?q" "ring_len q = 0"
        using drop_ys True empty length_contents [of q] length_contents [of ?q] by simp_all
      have "tcp_flush_loop D blk to_send staged pointer c = (Ok pointer, ?c1)"
        using rd \<open>staged < to_send\<close> True
        by (simp add: tcp_flush_loop.simps [of D blk to_send staged] n_def)
      then show ?thesis
        using less.prems q(3,4) same empty by (auto simp: wp_def intro!: exI [of _ 0])
    next
      case False
      obtain r2 c2 where w: "tr (write_tx_buffer D blk pointer ys) ?c1 = (r2, c2)"
        by (cases "tr (write_tx_buffer D blk pointer ys) ?c1") auto
      have w2: "idle L (trans c2) \<and> r2 \<noteq> Panic \<and> r2 \<noteq> Err WouldBlock \<and> proto c2 = proto c \<and>
        rings c2 = rings ?c1"
        using wp_tr [of L "write_tx_buffer D blk pointer ys" ?c1
            "\<lambda>r c2. idle L (trans c2) \<and> r \<noteq> Panic \<and> r \<noteq> Err WouldBlock \<and> proto c2 = proto c \<and>
              rings c2 = rings ?c1"] less.prems w
        by (auto simp: wp_def)
      have pos: "0 < length ys" "length ys \<le> to_send - staged" "length ys \<le> ring_len ?q"
        using False by (auto simp: ys_def n_def)
      show ?thesis
      proof (cases r2)
        case (Ok u)
        have run: "tcp_flush_loop D blk to_send staged pointer c =
            tcp_flush_loop D blk to_send (staged + length ys) (pointer + of_nat (length ys)) c2"
          using rd \<open>staged < to_send\<close> False w Ok
          by (simp add: tcp_flush_loop.simps [of D blk to_send staged] n_def)
        have lt: "to_send - (staged + length ys) < to_send - staged" using pos(1) True by linarith
        have "idle L (trans c2)" "ring_inv (tx (rings c2))" using w2 q(3) by auto
        from less.hyps [OF lt this, of "pointer + of_nat (length ys)"]
        show ?thesis unfolding wp_def run
        proof (elim case_prodE exE conjE, goal_cases)
          case (1 r' c' k)
          have "min (to_send - (staged + length ys)) (ring_len q) + length ys =
              min (to_send - staged) (ring_len ?q)"
            using pos len by linarith
          then have k: "\<forall>p. r' = Ok p \<longrightarrow> k + length ys = min (to_send - staged) (ring_len ?q) \<and>
              p = pointer + of_nat (length ys) + of_nat k"
            using 1(10) w2 by auto
          have "contents (tx (rings c')) = drop (k + length ys) (contents ?q)"
            using 1(9) w2 drop_ys by simp
          then have "\<exists>k. contents (tx (rings c')) = drop k (contents ?q) \<and>
              (\<forall>p. r' = Ok p \<longrightarrow> k = min (to_send - staged) (ring_len ?q) \<and> p = pointer + of_nat k)"
            using k by (intro exI [of _ "k + length ys"] conjI) (simp_all only: of_nat_add ac_simps, blast?)
          then show ?case
            unfolding 1(1) prod.case using 1(2-8) w2 q(4) by simp
        qed
      next
        case (Err e)
        then have "tcp_flush_loop D blk to_send staged pointer c = (Err e, c2)"
          using rd \<open>staged < to_send\<close> False w
          by (simp add: tcp_flush_loop.simps [of D blk to_send staged] n_def)
        then show ?thesis using w2 Err q(3,4) drop_ys by (auto simp: wp_def)
      next
        case Panic
        then show ?thesis using w2 by simp
      qed
    qed
  qed
qed

lemma tcp_flush_sync_spec:
  assumes "tcp_ready L c"
  shows "wp (tcp_flush_sync D blk)
    (\<lambda>r c'. idle L (trans c') \<and> r \<noteq> Panic \<and> r \<noteq> Err WouldBlock \<and> proto c' = proto c \<and>
       rx (rings c') = rx (rings c) \<and> ring_inv (tx (rings c')) \<and> cap (tx (rings c')) = cap (tx (rings c)) \<and>
       suffix (contents (tx (rings c'))) (contents (tx (rings c)))) c"
  using assms unfolding tcp_flush_sync_def tcp_ready_def rings_inv_def
  apply (auto simp: handler_simps Let_def intro!: wp_tr [of L])
  apply (rule wp_mono [OF tcp_flush_loop_spec])
  apply simp
  apply simp
  subgoal for t x ta xa r s'
  apply (cases r)
  apply (clarsimp simp: wp_rules)
  apply (rule wp_tr [of L], simp, simp)
  apply (simp)
  apply (rule wp_tr [of L], simp, simp)
  apply auto
  done
  done

lemma tcp_handle_close_spec:
  assumes "tcp_ready L c"
  shows "wp (tcp_handle_close D blk)
    (\<lambda>r c'. idle L (trans c') \<and> r \<noteq> Panic \<and> r \<noteq> Err WouldBlock \<and> tcp_frame c c' \<and>
      \<not> tcp_close_requested (proto c') \<and>
      (r = Ok () \<longrightarrow> tcp_status (proto c') = (if tcp_status (proto c) \<in>
         {StInit, Opening, Connecting, Listening, Established} then Closing else tcp_status (proto c)))) c"
  using assms unfolding tcp_handle_close_def
  apply (cases "tcp_status (proto c)")
  apply (auto simp: handler_simps tcp_ready_def tcp_frame_def rings_inv_def intro!: wp_tr [of L])
  apply (rule wp_mono [OF tcp_flush_sync_spec])
  apply (auto simp: wp_rules tcp_ready_def rings_inv_def set_tcp_status_def upd_proto_def split: res.splits intro!: wp_tr [of L])
  done

lemma tcp_receive_spec:
  assumes "tcp_ready L c" "tcp_status (proto c) = Established"
  shows "wp (tcp_receive D blk)
    (\<lambda>r c'. case r of
        Ok a \<Rightarrow> tcp_action D L c a c' \<and> rings c' = rings c \<and> proto c' = proto c
      | Err e \<Rightarrow> idle L (trans c') \<and> e \<noteq> WouldBlock \<and> rings c' = rings c \<and> proto c' = proto c
      | Panic \<Rightarrow> False) c"
  using assms unfolding tcp_receive_def tcp_ready_def rings_inv_def
  by (auto simp: handler_simps wp_ring_free Let_def tcp_action_def intro!: wp_tr [of L] wp_start_read)

lemma tcp_transmit_spec:
  assumes "tcp_ready L c" "tcp_status (proto c) = Established"
  shows "wp (tcp_transmit D blk)
    (\<lambda>r c'. rings_inv (rings c') \<and> rx (rings c') = rx (rings c) \<and> cap (tx (rings c')) = cap (tx (rings c)) \<and>
      suffix (contents (tx (rings c'))) (contents (tx (rings c))) \<and> proto c' = proto c \<and>
      (case r of
        Ok a \<Rightarrow> tcp_action D L c a c' \<and> (a = ActNone \<longrightarrow> rings c' = rings c)
      | Err e \<Rightarrow> idle L (trans c') \<and> e \<noteq> WouldBlock
      | Panic \<Rightarrow> False)) c"
  using assms unfolding tcp_transmit_def tcp_ready_def rings_inv_def
  apply (auto simp: handler_simps Let_def tcp_action_def intro!: wp_tr [of L] wp_start_tx [of L])
  done

text \<open>Receiving has priority; transmitting is tried only when nothing is to be received.\<close>

lemma tcp_action_trans [simp]: "tcp_action D L (c\<lparr>trans := t\<rparr>) a c' = tcp_action D L c a c'"
  by (simp add: tcp_action_def split: bulk_action.splits bulk_kind.splits)

lemma wp_tcp_receive:
  assumes "tcp_ready L c" "tcp_status (proto c) = Established"
    and "\<And>a c'. tcp_action D L c a c' \<Longrightarrow> rings c' = rings c \<Longrightarrow> proto c' = proto c \<Longrightarrow> Q (Ok a) c'"
    and "\<And>e c'. idle L (trans c') \<Longrightarrow> rings c' = rings c \<Longrightarrow> proto c' = proto c \<Longrightarrow> Q (Err (Other e)) c'"
  shows "wp (tcp_receive D blk) Q c"
  apply (rule wp_mono [OF tcp_receive_spec [OF assms(1,2)]])
  subgoal for r c' using assms(3,4) by (cases r; auto; metis error.exhaust)
  done

lemma wp_tcp_transmit:
  assumes "tcp_ready L c" "tcp_status (proto c) = Established"
    and "\<And>a c'. rings_inv (rings c') \<Longrightarrow> rx (rings c') = rx (rings c) \<Longrightarrow> cap (tx (rings c')) = cap (tx (rings c)) \<Longrightarrow>
      suffix (contents (tx (rings c'))) (contents (tx (rings c))) \<Longrightarrow> proto c' = proto c \<Longrightarrow>
      tcp_action D L c a c' \<Longrightarrow> (a = ActNone \<Longrightarrow> rings c' = rings c) \<Longrightarrow> Q (Ok a) c'"
    and "\<And>e c'. rings_inv (rings c') \<Longrightarrow> rx (rings c') = rx (rings c) \<Longrightarrow> cap (tx (rings c')) = cap (tx (rings c)) \<Longrightarrow>
      suffix (contents (tx (rings c'))) (contents (tx (rings c))) \<Longrightarrow> proto c' = proto c \<Longrightarrow>
      idle L (trans c') \<Longrightarrow> Q (Err (Other e)) c'"
  shows "wp (tcp_transmit D blk) Q c"
  apply (rule wp_mono [OF tcp_transmit_spec [OF assms(1,2)]])
  subgoal for r c' using assms(3,4) by (cases r; auto; metis error.exhaust)
  done

lemma tcp_action_mono:
  "tcp_action D L c1 a d \<Longrightarrow> rings c1 = rings c \<Longrightarrow> proto c1 = proto c \<Longrightarrow> tcp_action D L c a d"
  by (simp add: tcp_action_def split: bulk_action.splits bulk_kind.splits)

lemma tcp_action_simps [simp]:
  "tcp_action D L c ActNone c' = idle L (trans c')"
  by (simp add: tcp_action_def)

lemma tcp_handle_established_spec:
  assumes "tcp_ready L c" "tcp_status (proto c) = Established" "\<not> tcp_close_requested (proto c)"
  shows "wp (tcp_handle_established D blk) (tcp_step_ok D L c) c"
  using assms unfolding tcp_handle_established_def tcp_ready_def
  apply (auto simp: handler_simps tcp_step_ok_def tcp_frame_def tcp_ready_def
     intro!: wp_tr [of L] wp_tcp_receive [of L] wp_tcp_transmit [of L] split: socket_status_register.splits bulk_action.splits if_splits)
  apply (erule tcp_action_mono; simp)+
  done

lemma tcp_quiet_step:
  "tcp_quiet L c r c' \<Longrightarrow> \<not> tcp_close_requested (proto c) \<Longrightarrow>
     tcp_step_ok D L c (case r of Ok _ \<Rightarrow> Ok ActNone | Err e \<Rightarrow> Err e | Panic \<Rightarrow> Panic) c'"
  by (cases r) (auto simp: tcp_quiet_def tcp_step_ok_def)

lemma tcp_dispatch_spec:
  assumes "tcp_ready L c"
  shows "wp (tcp_dispatch D blk) (tcp_step_ok D L c) c"
proof (cases "tcp_close_requested (proto c)")
  case True
  have "wp (tcp_dispatch D blk) (tcp_step_ok D L c) c =
    wp (mapr ActNone (tcp_handle_close D blk)) (tcp_step_ok D L c) c"
    using True by (simp add: wp_def tcp_dispatch_def)
  then show ?thesis
    unfolding wp_mapr
    by (auto simp: tcp_step_ok_def split: res.splits intro!: wp_mono [OF tcp_handle_close_spec [OF assms]])
next
  case False
  have quiet: "wp (mapr ActNone m) (tcp_step_ok D L c) c" if "wp m (tcp_quiet L c) c" for m
    unfolding wp_mapr using tcp_quiet_step [OF _ False]
    by (auto intro!: wp_mono [OF that] split: res.splits dest!: tcp_quiet_step [OF _ False])
  have stay: "wp (ret ActNone) (tcp_step_ok D L c) c"
    using assms False by (simp add: wp_ret tcp_step_ok_def tcp_ready_def tcp_frame_def tcp_edge_intros(1))
  have *: "wp (tcp_dispatch D blk) (tcp_step_ok D L c) c = wp (case tcp_status (proto c) of
           StInit \<Rightarrow> mapr ActNone (tcp_handle_init D blk)
         | Opening \<Rightarrow> mapr ActNone (tcp_handle_opening D blk)
         | Connecting \<Rightarrow> mapr ActNone (tcp_handle_connecting D blk)
         | Established \<Rightarrow> tcp_handle_established D blk
         | Listening \<Rightarrow> mapr ActNone (tcp_handle_listening D blk)
         | ClosingDueToError \<Rightarrow> mapr ActNone (tcp_handle_closing D blk)
         | ClosingDueToTimeout \<Rightarrow> mapr ActNone (tcp_handle_closing D blk)
         | Closing \<Rightarrow> mapr ActNone (tcp_handle_closing D blk)
         | _ \<Rightarrow> ret ActNone) (tcp_step_ok D L c) c"
    using False by (simp add: wp_def tcp_dispatch_def split: socket_status.splits)
  show ?thesis unfolding *
    by (cases "tcp_status (proto c)")
      (simp_all add: quiet stay tcp_handle_init_quiet tcp_handle_opening_quiet tcp_handle_connecting_quiet
        tcp_handle_listening_quiet tcp_handle_closing_quiet tcp_handle_established_spec False assms)
qed

text \<open>The tick itself: always \<open>Ok\<close>; a driver error is stored.\<close>

lemma tcp_run_spec:
  assumes "tcp_ready L c" "tcp_run D blk c = (r, c')"
  shows "\<exists>a. r = Ok a \<and> tcp_action D L c a c' \<and> rings_inv (rings c') \<and>
    rx (rings c') = rx (rings c) \<and> cap (tx (rings c')) = cap (tx (rings c)) \<and>
    suffix (contents (tx (rings c'))) (contents (tx (rings c))) \<and>
    tcp_mode (proto c') = tcp_mode (proto c) \<and> \<not> tcp_close_requested (proto c') \<and>
    tcp_edge (tcp_status (proto c)) (tcp_status (proto c'))"
proof -
  obtain r1 c1 where d: "tcp_dispatch D blk c = (r1, c1)" by (cases "tcp_dispatch D blk c") auto
  have "tcp_step_ok D L c r1 c1" using wpD [OF tcp_dispatch_spec [OF assms(1)] d] .
  then show ?thesis using assms(2) d
    by (cases r1) (auto simp: tcp_run_def tcp_step_ok_def tcp_frame_def split: error.splits)
qed

end

text \<open>The machine meets the contract the layers above rely on.\<close>

lemma tcp_action_bulk:
  "tcp_action D L c a c' \<Longrightarrow> rx (rings c') = rx (rings c) \<Longrightarrow> bulk_ok D L a c'"
  by (auto simp: tcp_action_def bulk_ok_def split: bulk_action.splits bulk_kind.splits)

sublocale spi_contract \<subseteq> tcp: socket_machine D "tcp_run D" tcp_is_closed
proof unfold_locales
  fix L c blk r c' assume "idle L (trans c)" "rings_inv (rings c)" "tcp_run D blk c = (r, c')"
  with tcp_run_spec [of L c blk r c'] show "tick_ok D L c r c' \<and> (\<exists>a. r = Ok a)"
    by (auto simp: tcp_ready_def tick_ok_def intro: tcp_action_bulk)
next
  fix L c blk k p n c' assume "idle L (trans c)" "rings_inv (rings c)" "tcp_run D blk c = (Ok (Started k p n), c')"
  with tcp_run_spec [of L c blk _ c'] show "\<not> tcp_is_closed (proto c')"
    by (fastforce simp: tcp_ready_def tcp_action_def tcp_is_closed_def)
qed

subsection \<open>Properties\<close>

text \<open>
  C10. The TCP tick is safe and does what it reports. From an idle bus and sound rings it never
  panics, never blocks and never fails: an error is stored for the handle. Having started
  nothing it leaves the bus idle; having started a receive, the bus is in flight for \<open>n > 0\<close>
  bytes that fit the scratch buffer and the free space of the receive ring; having started
  a transmit, exactly the \<open>n\<close> oldest bytes have left the transmit ring. The status moves
  along an edge of the status graph, the receive ring and the mode are untouched, and a
  request to close has been taken.
\<close>

theorem tcp_tick_sound:
  assumes "spi_contract D" "idle L (trans c)" "rings_inv (rings c)" "tcp_run D blk c = (r, c')"
  shows "\<exists>a. r = Ok a \<and>
    (case a of
       ActNone \<Rightarrow> idle L (trans c')
     | Started k p n \<Rightarrow> in_flight D L (trans c') \<and> 0 < n \<and> HEADER + n \<le> L \<and>
         tcp_status (proto c) = Established \<and> tcp_status (proto c') = Established \<and>
         (k = BulkReceive \<and> n \<le> free_space (rx (rings c)) \<and> rings c' = rings c \<or>
          k = BulkTransmit \<and> n \<le> ring_len (tx (rings c)) \<and>
            contents (tx (rings c')) = drop n (contents (tx (rings c))))) \<and>
    tcp_edge (tcp_status (proto c)) (tcp_status (proto c')) \<and>
    tcp_mode (proto c') = tcp_mode (proto c) \<and> \<not> tcp_close_requested (proto c') \<and>
    rings_inv (rings c') \<and> rx (rings c') = rx (rings c) \<and> cap (tx (rings c')) = cap (tx (rings c)) \<and>
    suffix (contents (tx (rings c'))) (contents (tx (rings c)))"
proof -
  have "tcp_ready L c" using assms(2,3) by (simp add: tcp_ready_def)
  from spi_contract.tcp_run_spec [OF assms(1) this assms(4)] obtain a where
    a: "r = Ok a" "tcp_action D L c a c'" and rest: "rings_inv (rings c')" "rx (rings c') = rx (rings c)"
      "cap (tx (rings c')) = cap (tx (rings c))" "suffix (contents (tx (rings c'))) (contents (tx (rings c)))"
      "tcp_mode (proto c') = tcp_mode (proto c)" "\<not> tcp_close_requested (proto c')"
      "tcp_edge (tcp_status (proto c)) (tcp_status (proto c'))"
    by blast
  show ?thesis
    by (intro exI [of _ a] conjI a(1) rest)
      (use a(2) in \<open>auto simp: tcp_action_def split: bulk_action.splits bulk_kind.splits\<close>)
qed

theorem tcp_tick_sound_witness:
  "\<exists>c'. tcp_run mock (socket_block 0) \<lparr>trans = mock_rig 8, rings = rings_new, proto = tcp_listen 80\<rparr>
     = (Ok ActNone, c') \<and> tcp_status (proto c') = Opening \<and> idle 8 (trans c') \<and> tcp_edge StInit Opening"
proof -
  let ?c = "\<lparr>trans = mock_rig 8, rings = rings_new, proto = tcp_listen 80\<rparr>"
  obtain r c' where run: "tcp_run mock (socket_block 0) ?c = (r, c')"
    by (cases "tcp_run mock (socket_block 0) ?c") auto
  have run': "(case tcp_run mock (socket_block 0) ?c of (r, c') \<Rightarrow>
      r = Ok ActNone \<and> tcp_status (proto c') = Opening)" by code_simp
  have "idle 8 (trans ?c)" "rings_inv (rings ?c)"
    by (simp_all add: mock_rig_idle rings_new_def rings_inv_def ring_inv_new)
  from tcp_tick_sound [OF mock.spi_contract_axioms this run] run run' show ?thesis by auto
qed

text \<open>
  C21. Terminal statuses are absorbing: a tick of a closed, failed or timed out socket touches
  neither the bus nor the rings nor the status, and a close request on it is consumed.
\<close>

theorem tcp_terminal_absorbing:
  assumes "tcp_is_closed (proto c)"
  shows "tcp_run D blk c = (Ok ActNone, c\<lparr>proto := (proto c)\<lparr>tcp_close_requested := False\<rparr>\<rparr>)"
proof (cases "tcp_close_requested (proto c)")
  case True
  then show ?thesis using assms
    by (auto simp: tcp_run_def tcp_dispatch_def tcp_is_closed_def mapr_def tcp_handle_close_def
        bnd_def upd_proto_def modify_def gets_def ret_def)
next
  case False
  moreover have "(proto c)\<lparr>tcp_close_requested := False\<rparr> = proto c"
    using False by (cases "proto c") simp
  ultimately show ?thesis using assms
    by (auto simp: tcp_run_def tcp_dispatch_def tcp_is_closed_def ret_def)
qed

theorem tcp_terminal_absorbing_witness:
  "tcp_run mock (socket_block 0) \<lparr>trans = mock_rig 8, rings = rings_new, proto = (tcp_listen 80)\<lparr>tcp_status := StTimeout\<rparr>\<rparr> =
    (Ok ActNone, \<lparr>trans = mock_rig 8, rings = rings_new, proto = (tcp_listen 80)\<lparr>tcp_status := StTimeout\<rparr>\<rparr>)"
  using tcp_terminal_absorbing [of "\<lparr>trans = mock_rig 8, rings = rings_new,
      proto = (tcp_listen 80)\<lparr>tcp_status := StTimeout\<rparr>\<rparr>" mock "socket_block 0"]
  by (simp add: tcp_is_closed_def tcp_listen_def)

end
