(* ===== verification/Udp_Socket.thy ===== *)
theory Udp_Socket
  imports Socket_Common "HOL-Library.Sublist"
begin

text \<open>
  The UDP protocol machine of \<^verbatim>\<open>wiznet-rs/src/udp_socket.rs\<close> and the data path of its handle:
  datagrams are stored in the byte rings as length-prefixed frames. The first part is the
  code, the second the refinement of a framed byte ring to a queue of datagrams.
\<close>

subsection \<open>Frames\<close>

record socket_addr =
  ip :: u32
  port :: u16

definition FRAME_HEADER :: nat where "FRAME_HEADER = 8"
definition PACKINFO :: nat where "PACKINFO = 8"
definition PACKINFO_LEN_MASK :: u16 where "PACKINFO_LEN_MASK = 0x07FF"

definition frame_header :: "u16 \<Rightarrow> socket_addr \<Rightarrow> bytes" where
  "frame_header len a = to_be 2 len @ to_be 4 (ip a) @ to_be 2 (port a)"

text \<open>The argument is the array \<^verbatim>\<open>&[u8; FRAME_HEADER]\<close>, a list of 8 bytes.\<close>

definition parse_frame_header :: "bytes \<Rightarrow> nat \<times> socket_addr" where
  "parse_frame_header h =
     (unat (from_be (take 2 h) :: u16),
      \<lparr>ip = from_be (take 4 (drop 2 h)), port = from_be (take 2 (drop 6 h))\<rparr>)"

subsection \<open>State\<close>

record udp_socket_state =
  udp_src_port :: u16
  udp_status :: socket_status
  udp_pending_error :: "error option"
  udp_close_requested :: bool

definition udp_bind :: "u16 \<Rightarrow> udp_socket_state" where
  "udp_bind p = \<lparr>udp_src_port = p, udp_status = StInit, udp_pending_error = None, udp_close_requested = False\<rparr>"

definition udp_reported_status :: "udp_socket_state \<Rightarrow> socket_status" where
  "udp_reported_status s = (if udp_pending_error s \<noteq> None then StError else udp_status s)"

definition udp_rearm :: "udp_socket_state \<Rightarrow> udp_socket_state" where
  "udp_rearm s = s\<lparr>udp_status := StInit, udp_pending_error := None, udp_close_requested := False\<rparr>"

definition udp_request_close :: "udp_socket_state \<Rightarrow> udp_socket_state" where
  "udp_request_close s = s\<lparr>udp_close_requested := True\<rparr>"

definition udp_is_closed :: "udp_socket_state \<Rightarrow> bool" where
  "udp_is_closed s \<longleftrightarrow> udp_status s \<in> {Closed, StError, StTimeout}"

type_synonym ('d, 't) udp_ctx = "('d, 't, udp_socket_state) ctx"

definition set_udp_status :: "socket_status \<Rightarrow> (('d, 't) udp_ctx, unit) sm" where
  "set_udp_status st = upd_proto (\<lambda>s. s\<lparr>udp_status := st\<rparr>)"

subsection \<open>Handlers\<close>

definition udp_handle_close ::
  "('d, 't) spi_dma_device \<Rightarrow> block_address \<Rightarrow> (('d, 't) udp_ctx, unit) sm" where
  "udp_handle_close D blk =
     bnd (upd_proto (\<lambda>s. s\<lparr>udp_close_requested := False\<rparr>)) (\<lambda>_.
     bnd (gets (\<lambda>c. udp_status (proto c))) (\<lambda>st.
     if st \<in> {Closed, StError, StTimeout, ClosingDueToError, ClosingDueToTimeout, Closing} then ret ()
     else
       bnd (tr (send_sock_command D blk Close)) (\<lambda>_.
       set_udp_status Closing)))"

definition udp_handle_init ::
  "('d, 't) spi_dma_device \<Rightarrow> block_address \<Rightarrow> (('d, 't) udp_ctx, unit) sm" where
  "udp_handle_init D blk =
     bnd (tr (init_socket D blk MODE_UDP4)) (\<lambda>_.
     bnd (gets (\<lambda>c. udp_src_port (proto c))) (\<lambda>src_port.
     bnd (tr (set_src_port D blk src_port)) (\<lambda>_.
     bnd (tr (send_sock_command D blk Open)) (\<lambda>_.
     set_udp_status Opening))))"

definition udp_handle_opening ::
  "('d, 't) spi_dma_device \<Rightarrow> block_address \<Rightarrow> (('d, 't) udp_ctx, unit) sm" where
  "udp_handle_opening D blk =
     bnd (tr (is_command_pending D blk)) (\<lambda>pending.
     if pending then ret ()
     else bnd (tr (read_status D blk)) (\<lambda>sr.
     case sr of
       SrUdp \<Rightarrow> set_udp_status Established
     | SrClosed \<Rightarrow> ret ()
     | _ \<Rightarrow>
         bnd (tr (send_sock_command D blk Close)) (\<lambda>_.
         bnd (set_udp_status ClosingDueToError) (\<lambda>_.
         raise (Other UnexpectedResponse)))))"

text \<open>Tell the chip that everything before \<open>p\<close> has been consumed.\<close>

definition udp_advance ::
  "('d, 't) spi_dma_device \<Rightarrow> block_address \<Rightarrow> u16 \<Rightarrow> (('d, 't) udp_ctx, unit) sm" where
  "udp_advance D blk p =
     bnd (tr (set_rx_read_pointer D blk p)) (\<lambda>_.
     bnd (tr (send_sock_command D blk Receive)) (\<lambda>_.
     tr (clear_interrupts D blk RECV)))"

definition udp_receive ::
  "('d, 't) spi_dma_device \<Rightarrow> block_address \<Rightarrow> (('d, 't) udp_ctx, bulk_action) sm" where
  "udp_receive D blk =
     bnd (tr (get_rx_received_size D blk)) (\<lambda>received.
     let available = unat received in
     if available < PACKINFO then ret ActNone
     else bnd (tr (get_rx_read_pointer D blk)) (\<lambda>start.
     bnd (tr (read_rx_buffer D blk start (replicate PACKINFO 0))) (\<lambda>head.
     let payload_len = unat ((from_be (take 2 head) :: u16) AND PACKINFO_LEN_MASK);
         src_ip = from_be (take 4 (drop 2 head));
         src_port = from_be (take 2 (drop 6 head));
         framed_len = FRAME_HEADER + payload_len in
     if available < PACKINFO + payload_len then ret ActNone
     else bnd (gets (\<lambda>c. cap (rx (rings c)))) (\<lambda>capacity.
     if framed_len > capacity then
       bnd (udp_advance D blk (start + of_nat (PACKINFO + payload_len))) (\<lambda>_. ret ActNone)
     else bnd (on_rx ring_free) (\<lambda>free.
     if free < framed_len then ret ActNone
     else if payload_len = 0 then
       bnd (on_rx (ring_write (frame_header 0 \<lparr>ip = src_ip, port = src_port\<rparr>))) (\<lambda>_.
       bnd (on_rx (modify commit_frame)) (\<lambda>_.
       bnd (udp_advance D blk (start + of_nat PACKINFO)) (\<lambda>_. ret ActNone)))
     else
       let payload_ptr = start + of_nat PACKINFO in
       bnd (tr (start_read_rx_buffer D blk payload_ptr payload_len)) (\<lambda>_.
       ret (Started (BulkReceiveDatagram src_ip src_port) payload_ptr payload_len)))))))"

text \<open>\<^verbatim>\<open>let mut head = [0; 8]; tx.peek(&mut head)\<close>, and the same with \<^verbatim>\<open>read\<close>.\<close>

definition peek_head :: "(spsc_ring, bytes) sm" where
  "peek_head = bnd (ring_peek FRAME_HEADER) (\<lambda>ys. ret (copy_at 0 ys (replicate FRAME_HEADER 0)))"

definition read_head :: "(spsc_ring, bytes) sm" where
  "read_head = bnd (ring_read FRAME_HEADER) (\<lambda>ys. ret (copy_at 0 ys (replicate FRAME_HEADER 0)))"

definition udp_transmit ::
  "('d, 't) spi_dma_device \<Rightarrow> block_address \<Rightarrow> (('d, 't) udp_ctx, bulk_action) sm" where
  "udp_transmit D blk =
     bnd (gets (\<lambda>c. ring_frames (tx (rings c)))) (\<lambda>frames.
     if frames = 0 then ret ActNone
     else bnd (on_tx peek_head) (\<lambda>head.
     case parse_frame_header head of (payload_len, dst) \<Rightarrow>
     bnd (tr (get_tx_free_size D blk)) (\<lambda>free.
     if unat free < payload_len then ret ActNone
     else bnd (on_tx read_head) (\<lambda>_.
     bnd (tr (set_ipv4_dst_addr D blk (ip dst))) (\<lambda>_.
     bnd (tr (set_dst_port D blk (port dst))) (\<lambda>_.
     if payload_len = 0 then
       bnd (tr (send_sock_command D blk Send)) (\<lambda>_.
       bnd (on_tx (modify release_frame)) (\<lambda>_. ret ActNone))
     else bnd (tr (get_tx_write_pointer D blk)) (\<lambda>pointer.
     bnd (start_tx_from_ring D blk pointer payload_len) (\<lambda>_.
     bnd (on_tx (modify release_frame)) (\<lambda>_.
     ret (Started BulkTransmit pointer payload_len)))))))))) "

definition udp_handle_established ::
  "('d, 't) spi_dma_device \<Rightarrow> block_address \<Rightarrow> (('d, 't) udp_ctx, bulk_action) sm" where
  "udp_handle_established D blk =
     bnd (tr (get_interrupts D blk)) (\<lambda>ir.
     bnd (if contains ir TIMEOUT then tr (clear_interrupts D blk TIMEOUT) else ret ()) (\<lambda>_.
     bnd (udp_receive D blk) (\<lambda>action.
     case action of Started _ _ _ \<Rightarrow> ret action | ActNone \<Rightarrow> udp_transmit D blk)))"

definition udp_handle_closing ::
  "('d, 't) spi_dma_device \<Rightarrow> block_address \<Rightarrow> (('d, 't) udp_ctx, unit) sm" where
  "udp_handle_closing D blk =
     bnd (tr (read_status D blk)) (\<lambda>sr.
     if sr = SrClosed then
       bnd (gets (\<lambda>c. udp_status (proto c))) (\<lambda>st.
       case st of
         ClosingDueToError \<Rightarrow> set_udp_status StError
       | ClosingDueToTimeout \<Rightarrow> set_udp_status StTimeout
       | Closing \<Rightarrow> set_udp_status Closed
       | _ \<Rightarrow> panic)
     else ret ())"

subsection \<open>The tick\<close>

definition udp_dispatch ::
  "('d, 't) spi_dma_device \<Rightarrow> block_address \<Rightarrow> (('d, 't) udp_ctx, bulk_action) sm" where
  "udp_dispatch D blk c =
     (if udp_close_requested (proto c) then mapr ActNone (udp_handle_close D blk) c
      else
        (case udp_status (proto c) of
           StInit \<Rightarrow> mapr ActNone (udp_handle_init D blk) c
         | Opening \<Rightarrow> mapr ActNone (udp_handle_opening D blk) c
         | Established \<Rightarrow> udp_handle_established D blk c
         | ClosingDueToError \<Rightarrow> mapr ActNone (udp_handle_closing D blk) c
         | ClosingDueToTimeout \<Rightarrow> mapr ActNone (udp_handle_closing D blk) c
         | Closing \<Rightarrow> mapr ActNone (udp_handle_closing D blk) c
         | Connecting \<Rightarrow> ret ActNone c
         | Listening \<Rightarrow> ret ActNone c
         | StTimeout \<Rightarrow> ret ActNone c
         | Closed \<Rightarrow> ret ActNone c
         | StError \<Rightarrow> ret ActNone c))"

definition udp_run ::
  "('d, 't) spi_dma_device \<Rightarrow> block_address \<Rightarrow> (('d, 't) udp_ctx, bulk_action) sm" where
  "udp_run D blk c =
     (case udp_dispatch D blk c of
        (Ok action, c') \<Rightarrow> (Ok action, c')
      | (Err WouldBlock, c') \<Rightarrow> (Err WouldBlock, c')
      | (Err (Other e), c') \<Rightarrow>
          (Ok ActNone, c'\<lparr>proto := (proto c')\<lparr>udp_pending_error := Some (Other e)\<rparr>\<rparr>)
      | (Panic, c') \<Rightarrow> (Panic, c'))"

subsection \<open>The handle's data path\<close>

text \<open>
  The two loops of \<^verbatim>\<open>recv_from\<close> spin until the ring has yielded enough bytes: \<open>None\<close> is a
  loop that never ends. The outer \<open>option\<close> of \<open>udp_recv_from\<close> is that one, the inner the
  \<^verbatim>\<open>Option\<close> of the source; its bytes are those copied to the front of \<^verbatim>\<open>dst\<close>.
\<close>

partial_function (option) recv_copy ::
  "nat \<Rightarrow> bytes \<Rightarrow> spsc_ring \<Rightarrow> (bytes res \<times> spsc_ring) option" where
  "recv_copy n copied r =
     (if length copied < n then
        (case ring_read (n - length copied) r of
           (Ok ys, r') \<Rightarrow> recv_copy n (copied @ ys) r'
         | (Err e, r') \<Rightarrow> Some (Err e, r')
         | (Panic, r') \<Rightarrow> Some (Panic, r'))
      else Some (Ok copied, r))"

partial_function (option) recv_discard ::
  "nat \<Rightarrow> spsc_ring \<Rightarrow> (unit res \<times> spsc_ring) option" where
  "recv_discard discard r =
     (if discard > 0 then
        (case ring_read (min discard 64) r of
           (Ok ys, r') \<Rightarrow> recv_discard (discard - length ys) r'
         | (Err e, r') \<Rightarrow> Some (Err e, r')
         | (Panic, r') \<Rightarrow> Some (Panic, r'))
      else Some (Ok (), r))"

declare recv_copy.simps [code] recv_discard.simps [code]

definition udp_recv_from ::
  "nat \<Rightarrow> spsc_ring \<Rightarrow> ((bytes \<times> socket_addr) option res \<times> spsc_ring) option" where
  "udp_recv_from dst_len r =
     (if ring_frames r = 0 then Some (Ok None, r)
      else
        (case read_head r of
           (Ok h, r1) \<Rightarrow>
             (case parse_frame_header h of (payload_len, peer) \<Rightarrow>
             let n = min payload_len dst_len in
             (case recv_copy n [] r1 of
                None \<Rightarrow> None
              | Some (Ok out, r2) \<Rightarrow>
                  (case recv_discard (payload_len - n) r2 of
                     None \<Rightarrow> None
                   | Some (Ok _, r3) \<Rightarrow> Some (Ok (Some (out, peer)), release_frame r3)
                   | Some (Err e, r3) \<Rightarrow> Some (Err e, r3)
                   | Some (Panic, r3) \<Rightarrow> Some (Panic, r3))
              | Some (Err e, r2) \<Rightarrow> Some (Err e, r2)
              | Some (Panic, r2) \<Rightarrow> Some (Panic, r2)))
         | (Err e, r1) \<Rightarrow> Some (Err e, r1)
         | (Panic, r1) \<Rightarrow> Some (Panic, r1)))"

definition udp_send_to :: "bytes \<Rightarrow> socket_addr \<Rightarrow> (spsc_ring, nat) sm" where
  "udp_send_to src dst =
     bnd ring_free (\<lambda>free.
     let need = FRAME_HEADER + length src in
     if free < need then ret 0
     else
       bnd (ring_write (frame_header (of_nat (length src)) dst)) (\<lambda>_.
       bnd (ring_write src) (\<lambda>_.
       bnd (modify commit_frame) (\<lambda>_.
       ret (length src)))))"

subsection \<open>Framing as a queue of datagrams\<close>

lemma length_frame_header [simp]: "length (frame_header len a) = FRAME_HEADER"
  by (simp add: frame_header_def FRAME_HEADER_def)

lemma parse_frame: "parse_frame_header (frame_header len a) = (unat len, a)"
  by (simp add: parse_frame_header_def frame_header_def)

type_synonym datagram = "socket_addr \<times> bytes"

definition frame :: "datagram \<Rightarrow> bytes" where
  "frame d = frame_header (of_nat (length (snd d))) (fst d) @ snd d"

definition framed :: "datagram list \<Rightarrow> bytes" where
  "framed ds = concat (map frame ds)"

definition sendable :: "datagram \<Rightarrow> bool" where
  "sendable d \<longleftrightarrow> length (snd d) < 2 ^ 16"

definition udp_ring :: "datagram list \<Rightarrow> spsc_ring \<Rightarrow> bool" where
  "udp_ring ds r \<longleftrightarrow> ring_inv r \<and> contents r = framed ds \<and> ring_frames r = of_nat (length ds) \<and>
     (\<forall>d \<in> set ds. sendable d)"

lemma framed_simps [simp]:
  "framed [] = []" "framed (d # ds) = frame d @ framed ds" "framed (ds @ es) = framed ds @ framed es"
  by (simp_all add: framed_def)

lemma length_frame [simp]: "length (frame d) = FRAME_HEADER + length (snd d)"
  by (simp add: frame_def)

lemma length_framed: "FRAME_HEADER * length ds \<le> length (framed ds)"
  by (induction ds) auto

lemma ring_len_bound: "ring_len r < 2 ^ 32"
  unfolding ring_len_def by (rule order.strict_trans2 [OF unsigned_less]) simp

lemma udp_ring_len: "udp_ring ds r \<Longrightarrow> ring_len r = length (framed ds)"
  by (metis length_contents udp_ring_def)

lemma udp_ring_frames: "udp_ring ds r \<Longrightarrow> ring_frames r = 0 \<longleftrightarrow> ds = []"
proof -
  assume r: "udp_ring ds r"
  have "ring_len r = length (framed ds)"
    using r length_contents [of r] by (simp add: udp_ring_def)
  then have "length ds < 2 ^ 32"
    using length_framed [of ds] ring_len_bound [of r] by (simp add: FRAME_HEADER_def)
  then show ?thesis using r by (auto simp: udp_ring_def unat_eq_zero [symmetric] take_bit_nat_eq_self unsigned_of_nat)
qed

text \<open>The abstract queue: a send is accepted when its frame fits, a receive truncates.\<close>

definition dq_send :: "nat \<Rightarrow> bytes \<Rightarrow> socket_addr \<Rightarrow> datagram list \<Rightarrow> nat \<times> datagram list" where
  "dq_send n src a ds =
     (if length (framed ds) + FRAME_HEADER + length src \<le> n then (length src, ds @ [(a, src)]) else (0, ds))"

fun dq_recv :: "nat \<Rightarrow> datagram list \<Rightarrow> (bytes \<times> socket_addr) option \<times> datagram list" where
  "dq_recv k [] = (None, [])"
| "dq_recv k (d # ds) = (Some (take k (snd d), fst d), ds)"

lemma ring_frames_counters [simp]:
  "ring_frames (commit_frame r) = ring_frames r + 1" "ring_frames (release_frame r) = ring_frames r - 1"
  by (simp_all add: commit_frame_def release_frame_def ring_frames_def)

lemma udp_send_to_any:
  assumes "udp_ring ds r" "length src < 2 ^ 16 \<or> cap r < FRAME_HEADER + length src"
  shows "\<exists>r'. udp_send_to src a r = (Ok (fst (dq_send (cap r) src a ds)), r') \<and>
    udp_ring (snd (dq_send (cap r) src a ds)) r' \<and> cap r' = cap r"
proof -
  have inv: "ring_inv r" and len: "length (framed ds) + free_space r = cap r"
    using assms(1) ring.fifo_room [of r] length_contents [of r] by (auto simp: udp_ring_def)
  have free: "ring_free r = (Ok (free_space r), r)" by (simp add: ring_free_spec ring_inv_ok inv)
  show ?thesis
  proof (cases "FRAME_HEADER + length src \<le> free_space r")
    case False
    then show ?thesis using assms(1) free len
      by (auto simp: udp_send_to_def bnd_def ret_def dq_send_def)
  next
    case True
    let ?h = "frame_header (of_nat (length src)) a"
    obtain r1 r2 where w: "ring_write ?h r = (Ok (length ?h), r1)" "ring_write src r1 = (Ok (length src), r2)"
      "contents r2 = contents r @ ?h @ src" "ring_inv r2" "cap r2 = cap r"
      using ring.write_twice [OF inv, of ?h src] True by auto
    have "ring_frames r2 = ring_frames r"
      using ring_write_frames [OF w(1)] ring_write_frames [OF w(2)] by (simp add: ring_frames_def)
    moreover have "length src < 2 ^ 16" using assms(2) True len by linarith
    ultimately have "udp_ring (ds @ [(a, src)]) (commit_frame r2)"
      using w(3,4) assms(1) by (auto simp: udp_ring_def frame_def sendable_def)
    then show ?thesis using True free len w(1,2,5)
      by (auto simp: udp_send_to_def bnd_def ret_def modify_def dq_send_def)
  qed
qed

lemmas udp_send_to_spec = udp_send_to_any [OF _ disjI1]

lemma recv_copy_spec:
  assumes "ring_inv r" "contents r = xs @ ys"
  shows "\<exists>r'. recv_copy (length xs) [] r = Some (Ok xs, r') \<and> contents r' = ys \<and> ring_inv r' \<and>
    cap r' = cap r \<and> ring_frames r' = ring_frames r"
proof (cases "xs = []")
  case True
  then show ?thesis using assms by (simp add: recv_copy.simps [of 0])
next
  case False
  obtain r' where r': "ring_read (length xs) r = (Ok xs, r')" "contents r' = ys" "ring_inv r'" "cap r' = cap r"
    using ring.read_prefix [OF assms] by blast
  have "recv_copy (length xs) xs r' = Some (Ok xs, r')" by (simp add: recv_copy.simps [of "length xs" xs])
  then have "recv_copy (length xs) [] r = Some (Ok xs, r')"
    using False r'(1) by (simp add: recv_copy.simps [of "length xs" "[]"])
  then show ?thesis using r'(2-4) ring_read_frames [OF r'(1)] by (simp add: ring_frames_def)
qed

lemma recv_discard_spec:
  assumes "ring_inv r" "contents r = xs @ ys"
  shows "\<exists>r'. recv_discard (length xs) r = Some (Ok (), r') \<and> contents r' = ys \<and> ring_inv r' \<and>
    cap r' = cap r \<and> ring_frames r' = ring_frames r"
  using assms
proof (induction "length xs" arbitrary: xs r rule: less_induct)
  case less
  show ?case
  proof (cases "xs = []")
    case True
    then show ?thesis using less.prems by (simp add: recv_discard.simps [of 0])
  next
    case False
    let ?k = "min (length xs) 64"
    have split: "contents r = take ?k xs @ drop ?k xs @ ys"
      using less.prems(2) by (metis append.assoc append_take_drop_id)
    have k: "length (take ?k xs) = ?k" by simp
    obtain r1 where r1: "ring_read ?k r = (Ok (take ?k xs), r1)" "contents r1 = drop ?k xs @ ys"
      "ring_inv r1" "cap r1 = cap r"
      using ring.read_prefix [OF less.prems(1) split] unfolding k by blast
    have "length (drop ?k xs) < length xs" using False by (simp add: min_def)
    from less.hyps [OF this r1(3,2)] obtain r2 where r2:
      "recv_discard (length (drop ?k xs)) r1 = Some (Ok (), r2)" "contents r2 = ys" "ring_inv r2"
      "cap r2 = cap r1" "ring_frames r2 = ring_frames r1"
      by blast
    have "recv_discard (length xs) r = recv_discard (length xs - ?k) r1"
      using False r1(1) by (simp add: recv_discard.simps [of "length xs"])
    then show ?thesis using r1 r2 ring_read_frames [OF r1(1)] by (simp add: ring_frames_def)
  qed
qed

lemma read_head_frame:
  assumes "ring_inv r" "contents r = frame d @ ys"
  shows "\<exists>r'. read_head r = (Ok (frame_header (of_nat (length (snd d))) (fst d)), r') \<and>
    contents r' = snd d @ ys \<and> ring_inv r' \<and> cap r' = cap r \<and> ring_frames r' = ring_frames r"
proof -
  let ?h = "frame_header (of_nat (length (snd d))) (fst d)"
  have "contents r = ?h @ snd d @ ys" using assms(2) by (simp add: frame_def)
  from ring.read_prefix [OF assms(1) this] obtain r' where r': "ring_read FRAME_HEADER r = (Ok ?h, r')"
    "contents r' = snd d @ ys" "ring_inv r'" "cap r' = cap r"
    by auto
  then show ?thesis using ring_read_frames [OF r'(1)]
    by (simp add: read_head_def bnd_def ret_def copy_at_def ring_frames_def)
qed

lemma peek_head_frame:
  assumes "ring_inv r" "contents r = frame d @ ys"
  shows "peek_head r = (Ok (frame_header (of_nat (length (snd d))) (fst d)), r)"
  using ring.fifo_peek [OF assms(1), of FRAME_HEADER] assms(2)
  by (simp add: peek_head_def bnd_def ret_def copy_at_def frame_def)

lemma sendable_len: "sendable d \<Longrightarrow> unat (of_nat (length (snd d)) :: u16) = length (snd d)"
  by (simp add: sendable_def unsigned_of_nat take_bit_nat_eq_self)

lemma udp_recv_from_spec:
  assumes "udp_ring ds r"
  shows "\<exists>r'. udp_recv_from k r = Some (Ok (fst (dq_recv k ds)), r') \<and> udp_ring (snd (dq_recv k ds)) r' \<and>
    cap r' = cap r"
proof (cases ds)
  case Nil
  then show ?thesis using assms udp_ring_frames [OF assms] by (simp add: udp_recv_from_def)
next
  case (Cons d ds')
  have inv: "ring_inv r" "contents r = frame d @ framed ds'" "sendable d" "ring_frames r \<noteq> 0"
    using assms udp_ring_frames [OF assms] Cons by (auto simp: udp_ring_def)
  obtain r1 where r1: "read_head r = (Ok (frame_header (of_nat (length (snd d))) (fst d)), r1)"
    "contents r1 = snd d @ framed ds'" "ring_inv r1" "cap r1 = cap r" "ring_frames r1 = ring_frames r"
    using read_head_frame [OF inv(1,2)] by blast
  let ?n = "min (length (snd d)) k"
  have split: "contents r1 = take ?n (snd d) @ drop ?n (snd d) @ framed ds'" using r1(2) by simp
  obtain r2 where r2: "recv_copy ?n [] r1 = Some (Ok (take ?n (snd d)), r2)"
    "contents r2 = drop ?n (snd d) @ framed ds'" "ring_inv r2" "cap r2 = cap r1" "ring_frames r2 = ring_frames r1"
  proof -
    have "length (take ?n (snd d)) = ?n" by simp
    with recv_copy_spec [OF r1(3) split] that show ?thesis by metis
  qed
  obtain r3 where r3: "recv_discard (length (snd d) - ?n) r2 = Some (Ok (), r3)"
    "contents r3 = framed ds'" "ring_inv r3" "cap r3 = cap r2" "ring_frames r3 = ring_frames r2"
    using recv_discard_spec [OF r2(3,2)] by auto
  have short: "take ?n (snd d) = take k (snd d)" by (simp add: min_def)
  have "udp_ring ds' (release_frame r3)"
    using assms Cons r1 r2 r3 by (simp add: udp_ring_def)
  then show ?thesis
    using r1 r2 r3 inv(3,4) Cons short
    by (simp add: udp_recv_from_def parse_frame sendable_len Let_def)
qed


text \<open>A history of handle calls, and the same history on the abstract queue.\<close>

datatype dgram_op = SendTo bytes socket_addr | RecvFrom nat

datatype dgram_result = Sent nat | Received "(bytes \<times> socket_addr) option"

fun dgram_run :: "dgram_op list \<Rightarrow> spsc_ring \<Rightarrow> (dgram_result list \<times> spsc_ring) option" where
  "dgram_run [] r = Some ([], r)"
| "dgram_run (SendTo src a # ops) r =
     (case udp_send_to src a r of
        (Ok n, r') \<Rightarrow> map_option (\<lambda>(out, r''). (Sent n # out, r'')) (dgram_run ops r')
      | _ \<Rightarrow> None)"
| "dgram_run (RecvFrom k # ops) r =
     (case udp_recv_from k r of
        Some (Ok x, r') \<Rightarrow> map_option (\<lambda>(out, r''). (Received x # out, r'')) (dgram_run ops r')
      | _ \<Rightarrow> None)"

fun dq_run :: "nat \<Rightarrow> dgram_op list \<Rightarrow> datagram list \<Rightarrow> dgram_result list \<times> datagram list" where
  "dq_run n [] ds = ([], ds)"
| "dq_run n (SendTo src a # ops) ds =
     (case dq_send n src a ds of (k, ds') \<Rightarrow>
      case dq_run n ops ds' of (out, ds'') \<Rightarrow> (Sent k # out, ds''))"
| "dq_run n (RecvFrom k # ops) ds =
     (case dq_recv k ds of (x, ds') \<Rightarrow>
      case dq_run n ops ds' of (out, ds'') \<Rightarrow> (Received x # out, ds''))"

text \<open>A payload that the ring can hold has a length of 16 bits: no condition up to a capacity of 64 KB.\<close>

definition small_op :: "nat \<Rightarrow> dgram_op \<Rightarrow> bool" where
  "small_op N op = (case op of SendTo src _ \<Rightarrow> length src < 2 ^ 16 \<or> N < FRAME_HEADER + length src | RecvFrom _ \<Rightarrow> True)"

lemma small_op_64k: "N < FRAME_HEADER + 2 ^ 16 \<Longrightarrow> small_op N op"
  by (cases op) (auto simp: small_op_def)

lemma dgram_run_spec:
  assumes "udp_ring ds r" "\<forall>op \<in> set ops. small_op (cap r) op"
  shows "\<exists>r'. dgram_run ops r = Some (fst (dq_run (cap r) ops ds), r') \<and>
    udp_ring (snd (dq_run (cap r) ops ds)) r' \<and> cap r' = cap r"
  using assms
proof (induction ops arbitrary: ds r)
  case Nil
  then show ?case by simp
next
  case (Cons op ops)
  show ?case
  proof (cases op)
    case (SendTo src a)
    then obtain r1 where "udp_send_to src a r = (Ok (fst (dq_send (cap r) src a ds)), r1)"
      "udp_ring (snd (dq_send (cap r) src a ds)) r1" "cap r1 = cap r"
      using udp_send_to_any [OF Cons.prems(1), of src a] Cons.prems(2) by (auto simp: small_op_def)
    with Cons.IH [of "snd (dq_send (cap r) src a ds)" r1] Cons.prems(2) SendTo show ?thesis
      by (auto split: prod.splits)
  next
    case (RecvFrom k)
    obtain r1 where "udp_recv_from k r = Some (Ok (fst (dq_recv k ds)), r1)"
      "udp_ring (snd (dq_recv k ds)) r1" "cap r1 = cap r"
      using udp_recv_from_spec [OF Cons.prems(1), of k] by blast
    with Cons.IH [of "snd (dq_recv k ds)" r1] Cons.prems(2) RecvFrom show ?thesis
      by (auto split: prod.splits)
  qed
qed


subsection \<open>What a tick does\<close>

inductive udp_edge :: "socket_status \<Rightarrow> socket_status \<Rightarrow> bool" where
  udp_stay: "udp_edge s s"
| udp_opens: "udp_edge StInit Opening"
| udp_bound: "udp_edge Opening Established"
| udp_failed: "udp_edge Opening ClosingDueToError"
| udp_closing: "s \<in> {StInit, Opening, Connecting, Listening, Established} \<Longrightarrow> udp_edge s Closing"
| udp_closed_error: "udp_edge ClosingDueToError StError"
| udp_closed_timeout: "udp_edge ClosingDueToTimeout StTimeout"
| udp_closed: "udp_edge Closing Closed"

inductive_simps udp_edge_simps [simp]:
  "udp_edge StInit t" "udp_edge Opening t" "udp_edge Connecting t" "udp_edge Listening t"
  "udp_edge Established t" "udp_edge ClosingDueToError t" "udp_edge ClosingDueToTimeout t"
  "udp_edge Closing t" "udp_edge StTimeout t" "udp_edge StError t" "udp_edge Closed t"

definition udp_ready :: "nat \<Rightarrow> datagram list \<Rightarrow> datagram list \<Rightarrow> ('d, 't) udp_ctx \<Rightarrow> bool" where
  "udp_ready L rds tds c \<longleftrightarrow> idle L (trans c) \<and> udp_ring rds (rx (rings c)) \<and> udp_ring tds (tx (rings c))"

text \<open>What the machine's own state does in a tick.\<close>

definition udp_frame :: "('d, 't) udp_ctx \<Rightarrow> ('d, 't) udp_ctx \<Rightarrow> bool" where
  "udp_frame c c' \<longleftrightarrow>
     udp_src_port (proto c') = udp_src_port (proto c) \<and>
     udp_pending_error (proto c') = udp_pending_error (proto c) \<and>
     \<not> udp_close_requested (proto c') \<and>
     udp_edge (udp_status (proto c)) (udp_status (proto c')) \<and>
     cap (rx (rings c')) = cap (rx (rings c)) \<and> cap (tx (rings c')) = cap (tx (rings c))"

text \<open>The only datagram a tick itself delivers is an empty one.\<close>

definition delivers :: "datagram list \<Rightarrow> spsc_ring \<Rightarrow> bool" where
  "delivers rds q \<longleftrightarrow> udp_ring rds q \<or> (\<exists>a. udp_ring (rds @ [(a, [])]) q)"

text \<open>
  What a tick that did not fail did: nothing asynchronous (and perhaps sent an empty
  datagram), or started a receive that fits the ring with its frame header, or started to
  send exactly the oldest datagram.
\<close>

definition udp_action ::
  "('d, 't) spi_dma_device \<Rightarrow> nat \<Rightarrow> datagram list \<Rightarrow> ('d, 't) udp_ctx \<Rightarrow> bulk_action \<Rightarrow> ('d, 't) udp_ctx \<Rightarrow> bool" where
  "udp_action D L tds c a c' = (case a of
     ActNone \<Rightarrow> idle L (trans c') \<and> (udp_ring tds (tx (rings c')) \<or>
       (\<exists>b tds'. tds = (b, []) # tds' \<and> udp_ring tds' (tx (rings c'))))
   | Started k p n \<Rightarrow> in_flight D L (trans c') \<and> 0 < n \<and> HEADER + n \<le> L \<and>
       udp_status (proto c') = Established \<and>
       (case k of
          BulkReceive \<Rightarrow> False
        | BulkReceiveDatagram _ _ \<Rightarrow> n < 2 ^ 11 \<and> FRAME_HEADER + n \<le> free_space (rx (rings c)) \<and> rings c' = rings c
        | BulkTransmit \<Rightarrow> \<exists>b data tds'. tds = (b, data) # tds' \<and> n = length data \<and> udp_ring tds' (tx (rings c'))))"

text \<open>
  What a tick that failed may leave of the transmit ring: the frame header of the oldest datagram is
  gone, and perhaps its payload too, and the datagram is still counted.
\<close>

definition torn :: "datagram list \<Rightarrow> spsc_ring \<Rightarrow> bool" where
  "torn tds q \<longleftrightarrow> (\<exists>d tds'. tds = d # tds' \<and> ring_frames q = of_nat (length tds) \<and>
     (contents q = snd d @ framed tds' \<or> contents q = framed tds'))"

definition udp_step_ok ::
  "('d, 't) spi_dma_device \<Rightarrow> nat \<Rightarrow> datagram list \<Rightarrow> datagram list \<Rightarrow> ('d, 't) udp_ctx \<Rightarrow>
     bulk_action res \<Rightarrow> ('d, 't) udp_ctx \<Rightarrow> bool" where
  "udp_step_ok D L rds tds c r c' \<longleftrightarrow> udp_frame c c' \<and> delivers rds (rx (rings c')) \<and>
     ring_inv (tx (rings c')) \<and> suffix (contents (tx (rings c'))) (framed tds) \<and>
     (case r of
        Ok a \<Rightarrow> udp_action D L tds c a c'
      | Err e \<Rightarrow> idle L (trans c') \<and> e \<noteq> WouldBlock \<and> (udp_ring tds (tx (rings c')) \<or> torn tds (tx (rings c')))
      | Panic \<Rightarrow> False)"

lemmas udp_simps = wp_rules set_udp_status_def upd_proto_def

lemma udp_ring_parts: "udp_ring ds r \<Longrightarrow> ring_inv r" "udp_ring ds r \<Longrightarrow> suffix (contents r) (framed ds)"
  by (simp_all add: udp_ring_def)

lemma udp_readyD:
  "udp_ready L rds tds c \<Longrightarrow> idle L (trans c) \<and> udp_ring rds (rx (rings c)) \<and> udp_ring tds (tx (rings c)) \<and>
     ring_inv (rx (rings c)) \<and> ring_inv (tx (rings c)) \<and> contents (tx (rings c)) = framed tds"
  by (simp add: udp_ready_def udp_ring_def)

context spi_contract
begin

lemma udp_quiet_handlers:
  assumes "udp_ready L rds tds c" "\<not> udp_close_requested (proto c)"
  shows
    "udp_status (proto c) = StInit \<Longrightarrow> wp (mapr ActNone (udp_handle_init D blk)) (udp_step_ok D L rds tds c) c"
    "udp_status (proto c) = Opening \<Longrightarrow> wp (mapr ActNone (udp_handle_opening D blk)) (udp_step_ok D L rds tds c) c"
    "udp_status (proto c) \<in> {ClosingDueToError, ClosingDueToTimeout, Closing} \<Longrightarrow>
       wp (mapr ActNone (udp_handle_closing D blk)) (udp_step_ok D L rds tds c) c"
  using udp_readyD [OF assms(1)] assms(2)
  unfolding udp_handle_init_def udp_handle_opening_def udp_handle_closing_def
  by (auto simp: udp_simps udp_step_ok_def udp_frame_def delivers_def udp_action_def intro!: wp_tr [of L] split: socket_status_register.splits)

lemma udp_handle_close_spec:
  assumes "udp_ready L rds tds c"
  shows "wp (mapr ActNone (udp_handle_close D blk)) (udp_step_ok D L rds tds c) c"
  using udp_readyD [OF assms(1)] unfolding udp_handle_close_def
  apply (cases "udp_status (proto c)")
  apply (auto simp: udp_simps udp_step_ok_def udp_frame_def delivers_def udp_action_def intro!: wp_tr [of L])
  done


lemma wp_udp_advance:
  assumes "idle L (trans c)"
    and "\<And>t. idle L t \<Longrightarrow> Q (Ok ()) (c\<lparr>trans := t\<rparr>)"
    and "\<And>t e. idle L t \<Longrightarrow> Q (Err (Other e)) (c\<lparr>trans := t\<rparr>)"
  shows "wp (udp_advance D blk p) Q c"
  using assms unfolding udp_advance_def by (auto simp: wp_rules intro!: wp_tr [of L])

lemma udp_commit_empty:
  assumes "udp_ring rds q" "FRAME_HEADER \<le> free_space q"
  shows "wp (ring_write (frame_header 0 a))
     (\<lambda>r q'. r = Ok FRAME_HEADER \<and> udp_ring (rds @ [(a, [])]) (commit_frame q') \<and> cap q' = cap q) q"
proof -
  have inv: "ring_inv q" and len: "length (frame_header 0 a) \<le> free_space q"
    using assms by (simp_all add: udp_ring_def)
  obtain q' where w: "ring_write (frame_header 0 a) q = (Ok (length (frame_header 0 a)), q')"
    "contents q' = contents q @ frame_header 0 a" "ring_inv q'" "cap q' = cap q"
    using ring.write_fits [OF inv len] by blast
  with assms(1) ring_write_frames [OF w(1)] show ?thesis
    by (auto simp: wp_def udp_ring_def frame_def ring_frames_def [of q] ring_frames_def [of q'] sendable_def)
qed

lemma wp_free: "ring_inv q \<Longrightarrow> wp ring_free Q q = Q (Ok (free_space q)) q"
  by (simp add: wp_def ring_free_spec ring_inv_ok)

lemma packinfo_len: "unat ((w :: u16) AND PACKINFO_LEN_MASK) < 2048"
proof -
  have "unat (w AND PACKINFO_LEN_MASK) \<le> unat PACKINFO_LEN_MASK"
    using word_and_le1 [of w PACKINFO_LEN_MASK] by (simp add: word_le_nat_alt)
  then show ?thesis by (simp add: PACKINFO_LEN_MASK_def)
qed

lemma udp_receive_spec:
  assumes "udp_ready L rds tds c" "udp_status (proto c) = Established"
  shows "wp (udp_receive D blk)
    (\<lambda>r c'. proto c' = proto c \<and> tx (rings c') = tx (rings c) \<and> cap (rx (rings c')) = cap (rx (rings c)) \<and>
       delivers rds (rx (rings c')) \<and>
       (case r of
          Ok ActNone \<Rightarrow> idle L (trans c')
        | Ok (Started k p n) \<Rightarrow> in_flight D L (trans c') \<and> 0 < n \<and> n < 2 ^ 11 \<and> HEADER + n \<le> L \<and>
            (\<exists>i q. k = BulkReceiveDatagram i q) \<and> FRAME_HEADER + n \<le> free_space (rx (rings c)) \<and> rings c' = rings c
        | Err e \<Rightarrow> idle L (trans c') \<and> e \<noteq> WouldBlock
        | Panic \<Rightarrow> False)) c"
  using udp_readyD [OF assms(1)] assms(2) unfolding udp_receive_def
  apply (auto simp: udp_simps Let_def delivers_def wp_on_rx wp_free packinfo_len
      intro!: wp_tr [of L] wp_udp_advance [of L] wp_start_read [of L] wp_mono [OF udp_commit_empty [of rds]])
  done


lemma release_first:
  assumes "udp_ring (d # ds) q" "contents q' = framed ds" "ring_inv q'" "ring_frames q' = ring_frames q"
  shows "udp_ring ds (release_frame q')"
  using assms by (simp add: udp_ring_def)

lemma wp_read_head:
  assumes "ring_inv q" "contents q = frame d @ ys"
    and "\<And>q'. contents q' = snd d @ ys \<Longrightarrow> ring_inv q' \<Longrightarrow> cap q' = cap q \<Longrightarrow>
       ring_frames q' = ring_frames q \<Longrightarrow> Q (Ok (frame_header (of_nat (length (snd d))) (fst d))) q'"
  shows "wp read_head Q q"
  using read_head_frame [OF assms(1,2)] assms(3) by (auto simp: wp_def)

lemma udp_transmit_spec:
  assumes "udp_ready L rds tds c" "udp_status (proto c) = Established"
  shows "wp (udp_transmit D blk)
    (\<lambda>r c'. proto c' = proto c \<and> rx (rings c') = rx (rings c) \<and> cap (tx (rings c')) = cap (tx (rings c)) \<and>
       ring_inv (tx (rings c')) \<and> suffix (contents (tx (rings c'))) (framed tds) \<and>
       (case r of
          Ok a \<Rightarrow> udp_action D L tds c a c' \<and> (\<forall>k p n. a = Started k p n \<longrightarrow> k = BulkTransmit)
        | Err e \<Rightarrow> idle L (trans c') \<and> e \<noteq> WouldBlock \<and> (udp_ring tds (tx (rings c')) \<or> torn tds (tx (rings c')))
        | Panic \<Rightarrow> False)) c"
proof (cases tds)
  case Nil
  then show ?thesis
    using udp_readyD [OF assms(1)] udp_ring_frames [of tds "tx (rings c)"]
    by (auto simp: udp_transmit_def udp_simps udp_action_def)
next
  case (Cons e ds)
  obtain b data where e: "e = (b, data)" by (cases e)
  define d where "d = (b, data)"
  have Cons: "tds = d # ds" using Cons e by (simp add: d_def)
  have d: "fst d = b" "snd d = data" by (simp_all add: d_def)
  note ready = udp_readyD [OF assms(1)]
  have tx: "ring_inv (tx (rings c))" "contents (tx (rings c)) = frame d @ framed ds" "sendable d"
    "ring_frames (tx (rings c)) \<noteq> 0"
    using ready udp_ring_frames [of tds "tx (rings c)"] Cons by (auto simp: udp_ring_def)
  have len: "unat (of_nat (length (snd d)) :: u16) = length (snd d)" by (rule sendable_len [OF tx(3)])
  have peek: "wp peek_head Q (tx (rings c)) =
      Q (Ok (frame_header (of_nat (length (snd d))) (fst d))) (tx (rings c))" for Q
    using peek_head_frame [OF tx(1,2)] by (simp add: wp_def)
  have released: "udp_ring ds (release_frame q')"
    if "contents q' = framed ds" "ring_inv q'" "ring_frames q' = ring_frames (tx (rings c))" for q'
    using release_first [of d ds "tx (rings c)" q'] ready Cons that by simp
  have sfx: "suffix (drop k (snd d @ framed ds)) (frame d @ framed ds)" for k
    using suffix_drop [of "FRAME_HEADER + k" "frame d @ framed ds"]
    by (simp add: frame_def flip: drop_drop)
  have torn: "torn ((b, data) # ds) q'"
    if "ring_frames q' = ring_frames (tx (rings c))" "contents q' = data @ framed ds \<or> contents q' = framed ds" for q'
    using that ready Cons by (auto simp: torn_def udp_ring_def d_def)
  have torn': "torn ((b, []) # ds) q'" if "data = []" "ring_frames q' = ring_frames (tx (rings c))" "contents q' = framed ds" for q'
    using torn [of q'] that by simp
  have room: "length (snd d) \<le> ring_len q" if "contents q = snd d @ framed ds" for q
    using length_contents [of q] that by simp
  show ?thesis
    using ready tx(4) assms(2) Cons sfx [of 0] sfx [of "length (snd d)"] unfolding udp_transmit_def
    apply (auto simp: udp_simps wp_on_tx peek parse_frame len len [unfolded d] udp_action_def d
        intro!: wp_tr [of L] wp_read_head [where d = d and ys = "framed ds"] wp_start_tx [of L])
    apply (auto simp: torn torn' d_def len [unfolded d] released room [unfolded d] sfx [unfolded d_def, simplified])
    done
qed


lemma udp_handle_established_spec:
  assumes "udp_ready L rds tds c" "udp_status (proto c) = Established" "\<not> udp_close_requested (proto c)"
  shows "wp (udp_handle_established D blk) (udp_step_ok D L rds tds c) c"
proof -
  have moved: "wp (bnd (udp_receive D blk) (\<lambda>action. case action of Started _ _ _ \<Rightarrow> ret action
      | ActNone \<Rightarrow> udp_transmit D blk)) (udp_step_ok D L rds tds c) (c\<lparr>trans := t\<rparr>)" if "idle L t" for t
  proof -
    let ?c = "c\<lparr>trans := t\<rparr>"
    have c: "udp_ready L rds tds ?c" "udp_status (proto ?c) = Established"
      using assms that by (simp_all add: udp_ready_def)
    show ?thesis
      unfolding wp_bnd
  proof (rule wp_mono [OF udp_receive_spec [OF c]], goal_cases)
    case (1 r c1)
    note 3 = 1
    note ready = udp_readyD [OF assms(1)]
    show ?case
    proof (cases r)
      case (Ok a)
      show ?thesis
      proof (cases a)
        case ActNone
        obtain rds1 where rds1: "udp_ready L rds1 tds c1" "delivers rds (rx (rings c1))"
          using 3 Ok ActNone ready by (auto simp: udp_ready_def delivers_def)
        have "udp_status (proto c1) = Established" using 3 assms(2) by simp
        from udp_transmit_spec [OF rds1(1) this, of blk]
        have "wp (udp_transmit D blk) (udp_step_ok D L rds tds c) c1"
          apply (rule wp_mono)
          using 3 assms(2,3) rds1(2)
          by (auto simp: udp_step_ok_def udp_frame_def udp_action_def split: res.splits bulk_action.splits
              bulk_kind.splits)
        then show ?thesis using Ok ActNone by simp
      next
        case (Started k p n)
        then show ?thesis using 3 Ok assms(2,3) ready
          by (auto simp: wp_ret udp_step_ok_def udp_frame_def udp_action_def)
      qed
    next
      case (Err e)
      then show ?thesis using 3 assms(2,3) ready by (simp add: udp_step_ok_def udp_frame_def)
    next
      case Panic
      then show ?thesis using 3 by simp
    qed
  qed
  qed
  show ?thesis
    unfolding udp_handle_established_def
    using udp_readyD [OF assms(1)] assms(2,3)
    apply (auto simp: wp_bnd [of "tr (get_interrupts D blk)"] wp_bnd [of "tr (clear_interrupts D blk TIMEOUT)"]
        moved udp_step_ok_def udp_frame_def delivers_def intro!: wp_tr [of L])
    done
qed


lemma udp_dispatch_spec:
  assumes "udp_ready L rds tds c"
  shows "wp (udp_dispatch D blk) (udp_step_ok D L rds tds c) c"
proof (cases "udp_close_requested (proto c)")
  case True
  then show ?thesis using udp_handle_close_spec [OF assms, of blk]
    by (simp add: wp_def udp_dispatch_def)
next
  case False
  have stay: "wp (ret ActNone) (udp_step_ok D L rds tds c) c"
    using udp_readyD [OF assms] False
    by (simp add: wp_ret udp_step_ok_def udp_frame_def delivers_def udp_action_def udp_stay)
  have "wp (udp_dispatch D blk) (udp_step_ok D L rds tds c) c = wp (case udp_status (proto c) of
           StInit \<Rightarrow> mapr ActNone (udp_handle_init D blk)
         | Opening \<Rightarrow> mapr ActNone (udp_handle_opening D blk)
         | Established \<Rightarrow> udp_handle_established D blk
         | ClosingDueToError \<Rightarrow> mapr ActNone (udp_handle_closing D blk)
         | ClosingDueToTimeout \<Rightarrow> mapr ActNone (udp_handle_closing D blk)
         | Closing \<Rightarrow> mapr ActNone (udp_handle_closing D blk)
         | _ \<Rightarrow> ret ActNone) (udp_step_ok D L rds tds c) c"
    using False by (simp add: wp_def udp_dispatch_def split: socket_status.splits)
  then show ?thesis
    by (cases "udp_status (proto c)")
      (simp_all add: stay udp_quiet_handlers udp_handle_established_spec False assms)
qed

text \<open>The tick: always \<open>Ok\<close>; a failure is stored, and only then may the transmit ring lose its framing.\<close>

lemma udp_run_spec:
  assumes "udp_ready L rds tds c" "udp_run D blk c = (r, c')"
  shows "\<exists>a. r = Ok a \<and> delivers rds (rx (rings c')) \<and>
    ring_inv (tx (rings c')) \<and> suffix (contents (tx (rings c'))) (framed tds) \<and>
    cap (rx (rings c')) = cap (rx (rings c)) \<and> cap (tx (rings c')) = cap (tx (rings c)) \<and>
    udp_src_port (proto c') = udp_src_port (proto c) \<and> \<not> udp_close_requested (proto c') \<and>
    udp_edge (udp_status (proto c)) (udp_status (proto c')) \<and>
    (case fst (udp_dispatch D blk c) of
       Err e \<Rightarrow> a = ActNone \<and> idle L (trans c') \<and> udp_pending_error (proto c') = Some e \<and>
         (udp_ring tds (tx (rings c')) \<or> torn tds (tx (rings c')))
     | _ \<Rightarrow> udp_action D L tds c a c' \<and> udp_pending_error (proto c') = udp_pending_error (proto c))"
proof -
  obtain r1 c1 where d: "udp_dispatch D blk c = (r1, c1)" by (cases "udp_dispatch D blk c") auto
  have "udp_step_ok D L rds tds c r1 c1" using wpD [OF udp_dispatch_spec [OF assms(1)] d] .
  then show ?thesis using assms(2) d
    by (cases r1) (auto simp: udp_run_def udp_step_ok_def udp_frame_def split: error.splits)
qed

end


text \<open>Even without framing a tick is safe: the machine meets the contract the layers above rely on.\<close>

context spi_contract
begin

lemma wp_read_head_any:
  assumes "ring_inv q" "\<And>q' h. ring_inv q' \<Longrightarrow> cap q' = cap q \<Longrightarrow> Q (Ok h) q'"
  shows "wp read_head Q q"
  unfolding read_head_def wp_bnd
  by (rule ring.read_wp [OF assms(1)]) (auto simp: wp_ret assms(2))

lemma wp_peek_head_any:
  assumes "ring_inv q" "\<And>h. Q (Ok h) q"
  shows "wp peek_head Q q"
  using ring.fifo_peek [OF assms(1)] assms(2) by (simp add: peek_head_def wp_def bnd_def ret_def)

lemma wp_ring_write_any:
  assumes "ring_inv q" "\<And>q' n. ring_inv q' \<Longrightarrow> cap q' = cap q \<Longrightarrow> Q (Ok n) q'"
  shows "wp (ring_write xs) Q q"
  by (rule ring.write_wp [OF assms(1)]) (auto simp: assms(2))

lemmas udp_tick_rules = wp_tr wp_udp_advance wp_start_read wp_start_tx

lemma udp_receive_safe:
  assumes "idle L (trans c)" "rings_inv (rings c)"
  shows "wp (udp_receive D blk)
    (\<lambda>r c'. tick_ok D L c r c' \<and> proto c' = proto c) c"
  using assms unfolding udp_receive_def rings_inv_def
  by (auto simp: udp_simps Let_def wp_on_rx wp_free tick_ok_def bulk_ok_def rings_inv_def FRAME_HEADER_def
      intro!: udp_tick_rules [of L] wp_ring_write_any)

lemma udp_transmit_safe:
  assumes "idle L (trans c)" "rings_inv (rings c)"
  shows "wp (udp_transmit D blk)
    (\<lambda>r c'. tick_ok D L c r c' \<and> proto c' = proto c) c"
  using assms unfolding udp_transmit_def rings_inv_def
  by (auto simp: udp_simps Let_def wp_on_tx tick_ok_def bulk_ok_def rings_inv_def
      intro!: udp_tick_rules [of L] wp_peek_head_any wp_read_head_any split: prod.splits)


lemma udp_established_safe:
  assumes "idle L (trans c)" "rings_inv (rings c)"
  shows "wp (udp_handle_established D blk) (\<lambda>r c'. tick_ok D L c r c' \<and> proto c' = proto c) c"
proof -
  have moved: "wp (bnd (udp_receive D blk) (\<lambda>action. case action of Started _ _ _ \<Rightarrow> ret action
      | ActNone \<Rightarrow> udp_transmit D blk)) (\<lambda>r c'. tick_ok D L c r c' \<and> proto c' = proto c) (c\<lparr>trans := t\<rparr>)" if "idle L t" for t
    unfolding wp_bnd
  proof (rule wp_mono [OF udp_receive_safe [of L]], goal_cases)
    case (3 r c1)
    show ?case
    proof (cases r)
      case (Ok a)
      show ?thesis
      proof (cases a)
        case ActNone
        have "idle L (trans c1)" "rings_inv (rings c1)" using 3 Ok ActNone by (auto simp: tick_ok_def bulk_ok_def)
        from udp_transmit_safe [OF this, of blk] have "wp (udp_transmit D blk) (\<lambda>r c'. tick_ok D L c r c' \<and> proto c' = proto c) c1"
          by (rule wp_mono) (use 3 in \<open>auto simp: tick_ok_def\<close>)
        then show ?thesis using Ok ActNone by simp
      qed (use 3 Ok in \<open>auto simp: wp_ret tick_ok_def\<close>)
    qed (use 3 in \<open>auto simp: tick_ok_def\<close>)
  qed (use assms that in simp_all)
  have err: "tick_ok D L c (Err (Other e)) (c\<lparr>trans := t\<rparr>)" if "idle L t" for e t
    using assms(2) that by (simp add: tick_ok_def)
  show ?thesis
    unfolding udp_handle_established_def using assms
    by (auto simp: wp_bnd [of "tr (get_interrupts D blk)"] wp_bnd [of "tr (clear_interrupts D blk TIMEOUT)"]
        moved err intro!: wp_tr [of L])
qed

lemma udp_dispatch_safe:
  assumes "idle L (trans c)" "rings_inv (rings c)"
  shows "wp (udp_dispatch D blk) (\<lambda>r c'. tick_ok D L c r c' \<and> (\<forall>k p n. r = Ok (Started k p n) \<longrightarrow> \<not> udp_is_closed (proto c'))) c"
proof (cases "\<not> udp_close_requested (proto c) \<and> udp_status (proto c) = Established")
  case True
  have "wp (udp_handle_established D blk) (\<lambda>r c'. tick_ok D L c r c' \<and> (\<forall>k p n. r = Ok (Started k p n) \<longrightarrow> \<not> udp_is_closed (proto c'))) c"
    by (rule wp_mono [OF udp_established_safe [OF assms, of blk]]) (use True in \<open>auto simp: udp_is_closed_def\<close>)
  with True show ?thesis by (simp add: wp_def udp_dispatch_def)
next
  case False
  have *: "wp (udp_dispatch D blk) (\<lambda>r c'. tick_ok D L c r c' \<and> (\<forall>k p n. r = Ok (Started k p n) \<longrightarrow> \<not> udp_is_closed (proto c'))) c =
    wp (if udp_close_requested (proto c) then mapr ActNone (udp_handle_close D blk)
        else case udp_status (proto c) of
           StInit \<Rightarrow> mapr ActNone (udp_handle_init D blk)
         | Opening \<Rightarrow> mapr ActNone (udp_handle_opening D blk)
         | ClosingDueToError \<Rightarrow> mapr ActNone (udp_handle_closing D blk)
         | ClosingDueToTimeout \<Rightarrow> mapr ActNone (udp_handle_closing D blk)
         | Closing \<Rightarrow> mapr ActNone (udp_handle_closing D blk)
         | _ \<Rightarrow> ret ActNone) (\<lambda>r c'. tick_ok D L c r c' \<and> (\<forall>k p n. r = Ok (Started k p n) \<longrightarrow> \<not> udp_is_closed (proto c'))) c"
    using False by (auto simp: wp_def udp_dispatch_def split: socket_status.splits)
  show ?thesis unfolding * using assms
    by (cases "udp_status (proto c)")
      (auto simp: udp_handle_close_def udp_handle_init_def udp_handle_opening_def udp_handle_closing_def
        udp_simps tick_ok_def bulk_ok_def intro!: wp_tr [of L] split: socket_status_register.splits)
qed

end

sublocale spi_contract \<subseteq> udp: socket_machine D "udp_run D" udp_is_closed
proof unfold_locales
  fix L c blk r c' assume idle: "idle L (trans c)" "rings_inv (rings c)" and run: "udp_run D blk c = (r, c')"
  obtain r1 c1 where d: "udp_dispatch D blk c = (r1, c1)" by (cases "udp_dispatch D blk c") auto
  have "tick_ok D L c r1 c1" using wpD [OF udp_dispatch_safe [OF idle] d] by blast
  then show "tick_ok D L c r c' \<and> (\<exists>a. r = Ok a)" using run d
    by (cases r1) (auto simp: udp_run_def tick_ok_def bulk_ok_def split: error.splits)
next
  fix L c blk k p n c'
  assume idle: "idle L (trans c)" "rings_inv (rings c)" and run: "udp_run D blk c = (Ok (Started k p n), c')"
  obtain r1 c1 where d: "udp_dispatch D blk c = (r1, c1)" by (cases "udp_dispatch D blk c") auto
  with wpD [OF udp_dispatch_safe [OF idle] d] run show "\<not> udp_is_closed (proto c')"
    by (cases r1) (auto simp: udp_run_def split: error.splits)
qed

subsection \<open>Properties\<close>

text \<open>
  C11. The handle's data path refines a queue of datagrams. Whatever sequence of \<^verbatim>\<open>send_to\<close> and
  \<^verbatim>\<open>recv_from\<close> is run on a framed ring, every call ends, none panics or fails, and the results
  are those of the abstract queue: whole datagrams in order, with their peers, truncated to
  the caller's buffer, and a send refused exactly when its frame does not fit. The length field
  of a frame has 16 bits, so a payload of 64 KB or more must be longer than the ring can hold;
  on a ring of less than 64 KB and a frame header every sequence qualifies.
\<close>

theorem udp_refines_datagram_queue:
  assumes "udp_ring ds r" "\<forall>op \<in> set ops. small_op (cap r) op"
  shows "\<exists>r'. dgram_run ops r = Some (fst (dq_run (cap r) ops ds), r') \<and>
    udp_ring (snd (dq_run (cap r) ops ds)) r' \<and> cap r' = cap r"
  by (rule dgram_run_spec [OF assms])

lemma udp_ring_installed: "length b = 0 \<or> length b dvd 2 ^ 32 \<Longrightarrow> length b < 2 ^ 32 \<Longrightarrow> udp_ring [] (ring_install b ring_new)"
  using ring_inv_install [of b ring_new] ring_install_spec [of b ring_new]
  by (auto simp: udp_ring_def ring_frames_def ring_install_def ring_new_def ring_len_def)

theorem udp_refines_datagram_queue_witness:
  "(\<exists>r'. dgram_run [SendTo [1, 2, 3] \<lparr>ip = 7, port = 9\<rparr>, SendTo [4, 5, 6, 7, 8, 9] \<lparr>ip = 7, port = 9\<rparr>, RecvFrom 2, RecvFrom 2]
      (ring_install (replicate 16 0) ring_new) =
    Some ([Sent 3, Sent 0, Received (Some ([1, 2], \<lparr>ip = 7, port = 9\<rparr>)), Received None], r'))"
proof -
  let ?r = "ring_install (replicate 16 0) ring_new"
  let ?ops = "[SendTo [1, 2, 3] \<lparr>ip = 7, port = 9\<rparr>, SendTo [4, 5, 6, 7, 8, 9] \<lparr>ip = 7, port = 9\<rparr>, RecvFrom 2, RecvFrom 2]"
  have r: "udp_ring [] ?r" by (rule udp_ring_installed) simp_all
  have c: "cap ?r = 16" by (simp add: ring_install_def)
  have ops: "\<forall>op \<in> set ?ops. small_op (cap ?r) op" using c by (simp add: small_op_64k FRAME_HEADER_def)
  have "fst (dq_run 16 ?ops []) =
      [Sent 3, Sent 0, Received (Some ([1, 2], \<lparr>ip = 7, port = 9\<rparr>)), Received None]"
    by (simp add: dq_send_def FRAME_HEADER_def)
  with udp_refines_datagram_queue [OF r ops] show ?thesis unfolding c by metis
qed

text \<open>
  C12. The UDP tick, from an idle bus and framed rings. It never panics, blocks or fails, and the
  receive ring stays framed (at most an empty datagram was delivered). A tick of which no step
  failed leaves the stored error alone and keeps datagrams whole: a started receive fits the
  receive ring together with its frame header, a started transmit sends exactly the oldest
  datagram, and what is left of the transmit ring is framed. A tick with a failed step stores that
  error, leaves the bus idle, and either the transmit ring is as it was or its oldest datagram is
  torn: the frame header is gone, perhaps the payload too, and the frame is still counted.
\<close>

theorem udp_tick_sound:
  assumes "spi_contract D" "idle L (trans c)" "udp_ring rds (rx (rings c))" "udp_ring tds (tx (rings c))"
    and "udp_run D blk c = (r, c')"
  shows "\<exists>a. r = Ok a \<and>
    (udp_ring rds (rx (rings c')) \<or> (\<exists>peer. udp_ring (rds @ [(peer, [])]) (rx (rings c')))) \<and> ring_inv (tx (rings c')) \<and>
    udp_edge (udp_status (proto c)) (udp_status (proto c')) \<and> \<not> udp_close_requested (proto c') \<and>
    (case fst (udp_dispatch D blk c) of
       Err e \<Rightarrow> a = ActNone \<and> idle L (trans c') \<and> udp_pending_error (proto c') = Some e \<and>
         (udp_ring tds (tx (rings c')) \<or> torn tds (tx (rings c')))
     | _ \<Rightarrow> udp_pending_error (proto c') = udp_pending_error (proto c) \<and>
     (case a of
        ActNone \<Rightarrow> idle L (trans c') \<and> (udp_ring tds (tx (rings c')) \<or>
          (\<exists>peer tds'. tds = (peer, []) # tds' \<and> udp_ring tds' (tx (rings c'))))
      | Started k p n \<Rightarrow> in_flight D L (trans c') \<and> 0 < n \<and> HEADER + n \<le> L \<and>
          (case k of
             BulkReceive \<Rightarrow> False
           | BulkReceiveDatagram _ _ \<Rightarrow>
               n < 2 ^ 11 \<and> FRAME_HEADER + n \<le> free_space (rx (rings c)) \<and> rings c' = rings c
           | BulkTransmit \<Rightarrow>
               \<exists>peer data tds'. tds = (peer, data) # tds' \<and> n = length data \<and> udp_ring tds' (tx (rings c')))))"
proof -
  have "udp_ready L rds tds c" using assms(2-4) by (simp add: udp_ready_def)
  from spi_contract.udp_run_spec [OF assms(1) this assms(5)] obtain a where
    a: "r = Ok a" "delivers rds (rx (rings c'))" "ring_inv (tx (rings c'))"
      "udp_edge (udp_status (proto c)) (udp_status (proto c'))" "\<not> udp_close_requested (proto c')"
    and act: "case fst (udp_dispatch D blk c) of
       Err e \<Rightarrow> a = ActNone \<and> idle L (trans c') \<and> udp_pending_error (proto c') = Some e \<and>
         (udp_ring tds (tx (rings c')) \<or> torn tds (tx (rings c')))
     | _ \<Rightarrow> udp_action D L tds c a c' \<and> udp_pending_error (proto c') = udp_pending_error (proto c)"
    by blast
  show ?thesis
    by (intro exI [of _ a] conjI a(1) a(2) [unfolded delivers_def] a(3-5))
      (use act in \<open>auto simp: udp_action_def split: res.splits bulk_action.splits bulk_kind.splits\<close>)
qed

theorem udp_tick_sound_witness:
  "\<exists>c'. udp_run mock (socket_block 0) \<lparr>trans = mock_rig 8, rings = rings_new, proto = udp_bind 80\<rparr>
     = (Ok ActNone, c') \<and> udp_status (proto c') = Opening \<and> idle 8 (trans c')"
proof -
  let ?c = "\<lparr>trans = mock_rig 8, rings = rings_new, proto = udp_bind 80\<rparr>"
  obtain r c' where run: "udp_run mock (socket_block 0) ?c = (r, c')"
    by (cases "udp_run mock (socket_block 0) ?c") auto
  have run': "(case udp_run mock (socket_block 0) ?c of (r, c') \<Rightarrow>
      r = Ok ActNone \<and> udp_status (proto c') = Opening)" by code_simp
  have new: "udp_ring [] ring_new"
    using ring_inv_new by (simp add: udp_ring_def) (simp add: ring_frames_def ring_new_def ring_len_def)
  have "idle 8 (trans ?c)" "udp_ring [] (rx (rings ?c))" "udp_ring [] (tx (rings ?c))"
    using new by (simp_all add: mock_rig_idle rings_new_def)
  from udp_tick_sound [OF mock.spi_contract_axioms this run] run run' show ?thesis by (auto split: res.splits)
qed

text \<open>C22. A frame header parses back to the length and the peer it was built from.\<close>

theorem frame_header_roundtrip:
  "parse_frame_header (frame_header len a) = (unat len, a)"
  by (rule parse_frame)

text \<open>
  An empty datagram cannot be told from a full ring: \<^verbatim>\<open>send_to\<close> answers \<open>Ok 0\<close> both when it
  queued the datagram and when it had to be retried, so a caller that retries on 0 queues
  the datagram again and again.
\<close>

lemma udp_send_empty_ambiguous:
  assumes "udp_ring ds r"
  shows "\<exists>r'. udp_send_to [] a r = (Ok 0, r') \<and>
    udp_ring (if FRAME_HEADER \<le> free_space r then ds @ [(a, [])] else ds) r'"
proof -
  have "free_space r + length (framed ds) = cap r"
    using assms ring.fifo_room [of r] by (auto simp: udp_ring_def)
  then have "length (framed ds) + FRAME_HEADER \<le> cap r \<longleftrightarrow> FRAME_HEADER \<le> free_space r" by linarith
  then show ?thesis using udp_send_to_spec [OF assms, of "[]" a] by (auto simp: dq_send_def)
qed

text \<open>
  A payload of 64 KB or more on a ring that has the room for it is accepted, but its frame header
  holds the length modulo \<open>2 ^ 16\<close>: the ring is no longer framed.
\<close>

lemma udp_send_truncates_length:
  assumes "udp_ring ds r" "FRAME_HEADER + length src \<le> free_space r"
  shows "\<exists>r' h. udp_send_to src a r = (Ok (length src), r') \<and> contents r' = framed ds @ h @ src \<and>
    parse_frame_header h = (length src mod 2 ^ 16, a)"
proof -
  let ?h = "frame_header (of_nat (length src)) a"
  have inv: "ring_inv r" "contents r = framed ds" using assms(1) by (simp_all add: udp_ring_def)
  obtain r1 r2 where w: "ring_write ?h r = (Ok (length ?h), r1)" "ring_write src r1 = (Ok (length src), r2)"
    "contents r2 = contents r @ ?h @ src" "ring_inv r2" "cap r2 = cap r"
    using ring.write_twice [OF inv(1), of ?h src] assms(2) by auto
  have "ring_free r = (Ok (free_space r), r)" by (simp add: ring_free_spec ring_inv_ok inv(1))
  then show ?thesis using w inv(2) assms(2)
    by (intro exI [of _ "commit_frame r2"] exI [of _ ?h])
      (simp add: udp_send_to_def bnd_def ret_def modify_def parse_frame unat_of_nat)
qed

text \<open>
  C27. A bus error while a datagram is being sent breaks the framing. The frame header leaves the
  ring before the destination is programmed; when that fails the frame is neither put back
  nor released. The ring then starts with payload, the frame count still counts the lost
  datagram, and the next tick parses the payload as a header.
\<close>

theorem udp_transmit_error_breaks_framing:
  assumes "udp_ring ((b, data) # ds) (tx (rings c))"
    "get_tx_free_size D blk (trans c) = (Ok free, t1)" "length data \<le> unat free"
    "set_ipv4_dst_addr D blk (ip b) t1 = (Err e, t2)"
  shows "\<exists>q. udp_transmit D blk c = (Err e, c\<lparr>trans := t2, rings := (rings c)\<lparr>tx := q\<rparr>\<rparr>) \<and>
    contents q = data @ framed ds \<and> ring_frames q = of_nat (Suc (length ds))"
proof -
  let ?d = "(b, data)"
  have tx: "ring_inv (tx (rings c))" "contents (tx (rings c)) = frame ?d @ framed ds" "sendable ?d"
    "ring_frames (tx (rings c)) \<noteq> 0"
    using assms(1) udp_ring_frames [OF assms(1)] by (auto simp: udp_ring_def)
  have len: "unat (of_nat (length data) :: u16) = length data" using sendable_len [OF tx(3)] by simp
  obtain q where q: "read_head (tx (rings c)) = (Ok (frame_header (of_nat (length data)) b), q)"
    "contents q = data @ framed ds" "ring_frames q = ring_frames (tx (rings c))"
    using read_head_frame [OF tx(1,2)] by auto
  have "peek_head (tx (rings c)) = (Ok (frame_header (of_nat (length data)) b), tx (rings c))"
    using peek_head_frame [OF tx(1,2)] by simp
  then have "udp_transmit D blk c = (Err e, c\<lparr>trans := t2, rings := (rings c)\<lparr>tx := q\<rparr>\<rparr>)"
    using tx(4) assms(2-4) q(1)
    by (simp add: udp_transmit_def bnd_def gets_def on_tx_def zoom_def parse_frame len tr_def)
  then show ?thesis using q(2,3) assms(1) by (intro exI [of _ q]) (simp add: udp_ring_def)
qed

theorem udp_transmit_error_breaks_framing_witness:
  "\<exists>q. snd (udp_transmit flaky (socket_block 0) \<lparr>trans = flaky_rig 1 16, rings = rings_new\<lparr>tx :=
        snd (udp_send_to [1, 2, 3] \<lparr>ip = 1, port = 2\<rparr> (ring_install (replicate 16 0) ring_new))\<rparr>, proto = udp_bind 9\<rparr>)
      = q \<and> contents (tx (rings q)) = [1, 2, 3] \<and> ring_frames (tx (rings q)) = 1"
proof -
  let ?a = "\<lparr>ip = 1, port = 2\<rparr>" and ?r = "ring_install (replicate 16 0) ring_new"
  let ?q = "snd (udp_send_to [1, 2, 3] ?a ?r)"
  let ?c = "\<lparr>trans = flaky_rig 1 16, rings = rings_new\<lparr>tx := ?q\<rparr>, proto = udp_bind 9\<rparr>"
  have r: "udp_ring [] ?r" by (rule udp_ring_installed) simp_all
  have "cap ?r = 16" by (simp add: ring_install_def)
  then have ring: "udp_ring [(?a, [1, 2, 3])] (tx (rings ?c))"
    using udp_send_to_spec [OF r, of "[1, 2, 3]" ?a] by (auto simp: dq_send_def FRAME_HEADER_def)
  let ?g = "get_tx_free_size flaky (socket_block 0) (trans ?c)"
  let ?s = "set_ipv4_dst_addr flaky (socket_block 0) (ip ?a) (snd ?g)"
  have "fst ?g = Ok 0x0304" by code_simp
  then have g: "?g = (Ok 0x0304, snd ?g)" by (metis prod.collapse)
  have "fst ?s = Err (Other SpiError)" by code_simp
  then have s: "?s = (Err (Other SpiError), snd ?s)" by (metis prod.collapse)
  have "length [1, 2, 3 :: u8] \<le> unat (0x0304 :: u16)" by simp
  from udp_transmit_error_breaks_framing [OF ring g this s] show ?thesis by auto
qed

text \<open>
  A datagram longer than the scratch buffer has the same effect, without any error of the bus: nothing
  ties the size of the transmit ring to that of the scratch buffer, and the header is drained
  before the transfer is refused.
\<close>

lemma udp_transmit_overrun_breaks_framing:
  assumes "udp_ring ((b, data) # ds) (tx (rings c))" "data \<noteq> []" "L < HEADER + length data" "idle L t4"
    "get_tx_free_size D blk (trans c) = (Ok free, t1)" "length data \<le> unat free"
    "set_ipv4_dst_addr D blk (ip b) t1 = (Ok (), t2)" "set_dst_port D blk (port b) t2 = (Ok (), t3)"
    "get_tx_write_pointer D blk t3 = (Ok ptr, t4)"
  shows "\<exists>q. udp_transmit D blk c = (Err (Other ScratchBufferOverrun), c\<lparr>trans := t4, rings := (rings c)\<lparr>tx := q\<rparr>\<rparr>) \<and>
    contents q = data @ framed ds \<and> ring_frames q = of_nat (Suc (length ds))"
proof -
  let ?d = "(b, data)"
  have tx: "ring_inv (tx (rings c))" "contents (tx (rings c)) = frame ?d @ framed ds" "sendable ?d"
    "ring_frames (tx (rings c)) \<noteq> 0"
    using assms(1) udp_ring_frames [OF assms(1)] by (auto simp: udp_ring_def)
  have len: "unat (of_nat (length data) :: u16) = length data" using sendable_len [OF tx(3)] by simp
  obtain q where q: "read_head (tx (rings c)) = (Ok (frame_header (of_nat (length data)) b), q)"
    "contents q = data @ framed ds" "ring_frames q = ring_frames (tx (rings c))"
    using read_head_frame [OF tx(1,2)] by auto
  have "peek_head (tx (rings c)) = (Ok (frame_header (of_nat (length data)) b), tx (rings c))"
    using peek_head_frame [OF tx(1,2)] by simp
  moreover have "start_write D a (length data) drain_tx (t4, q) = (Err (Other ScratchBufferOverrun), (t4, q))" for a
    using assms(3,4) by (auto simp: start_write_def idle_def good_bufs_def)
  ultimately have "udp_transmit D blk c = (Err (Other ScratchBufferOverrun), c\<lparr>trans := t4, rings := (rings c)\<lparr>tx := q\<rparr>\<rparr>)"
    using tx(4) assms(2,5-9) q(1)
    by (simp add: udp_transmit_def bnd_def gets_def on_tx_def zoom_def parse_frame len tr_def start_tx_from_ring_def start_write_tx_buffer_def)
  then show ?thesis using q(2,3) assms(1) by (intro exI [of _ q]) (simp add: udp_ring_def)
qed

end
