(* ===== verification/Socket_Backend.thy ===== *)
theory Socket_Backend
  imports Tcp_Socket Udp_Socket
begin

text \<open>
  A socket slot (\<^verbatim>\<open>wiznet-rs/src/socket.rs\<close>): the protocol machine that occupies it, if any, and
  its life cycle from claim to release. The tick of a slot again meets the contract of a
  protocol machine, which is what the driver's loop over the slots is proved from.
\<close>

subsection \<open>State\<close>

datatype backend_state = BFree | BTcp tcp_socket_state | BUdp udp_socket_state

record socket_backend =
  bk_block :: block_address
  bk_state :: backend_state
  release_requested :: bool

record socket =
  backend :: "socket_backend atomic_cell"
  sock_rings :: socket_rings

definition backend_new :: "block_address \<Rightarrow> socket_backend" where
  "backend_new blk = \<lparr>bk_block = blk, bk_state = BFree, release_requested = False\<rparr>"

definition is_free :: "socket_backend \<Rightarrow> bool" where
  "is_free b \<longleftrightarrow> bk_state b = BFree"

definition claim_tcp :: "tcp_socket_state \<Rightarrow> socket_backend \<Rightarrow> bool \<times> socket_backend" where
  "claim_tcp t b =
     (if \<not> is_free b then (False, b)
      else (True, b\<lparr>bk_state := BTcp t, release_requested := False\<rparr>))"

definition claim_udp :: "udp_socket_state \<Rightarrow> socket_backend \<Rightarrow> bool \<times> socket_backend" where
  "claim_udp u b =
     (if \<not> is_free b then (False, b)
      else (True, b\<lparr>bk_state := BUdp u, release_requested := False\<rparr>))"

fun request_close_state :: "backend_state \<Rightarrow> backend_state" where
  "request_close_state (BTcp t) = BTcp (tcp_request_close t)"
| "request_close_state (BUdp u) = BUdp (udp_request_close u)"
| "request_close_state BFree = BFree"

definition request_release :: "socket_backend \<Rightarrow> socket_backend" where
  "request_release b = b\<lparr>release_requested := True, bk_state := request_close_state (bk_state b)\<rparr>"

fun terminal_state :: "backend_state \<Rightarrow> bool" where
  "terminal_state BFree = True"
| "terminal_state (BTcp t) = tcp_is_closed t"
| "terminal_state (BUdp u) = udp_is_closed u"

definition is_terminal :: "socket_backend \<Rightarrow> bool" where
  "is_terminal b = terminal_state (bk_state b)"

subsection \<open>Operations\<close>

type_synonym ('d, 't) backend_ctx = "('d, 't, socket_backend) ctx"

text \<open>Run a protocol machine on the state inside the slot.\<close>

definition on_machine ::
  "(block_address \<Rightarrow> (('d, 't, 'p) ctx, bulk_action) sm) \<Rightarrow> 'p \<Rightarrow> ('p \<Rightarrow> backend_state) \<Rightarrow>
     (('d, 't) backend_ctx, bulk_action) sm" where
  "on_machine run p put c =
     (case run (bk_block (proto c)) \<lparr>trans = trans c, rings = rings c, proto = p\<rparr> of
        (r, c') \<Rightarrow> (r, \<lparr>trans = trans c', rings = rings c',
                         proto = (proto c)\<lparr>bk_state := put (proto c')\<rparr>\<rparr>))"

definition drive ::
  "('d, 't) spi_dma_device \<Rightarrow> (('d, 't) backend_ctx, bulk_action) sm" where
  "drive D c =
     (case bk_state (proto c) of
        BFree \<Rightarrow> (Ok ActNone, c)
      | BTcp t \<Rightarrow> on_machine (tcp_run D) t BTcp c
      | BUdp u \<Rightarrow> on_machine (udp_run D) u BUdp c)"

text \<open>The slot is freed when its release was requested and teardown is done.\<close>

definition free_if_released :: "socket_backend \<Rightarrow> socket_backend" where
  "free_if_released b =
     (if release_requested b \<and> is_terminal b then b\<lparr>bk_state := BFree, release_requested := False\<rparr> else b)"

definition backend_run ::
  "('d, 't) spi_dma_device \<Rightarrow> (('d, 't) backend_ctx, bulk_action) sm" where
  "backend_run D c = (case drive D c of (r, c') \<Rightarrow> (r, c'\<lparr>proto := free_if_released (proto c')\<rparr>))"

fun rearm_state :: "backend_state \<Rightarrow> backend_state" where
  "rearm_state (BTcp t) = BTcp (tcp_rearm t)"
| "rearm_state (BUdp u) = BUdp (udp_rearm u)"
| "rearm_state BFree = BFree"

definition reset_state :: "socket_backend \<Rightarrow> socket_backend" where
  "reset_state b =
     (if release_requested b then b\<lparr>bk_state := BFree, release_requested := False\<rparr>
      else b\<lparr>bk_state := rearm_state (bk_state b)\<rparr>)"

definition backend_reset ::
  "('d, 't) spi_dma_device \<Rightarrow> (('d, 't) transceiver \<times> socket_backend, unit) sm" where
  "backend_reset D =
     (\<lambda>(t, b). case init_socket D (bk_block b) MODE_CLOSED t of
        (Ok _, t') \<Rightarrow> (Ok (), (t', reset_state b))
      | (Err e, t') \<Rightarrow> (Err e, (t', b))
      | (Panic, t') \<Rightarrow> (Panic, (t', b)))"

subsection \<open>The tick of a slot\<close>

lemma tick_ok_machine:
  assumes "tick_ok D L \<lparr>trans = t, rings = q, proto = p\<rparr> r c'"
  shows "tick_ok D L \<lparr>trans = t, rings = q, proto = b\<rparr> r \<lparr>trans = trans c', rings = rings c', proto = b'\<rparr>"
  using assms by (auto simp: tick_ok_def bulk_ok_def split: res.splits bulk_action.splits)

lemma tick_ok_proto: "tick_ok D L c r (c'\<lparr>proto := p\<rparr>) = tick_ok D L c r c'"
  by (auto simp: tick_ok_def bulk_ok_def split: res.splits bulk_action.splits)

lemma drive_kind:
  assumes "drive D c = (r, c')"
  shows "bk_block (proto c') = bk_block (proto c) \<and> release_requested (proto c') = release_requested (proto c) \<and>
    (bk_state (proto c') = BFree \<longleftrightarrow> bk_state (proto c) = BFree)"
  using assms by (auto simp: drive_def on_machine_def split: backend_state.splits prod.splits)

text \<open>Running a machine inside the slot gives what the machine alone gives.\<close>

context socket_machine
begin

lemma on_machine_ok:
  assumes "idle L (trans c)" "rings_inv (rings c)" "on_machine run p put c = (r, c')"
  shows "tick_ok D L c r c' \<and> (\<exists>a. r = Ok a) \<and>
    (\<forall>k q n. r = Ok (Started k q n) \<longrightarrow> (\<exists>p'. bk_state (proto c') = put p' \<and> \<not> closed p'))"
proof -
  let ?c = "\<lparr>trans = trans c, rings = rings c, proto = p\<rparr>"
  obtain c1 where run: "run (bk_block (proto c)) ?c = (r, c1)"
    and c': "c' = \<lparr>trans = trans c1, rings = rings c1, proto = (proto c)\<lparr>bk_state := put (proto c1)\<rparr>\<rparr>"
    using assms(3) by (cases "run (bk_block (proto c)) ?c") (auto simp: on_machine_def)
  have "tick_ok D L ?c r c1 \<and> (\<exists>a. r = Ok a)" using tick [OF _ _ run] assms by simp
  moreover have "\<not> closed (proto c1)" if "r = Ok (Started k q n)" for k q n
    using started_open [OF _ _ run [unfolded that]] assms by simp
  ultimately show ?thesis
    using tick_ok_machine [of D L "trans c" "rings c" p r c1 "proto c"] c'
    by (cases c) auto
qed

end

context spi_contract
begin

lemma drive_ok:
  assumes "idle L (trans c)" "rings_inv (rings c)" "drive D c = (r, c')"
  shows "tick_ok D L c r c' \<and> (\<exists>a. r = Ok a) \<and>
    (\<forall>k q n. r = Ok (Started k q n) \<longrightarrow> \<not> terminal_state (bk_state (proto c')))"
proof (cases "bk_state (proto c)")
  case BFree
  then show ?thesis using assms by (auto simp: drive_def tick_ok_def bulk_ok_def)
next
  case (BTcp t)
  then show ?thesis using tcp.on_machine_ok [OF assms(1,2), of t BTcp r c'] assms(3)
    by (auto simp: drive_def)
next
  case (BUdp u)
  then show ?thesis using udp.on_machine_ok [OF assms(1,2), of u BUdp r c'] assms(3)
    by (auto simp: drive_def)
qed

end

lemma backend_run_drive:
  "backend_run D c = (r, c') \<Longrightarrow> \<exists>c1. drive D c = (r, c1) \<and> c' = c1\<lparr>proto := free_if_released (proto c1)\<rparr>"
  by (cases "drive D c") (auto simp: backend_run_def)

lemma backend_run_block: "backend_run D c = (r, c') \<Longrightarrow> bk_block (proto c') = bk_block (proto c)"
  by (auto simp: free_if_released_def dest!: backend_run_drive drive_kind)

sublocale spi_contract \<subseteq> slot: socket_machine D "\<lambda>_. backend_run D" is_terminal
proof unfold_locales
  fix L c r c' assume a: "idle L (trans c)" "rings_inv (rings c)" "backend_run D c = (r, c')"
  from backend_run_drive [OF a(3)] drive_ok [OF a(1,2)]
  show "tick_ok D L c r c' \<and> (\<exists>x. r = Ok x)" by (auto simp: tick_ok_proto)
next
  fix L c k p n c' assume a: "idle L (trans c)" "rings_inv (rings c)" "backend_run D c = (Ok (Started k p n), c')"
  from backend_run_drive [OF a(3)] drive_ok [OF a(1,2)]
  show "\<not> is_terminal (proto c')" by (auto simp: is_terminal_def free_if_released_def)
qed

subsection \<open>Properties\<close>

text \<open>
  C19. A slot belongs to its handle until the handle gives it up. A tick keeps the block
  selectors; an occupied slot becomes free only if its release had been requested and its
  machine has terminated, and then the request is cleared; a free slot stays free.
\<close>

theorem slot_freed_only_after_release:
  assumes "backend_run D c = (r, c')"
  shows "bk_block (proto c') = bk_block (proto c) \<and>
    (bk_state (proto c) = BFree \<longrightarrow> bk_state (proto c') = BFree) \<and>
    (bk_state (proto c) \<noteq> BFree \<and> bk_state (proto c') = BFree \<longrightarrow>
       release_requested (proto c) \<and> \<not> release_requested (proto c') \<and>
       (\<exists>c1. drive D c = (r, c1) \<and> is_terminal (proto c1))) \<and>
    (bk_state (proto c') \<noteq> BFree \<longrightarrow> release_requested (proto c') = release_requested (proto c))"
proof -
  obtain c1 where d: "drive D c = (r, c1)" "c' = c1\<lparr>proto := free_if_released (proto c1)\<rparr>"
    using assms by (auto simp: backend_run_def split: prod.splits)
  from drive_kind [OF d(1)] d show ?thesis
    by (auto simp: free_if_released_def)
qed

theorem slot_freed_only_after_release_witness:
  "(let c = \<lparr>trans = mock_rig 8, rings = rings_new,
        proto = request_release (snd (claim_udp ((udp_bind 53)\<lparr>udp_status := StError\<rparr>) (backend_new (socket_block 3))))\<rparr>
    in bk_state (proto (snd (backend_run mock c))) = BFree \<and> release_requested (proto c))"
proof -
  let ?c = "\<lparr>trans = mock_rig 8, rings = rings_new,
        proto = request_release (snd (claim_udp ((udp_bind 53)\<lparr>udp_status := StError\<rparr>) (backend_new (socket_block 3))))\<rparr>"
  have freed: "bk_state (proto ?c) \<noteq> BFree" "bk_state (proto (snd (backend_run mock ?c))) = BFree"
    by (simp add: request_release_def claim_udp_def backend_new_def is_free_def) code_simp
  have "backend_run mock ?c = (fst (backend_run mock ?c), snd (backend_run mock ?c))" by simp
  from slot_freed_only_after_release [OF this] freed show ?thesis by (simp add: Let_def)
qed

lemma rearm_facts [simp]:
  "tcp_mode (tcp_rearm s) = tcp_mode s" "tcp_reported_status (tcp_rearm s) = StInit" "\<not> tcp_close_requested (tcp_rearm s)"
  "udp_src_port (udp_rearm u) = udp_src_port u" "udp_reported_status (udp_rearm u) = StInit" "\<not> udp_close_requested (udp_rearm u)"
  by (simp_all add: tcp_rearm_def udp_rearm_def tcp_reported_status_def udp_reported_status_def)

text \<open>
  C20. A reset re-arms or releases. When the chip-side reset of the slot succeeds, a slot whose
  release was requested is free again; otherwise its machine is back at \<^verbatim>\<open>Init\<close> with no
  stored error and no pending close, its mode or port unchanged. When it fails the slot is
  as before.
\<close>

theorem backend_reset_outcome:
  assumes "backend_reset D (t, b) = (r, (t', b'))"
  shows "bk_block b' = bk_block b \<and>
    (if r = Ok () then
       \<not> release_requested b' \<and>
       (case bk_state b of
          BFree \<Rightarrow> bk_state b' = BFree
        | BTcp s \<Rightarrow> if release_requested b then bk_state b' = BFree
            else \<exists>s'. bk_state b' = BTcp s' \<and> tcp_mode s' = tcp_mode s \<and> tcp_reported_status s' = StInit \<and> \<not> tcp_close_requested s'
        | BUdp s \<Rightarrow> if release_requested b then bk_state b' = BFree
            else \<exists>s'. bk_state b' = BUdp s' \<and> udp_src_port s' = udp_src_port s \<and> udp_reported_status s' = StInit \<and> \<not> udp_close_requested s')
     else b' = b)"
proof (cases "init_socket D (bk_block b) MODE_CLOSED t")
  case (Pair r1 t1)
  show ?thesis
    by (cases r1; cases "bk_state b")
      (use assms Pair in \<open>auto simp: backend_reset_def reset_state_def split: if_splits\<close>)
qed

theorem backend_reset_outcome_witness:
  "(case backend_reset mock (mock_rig 8,
       (snd (claim_tcp ((tcp_listen 80)\<lparr>tcp_status := StTimeout\<rparr>) (backend_new (socket_block 2))))) of
      (r, (t', b')) \<Rightarrow> r = Ok () \<and> (\<exists>s'. bk_state b' = BTcp s' \<and> tcp_reported_status s' = StInit \<and> tcp_mode s' = ModeListen 80))"
proof -
  let ?b = "snd (claim_tcp ((tcp_listen 80)\<lparr>tcp_status := StTimeout\<rparr>) (backend_new (socket_block 2)))"
  obtain r t' b' where run: "backend_reset mock (mock_rig 8, ?b) = (r, (t', b'))"
    by (metis prod_cases3)
  have "fst (backend_reset mock (mock_rig 8, ?b)) = Ok ()" by code_simp
  then show ?thesis using backend_reset_outcome [OF run] run
    by (auto simp: claim_tcp_def backend_new_def is_free_def tcp_listen_def)
qed

text \<open>
  C26. A request to release can be lost. If the bus fails while the \<^verbatim>\<open>CLOSE\<close> for it is being issued,
  the machine has already forgotten the request: the tick reports no error, the slot is
  still occupied with the status unchanged, and no later tick will close it, although the
  release flag is still set and waits for a terminal status.
\<close>

theorem release_lost_on_bus_error:
  assumes "bk_state (proto c) = BTcp s" "tcp_close_requested s" "release_requested (proto c)"
    "tcp_status s \<in> {StInit, Opening, Connecting, Listening}"
    "send_sock_command D (bk_block (proto c)) Close (trans c) = (Err (Other e), t')"
  shows "backend_run D c = (Ok ActNone, c\<lparr>trans := t', proto := (proto c)\<lparr>bk_state :=
      BTcp (s\<lparr>tcp_close_requested := False, tcp_pending_error := Some (Other e)\<rparr>)\<rparr>\<rparr>)"
  using assms
  by (cases c) (auto simp: backend_run_def drive_def on_machine_def tcp_run_def tcp_dispatch_def mapr_def
      tcp_handle_close_def bnd_def upd_proto_def modify_def gets_def tr_def zoom_def
      free_if_released_def is_terminal_def tcp_is_closed_def)

theorem release_lost_on_bus_error_witness:
  "\<exists>c'. backend_run flaky \<lparr>trans = flaky_rig 0 8, rings = rings_new,
        proto = request_release (snd (claim_tcp (tcp_listen 80) (backend_new (socket_block 1))))\<rparr> = (Ok ActNone, c') \<and>
     bk_state (proto c') = BTcp ((tcp_listen 80)\<lparr>tcp_pending_error := Some (Other SpiError)\<rparr>) \<and> release_requested (proto c')"
proof -
  let ?b = "request_release (snd (claim_tcp (tcp_listen 80) (backend_new (socket_block 1))))"
  let ?c = "\<lparr>trans = flaky_rig 0 8, rings = rings_new, proto = ?b\<rparr>"
  let ?s = "(tcp_listen 80)\<lparr>tcp_close_requested := True\<rparr>"
  have b: "bk_state (proto ?c) = BTcp ?s" "release_requested (proto ?c)"
    by (simp_all add: request_release_def claim_tcp_def backend_new_def is_free_def tcp_request_close_def)
  have s: "tcp_close_requested ?s" "tcp_status ?s \<in> {StInit, Opening, Connecting, Listening}"
    by (simp_all add: tcp_listen_def)
  obtain r t' where send: "send_sock_command flaky (bk_block (proto ?c)) Close (trans ?c) = (r, t')"
    by (cases "send_sock_command flaky (bk_block (proto ?c)) Close (trans ?c)") auto
  have "fst (send_sock_command flaky (bk_block (proto ?c)) Close (trans ?c)) = Err (Other SpiError)"
    by code_simp
  then have "send_sock_command flaky (bk_block (proto ?c)) Close (trans ?c) = (Err (Other SpiError), t')"
    using send by simp
  from release_lost_on_bus_error [OF b(1) s(1) b(2) s(2) this] b(2) show ?thesis
    by (simp add: tcp_listen_def)
qed

end
