(* ===== verification/W6100.thy ===== *)
theory W6100
  imports Socket_Backend
begin

text \<open>
  The driver itself (\<^verbatim>\<open>wiznet-rs/src/lib.rs\<close>): the chip behind a try-lock, eight socket slots,
  the pending network configuration, and the record of the one bulk transfer that may own
  the bus; and the control operations of the user handles (\<^verbatim>\<open>tcp_socket.rs\<close>,
  \<^verbatim>\<open>udp_socket.rs\<close>), which act on the slots the driver owns.
\<close>

subsection \<open>Registers\<close>

definition common :: "u16 \<Rightarrow> address" where
  "common a = \<lparr>addr = a, block = CommonRegister\<rparr>"

definition CIDR :: address where "CIDR = common 0x0000"
definition VER :: address where "VER = common 0x0002"
definition SYCR1 :: address where "SYCR1 = common 0x2005"
definition SHAR :: address where "SHAR = common 0x4120"
definition GAR :: address where "GAR = common 0x4130"
definition SUBR :: address where "SUBR = common 0x4134"
definition SIPR :: address where "SIPR = common 0x4138"
definition CHPLCKR :: address where "CHPLCKR = common 0x41F4"
definition NETLCKR :: address where "NETLCKR = common 0x41F5"
definition SIMR :: address where "SIMR = common 0x2114"
definition PHYSR :: address where "PHYSR = common 0x3000"

definition CAB_MASK :: u8 where "CAB_MASK = push_bit 7 1"
definition LINK_MASK :: u8 where "LINK_MASK = 1"

subsection \<open>State\<close>

text \<open>
  The reset pin is any \<^verbatim>\<open>embedded_hal::digital::OutputPin\<close>: a dictionary whose operations
  return whether they succeeded and the pin's next state.
\<close>

record 'p output_pin =
  set_low :: "'p \<Rightarrow> bool \<times> 'p"
  set_high :: "'p \<Rightarrow> bool \<times> 'p"

record ('d, 't, 'p) device =
  transport :: "('d, 't) transceiver"
  rst :: 'p

record network_config =
  cfg_ip :: u32
  cfg_gateway :: u32
  cfg_subnet :: u32

record bulk_op =
  op_idx :: nat
  op_kind :: bulk_kind
  op_block :: block_address
  op_pointer :: u16
  op_bytes :: nat

record ('d, 't, 'p) w6100 =
  device :: "('d, 't, 'p) device atomic_cell"
  mac :: bytes
  config :: "network_config option atomic_cell"
  config_dirty :: bool
  link_up :: bool
  sockets :: "socket list"
  bulk :: "bulk_op option atomic_cell"

definition make_socket :: "nat \<Rightarrow> socket" where
  "make_socket i = \<lparr>backend = cell_new (backend_new (socket_block i)), sock_rings = rings_new\<rparr>"

text \<open>
  The scope of \<^verbatim>\<open>let mut dev_guard = self.device.lock_mut()?\<close>: the body works on the device
  and, beside it, on the rest of the driver.
\<close>

definition with_device ::
  "(('d, 't, 'p) device \<times> ('d, 't, 'p) w6100, 'a) sm \<Rightarrow> (('d, 't, 'p) w6100, 'a) sm" where
  "with_device m w =
     (case lock_mut (device w) of
        (Inl e, c) \<Rightarrow> (Err (from_atomic_error e), w\<lparr>device := c\<rparr>)
      | (Inr d, c) \<Rightarrow>
          (case m (d, w\<lparr>device := c\<rparr>) of
             (r, (d', w')) \<Rightarrow> (r, w'\<lparr>device := drop_guard d' (device w')\<rparr>)))"

definition spi :: "(('d, 't) transceiver, 'a) sm \<Rightarrow> (('d, 't, 'p) device \<times> 's, 'a) sm" where
  "spi = zoom (\<lambda>(d, w). transport d) (\<lambda>t (d, w). (d\<lparr>transport := t\<rparr>, w))"

definition drive_pin :: "('p \<Rightarrow> bool \<times> 'p) \<Rightarrow> (('d, 't, 'p) device \<times> 's, unit) sm" where
  "drive_pin f = (\<lambda>(d, w).
     case f (rst d) of (ok, p) \<Rightarrow>
       ((if ok then Ok () else Err (Other PinError)), (d\<lparr>rst := p\<rparr>, w)))"

text \<open>\<^verbatim>\<open>result.map_err(|_| Error::Other(SpiError))\<close>.\<close>

definition as_spi_error :: "('s, 'a) sm \<Rightarrow> ('s, unit) sm" where
  "as_spi_error m s =
     (case m s of
        (Ok _, s') \<Rightarrow> (Ok (), s')
      | (Err _, s') \<Rightarrow> (Err (Other SpiError), s')
      | (Panic, s') \<Rightarrow> (Panic, s'))"

definition delay_1ms :: "('d, 't) spi_dma_device \<Rightarrow> (('d, 't, 'p) device \<times> 's, unit) sm" where
  "delay_1ms D = as_spi_error (spi (transaction D [OpDelayNs 1000000]))"

text \<open>\<^verbatim>\<open>if let Ok(mut bulk) = self.bulk.lock_mut() { *bulk.as_mut() = v }\<close>.\<close>

definition put_bulk :: "bulk_op option \<Rightarrow> ('d, 't, 'p) w6100 \<Rightarrow> ('d, 't, 'p) w6100" where
  "put_bulk v w =
     (case lock_mut (bulk w) of
        (Inl _, c) \<Rightarrow> w\<lparr>bulk := c\<rparr>
      | (Inr _, c) \<Rightarrow> w\<lparr>bulk := drop_guard v c\<rparr>)"

subsection \<open>Reset\<close>

definition MAX_RESET_WAIT_ITERATIONS :: nat where "MAX_RESET_WAIT_ITERATIONS = 100"

function wait_chip_id ::
  "('d, 't) spi_dma_device \<Rightarrow> nat \<Rightarrow> (('d, 't, 'p) device \<times> 's, unit) sm" where
  "wait_chip_id D counter s =
     (case spi (read_u16 D CIDR) s of
        (Ok v, s1) \<Rightarrow>
          if v = 0x6100 then (Ok (), s1)
          else if counter \<ge> MAX_RESET_WAIT_ITERATIONS then (Err (Other UnexpectedResponse), s1)
          else
            (case delay_1ms D s1 of
               (Ok _, s2) \<Rightarrow> wait_chip_id D (counter + 1) s2
             | (Err e, s2) \<Rightarrow> (Err e, s2)
             | (Panic, s2) \<Rightarrow> (Panic, s2))
      | (Err e, s1) \<Rightarrow> (Err e, s1)
      | (Panic, s1) \<Rightarrow> (Panic, s1))"
  by pat_completeness auto
termination
  by (relation "measure (\<lambda>(D, counter, s). MAX_RESET_WAIT_ITERATIONS - counter)") auto

declare wait_chip_id.simps [simp del]

text \<open>\<^verbatim>\<open>for socket in self.sockets.iter() { socket.backend.lock_mut()?.as_mut().reset(..)?; }\<close>\<close>

fun reset_sockets ::
  "('d, 't) spi_dma_device \<Rightarrow> socket list \<Rightarrow> ('d, 't) transceiver \<Rightarrow> unit res \<times> socket list \<times> ('d, 't) transceiver" where
  "reset_sockets D [] t = (Ok (), [], t)"
| "reset_sockets D (s # ss) t =
     (case lock_mut (backend s) of
        (Inl e, c) \<Rightarrow> (Err (from_atomic_error e), s\<lparr>backend := c\<rparr> # ss, t)
      | (Inr b, c) \<Rightarrow>
          (case backend_reset D (t, b) of
             (Ok _, (t', b')) \<Rightarrow>
               (case reset_sockets D ss t' of
                  (r, ss', t'') \<Rightarrow> (r, s\<lparr>backend := drop_guard b' c\<rparr> # ss', t''))
           | (Err e, (t', b')) \<Rightarrow> (Err e, s\<lparr>backend := drop_guard b' c\<rparr> # ss, t')
           | (Panic, (t', b')) \<Rightarrow> (Panic, s\<lparr>backend := drop_guard b' c\<rparr> # ss, t')))"

definition reset_body ::
  "('d, 't) spi_dma_device \<Rightarrow> 'p output_pin \<Rightarrow> (('d, 't, 'p) device \<times> ('d, 't, 'p) w6100, unit) sm" where
  "reset_body D P =
     bnd (spi (abort D)) (\<lambda>_.
     bnd (modify (\<lambda>(d, w). (d, put_bulk None w))) (\<lambda>_.
     bnd (drive_pin (set_low P)) (\<lambda>_.
     bnd (delay_1ms D) (\<lambda>_.
     bnd (drive_pin (set_high P)) (\<lambda>_.
     bnd (wait_chip_id D 0) (\<lambda>_.
     bnd (spi (read_u16 D VER)) (\<lambda>ver.
     if ver \<noteq> 0x4661 then raise (Other UnexpectedResponse)
     else
     bnd (\<lambda>(d, w). case reset_sockets D (sockets w) (transport d) of
            (r, ss, t) \<Rightarrow> (r, (d\<lparr>transport := t\<rparr>, w\<lparr>sockets := ss\<rparr>))) (\<lambda>_.
     bnd (spi (write_u8 D CHPLCKR 0xCE)) (\<lambda>_.
     bnd (spi (write_u8 D SYCR1 0x80)) (\<lambda>_.
     bnd (spi (write_u8 D CHPLCKR 0x00)) (\<lambda>_.
     spi (write_u8 D SIMR 0xFF))))))))))))"

definition w6100_reset ::
  "('d, 't) spi_dma_device \<Rightarrow> 'p output_pin \<Rightarrow> (('d, 't, 'p) w6100, unit) sm" where
  "w6100_reset D P = with_device (reset_body D P)"

text \<open>\<^verbatim>\<open>W6100::new\<close>: \<open>Panic\<close> is the assertion on the scratch buffers in \<^verbatim>\<open>Transceiver::new\<close>.\<close>

definition w6100_new ::
  "('d, 't) spi_dma_device \<Rightarrow> 'p output_pin \<Rightarrow> 'd \<Rightarrow> 'p \<Rightarrow> dma_buffers \<Rightarrow> bytes \<Rightarrow> ('d, 't, 'p) w6100 res" where
  "w6100_new D P dev pin scratch m =
     (case transceiver_new dev scratch of
        None \<Rightarrow> Panic
      | Some t \<Rightarrow>
          (case w6100_reset D P
                  \<lparr>device = cell_new \<lparr>transport = t, rst = pin\<rparr>, mac = m, config = cell_new None,
                   config_dirty = False, link_up = False, sockets = map make_socket [0..<8],
                   bulk = cell_new None\<rparr> of
             (Ok _, w) \<Rightarrow> Ok w
           | (Err e, _) \<Rightarrow> Err e
           | (Panic, _) \<Rightarrow> Panic))"

subsection \<open>Network configuration and link\<close>

definition setup_network ::
  "('d, 't) spi_dma_device \<Rightarrow> u32 \<Rightarrow> u32 \<Rightarrow> u32 \<Rightarrow> (('d, 't, 'p) w6100, unit) sm" where
  "setup_network D source_addr gateway_address subnet_mask = with_device (
     bnd (spi (write_u8 D NETLCKR 0x3A)) (\<lambda>_.
     bnd (gets (\<lambda>(d, w). mac w)) (\<lambda>m.
     bnd (spi (spi_write D SHAR m)) (\<lambda>_.
     bnd (spi (write_u32 D SIPR source_addr)) (\<lambda>_.
     bnd (spi (write_u32 D GAR gateway_address)) (\<lambda>_.
     bnd (spi (write_u32 D SUBR subnet_mask)) (\<lambda>_.
     spi (write_u8 D NETLCKR 0xC5))))))))"

definition is_link_up :: "('d, 't) spi_dma_device \<Rightarrow> (('d, 't, 'p) w6100, bool) sm" where
  "is_link_up D = with_device (
     bnd (spi (read_u8 D PHYSR)) (\<lambda>status.
     ret (status AND CAB_MASK = 0 \<and> status AND LINK_MASK = LINK_MASK)))"

definition set_network_config :: "network_config \<Rightarrow> (('d, 't, 'p) w6100, unit) sm" where
  "set_network_config cfg =
     bnd (zoom config (\<lambda>c w. w\<lparr>config := c\<rparr>) (locked (modify (\<lambda>_. Some cfg)))) (\<lambda>_.
     modify (\<lambda>w. w\<lparr>config_dirty := True\<rparr>))"

definition get_network_config :: "('d, 't, 'p) w6100 \<Rightarrow> network_config option" where
  "get_network_config w = (if busy (config w) then None else cell (config w))"

subsection \<open>Opening sockets\<close>

text \<open>
  The loop the three \<^verbatim>\<open>open_*\<close> functions share: the first slot that is neither held nor
  occupied gets the buffers and the machine. The result is the index of the slot the
  handle refers to.
\<close>

fun open_loop ::
  "(socket_backend \<Rightarrow> bool \<times> socket_backend) \<Rightarrow> bytes \<Rightarrow> bytes \<Rightarrow> nat \<Rightarrow> socket list \<Rightarrow> nat res \<times> socket list" where
  "open_loop claim rxb txb i [] = (Err WouldBlock, [])"
| "open_loop claim rxb txb i (s # ss) =
     (case lock_mut (backend s) of
        (Inl _, c) \<Rightarrow>
          (case open_loop claim rxb txb (i + 1) ss of (r, ss') \<Rightarrow> (r, s\<lparr>backend := c\<rparr> # ss'))
      | (Inr b, c) \<Rightarrow>
          if is_free b then
            (Ok i, s\<lparr>backend := drop_guard (snd (claim b)) c,
                     sock_rings := rings_install rxb txb (sock_rings s)\<rparr> # ss)
          else
            (case open_loop claim rxb txb (i + 1) ss of
               (r, ss') \<Rightarrow> (r, s\<lparr>backend := drop_guard b c\<rparr> # ss')))"

definition on_sockets :: "(socket list \<Rightarrow> 'a res \<times> socket list) \<Rightarrow> (('d, 't, 'p) w6100, 'a) sm" where
  "on_sockets f = zoom sockets (\<lambda>ss w. w\<lparr>sockets := ss\<rparr>) f"

definition open_tcp_connect :: "u32 \<Rightarrow> u16 \<Rightarrow> u16 \<Rightarrow> bytes \<Rightarrow> bytes \<Rightarrow> (('d, 't, 'p) w6100, nat) sm" where
  "open_tcp_connect a p src_port rxb txb =
     on_sockets (open_loop (claim_tcp (tcp_connect a p src_port)) rxb txb 0)"

definition open_tcp_listen :: "u16 \<Rightarrow> bytes \<Rightarrow> bytes \<Rightarrow> (('d, 't, 'p) w6100, nat) sm" where
  "open_tcp_listen p rxb txb = on_sockets (open_loop (claim_tcp (tcp_listen p)) rxb txb 0)"

definition open_udp :: "u16 \<Rightarrow> bytes \<Rightarrow> bytes \<Rightarrow> (('d, 't, 'p) w6100, nat) sm" where
  "open_udp src_port rxb txb = on_sockets (open_loop (claim_udp (udp_bind src_port)) rxb txb 0)"

subsection \<open>Driving the sockets\<close>

text \<open>
  One pass over the slots. The pass stops at the first slot that starts a bulk transfer and
  reports what to record; slots that are held or would block are skipped.
\<close>

fun run_loop ::
  "('d, 't) spi_dma_device \<Rightarrow> nat \<Rightarrow> socket list \<Rightarrow> ('d, 't) transceiver \<Rightarrow>
     bulk_op option res \<times> socket list \<times> ('d, 't) transceiver" where
  "run_loop D i [] t = (Ok None, [], t)"
| "run_loop D i (s # ss) t =
     (case lock_mut (backend s) of
        (Inl _, c) \<Rightarrow>
          (case run_loop D (i + 1) ss t of (r, ss', t') \<Rightarrow> (r, s\<lparr>backend := c\<rparr> # ss', t'))
      | (Inr b, c) \<Rightarrow>
          (case backend_run D \<lparr>trans = t, rings = sock_rings s, proto = b\<rparr> of (r, c') \<Rightarrow>
             let s' = s\<lparr>backend := drop_guard (proto c') c, sock_rings := rings c'\<rparr> in
             (case r of
                Ok ActNone \<Rightarrow>
                  (case run_loop D (i + 1) ss (trans c') of (r', ss', t') \<Rightarrow> (r', s' # ss', t'))
              | Ok (Started kind pointer len) \<Rightarrow>
                  (Ok (Some \<lparr>op_idx = i, op_kind = kind, op_block = bk_block (proto c'),
                             op_pointer = pointer, op_bytes = len\<rparr>), s' # ss, trans c')
              | Err WouldBlock \<Rightarrow>
                  (case run_loop D (i + 1) ss (trans c') of (r', ss', t') \<Rightarrow> (r', s' # ss', t'))
              | Err e \<Rightarrow> (Err e, s' # ss, trans c')
              | Panic \<Rightarrow> (Panic, s' # ss, trans c'))))"

definition run_body ::
  "('d, 't) spi_dma_device \<Rightarrow> (('d, 't, 'p) device \<times> ('d, 't, 'p) w6100, unit) sm" where
  "run_body D = (\<lambda>(d, w).
     case run_loop D 0 (sockets w) (transport d) of (r, ss, t) \<Rightarrow>
       let d' = d\<lparr>transport := t\<rparr>; w' = w\<lparr>sockets := ss\<rparr> in
       (case r of
          Ok None \<Rightarrow> (Ok (), (d', w'))
        | Ok (Some op) \<Rightarrow> (Ok (), (d', put_bulk (Some op) w'))
        | Err e \<Rightarrow> (Err e, (d', w'))
        | Panic \<Rightarrow> (Panic, (d', w'))))"

definition w6100_run :: "('d, 't) spi_dma_device \<Rightarrow> (('d, 't, 'p) w6100, unit) sm" where
  "w6100_run D = with_device (run_body D)"

subsection \<open>Service\<close>

definition bulk_in_flight :: "('d, 't, 'p) w6100 \<Rightarrow> bool" where
  "bulk_in_flight w = (if busy (bulk w) then True else cell (bulk w) \<noteq> None)"

definition w6100_service ::
  "('d, 't) spi_dma_device \<Rightarrow> 'p output_pin \<Rightarrow> (('d, 't, 'p) w6100, unit) sm" where
  "w6100_service D P =
     bnd (gets bulk_in_flight) (\<lambda>in_flight.
     if in_flight then ret ()
     else
     bnd (is_link_up D) (\<lambda>up.
     bnd (gets link_up) (\<lambda>was_up.
     bnd (modify (\<lambda>w. w\<lparr>link_up := up\<rparr>)) (\<lambda>_.
     if \<not> up then
       if was_up then
         bnd (w6100_reset D P) (\<lambda>_. modify (\<lambda>w. w\<lparr>config_dirty := True\<rparr>))
       else ret ()
     else
     bnd (gets (\<lambda>w. (config_dirty w, get_network_config w))) (\<lambda>(dirty, cfg).
     bnd (case cfg of
            Some c \<Rightarrow>
              if dirty then
                bnd (setup_network D (cfg_ip c) (cfg_gateway c) (cfg_subnet c)) (\<lambda>_.
                modify (\<lambda>w. w\<lparr>config_dirty := False\<rparr>))
              else ret ()
          | None \<Rightarrow> ret ()) (\<lambda>_.
     w6100_run D))))))"

subsection \<open>Completion of a bulk transfer\<close>

text \<open>The ring a transfer delivers to sits beside the transceiver, as in the source's signature.\<close>

definition bus :: "(('d, 't) transceiver, 'a) sm \<Rightarrow> (('d, 't) transceiver \<times> socket_rings, 'a) sm" where
  "bus = zoom fst (\<lambda>t (_, q). (t, q))"

definition deliver :: "bytes \<Rightarrow> (('d, 't) transceiver \<times> socket_rings, nat) sm" where
  "deliver xs = zoom (\<lambda>(_, q). rx q) (\<lambda>r (t, q). (t, q\<lparr>rx := r\<rparr>)) (ring_write xs)"

definition finish_bulk ::
  "('d, 't) spi_dma_device \<Rightarrow> bulk_op \<Rightarrow> (('d, 't) transceiver \<times> socket_rings, unit) sm" where
  "finish_bulk D op =
     (let end = op_pointer op + of_nat (op_bytes op); blk = op_block op in
      case op_kind op of
        BulkReceive \<Rightarrow>
          bnd (bus (finish_read D (op_bytes op))) (\<lambda>payload.
          bnd (deliver payload) (\<lambda>_.
          bnd (bus (set_rx_read_pointer D blk end)) (\<lambda>_.
          bnd (bus (send_sock_command D blk Receive)) (\<lambda>_.
          bus (clear_interrupts D blk RECV)))))
      | BulkReceiveDatagram src_ip src_port \<Rightarrow>
          bnd (deliver (to_be 2 (of_nat (op_bytes op) :: u16) @ to_be 4 src_ip @ to_be 2 src_port)) (\<lambda>_.
          bnd (bus (finish_read D (op_bytes op))) (\<lambda>payload.
          bnd (deliver payload) (\<lambda>_.
          bnd (modify (\<lambda>(t, q). (t, q\<lparr>rx := commit_frame (rx q)\<rparr>))) (\<lambda>_.
          bnd (bus (set_rx_read_pointer D blk end)) (\<lambda>_.
          bnd (bus (send_sock_command D blk Receive)) (\<lambda>_.
          bus (clear_interrupts D blk RECV)))))))
      | BulkTransmit \<Rightarrow>
          bnd (bus (finish_write D)) (\<lambda>_.
          bnd (bus (set_tx_write_pointer D blk end)) (\<lambda>_.
          bus (send_sock_command D blk Send))))"

text \<open>\<^verbatim>\<open>let _ = ...\<close>: errors are dropped, a panic is not.\<close>

definition ignore :: "('s, 'a) sm \<Rightarrow> ('s, unit) sm" where
  "ignore m s = (case m s of (Panic, s') \<Rightarrow> (Panic, s') | (_, s') \<Rightarrow> (Ok (), s'))"

definition finish_body ::
  "('d, 't) spi_dma_device \<Rightarrow> bulk_op \<Rightarrow> (('d, 't, 'p) device \<times> ('d, 't, 'p) w6100, unit) sm" where
  "finish_body D op = (\<lambda>(d, w).
     if op_idx op < length (sockets w) then
       (case finish_bulk D op (transport d, sock_rings (sockets w ! op_idx op)) of
          (r, (t, q)) \<Rightarrow>
            (r, (d\<lparr>transport := t\<rparr>,
                 w\<lparr>sockets := (sockets w)[op_idx op := (sockets w ! op_idx op)\<lparr>sock_rings := q\<rparr>]\<rparr>)))
     else (Panic, (d, w)))"

definition dma_complete ::
  "('d, 't) spi_dma_device \<Rightarrow> 'p output_pin \<Rightarrow> (('d, 't, 'p) w6100, unit) sm" where
  "dma_complete D P w =
     (if busy (bulk w) then (Ok (), w)
      else
        (case cell (bulk w) of
           None \<Rightarrow> (Ok (), w)
         | Some op \<Rightarrow>
             bnd (ignore (with_device (finish_body D op))) (\<lambda>_.
             bnd (modify (put_bulk None)) (\<lambda>_.
             ignore (w6100_service D P))) w))"

subsection \<open>The handles\<close>

text \<open>A handle is the index of its slot. Data moves through the rings without taking the cell.\<close>

definition on_socket :: "nat \<Rightarrow> (socket, 'a) sm \<Rightarrow> (('d, 't, 'p) w6100, 'a) sm" where
  "on_socket i m w =
     (if i < length (sockets w) then
        (case m (sockets w ! i) of (r, s) \<Rightarrow> (r, w\<lparr>sockets := (sockets w)[i := s]\<rparr>))
      else (Panic, w))"

definition tcp_read :: "nat \<Rightarrow> (socket, bytes) sm" where
  "tcp_read n = zoom (\<lambda>s. rx (sock_rings s)) (\<lambda>r s. s\<lparr>sock_rings := (sock_rings s)\<lparr>rx := r\<rparr>\<rparr>) (ring_read n)"

definition tcp_write :: "bytes \<Rightarrow> (socket, nat) sm" where
  "tcp_write src = zoom (\<lambda>s. tx (sock_rings s)) (\<lambda>r s. s\<lparr>sock_rings := (sock_rings s)\<lparr>tx := r\<rparr>\<rparr>) (ring_write src)"

definition on_backend :: "(socket_backend, 'a) sm \<Rightarrow> (socket, 'a) sm" where
  "on_backend m = zoom backend (\<lambda>c s. s\<lparr>backend := c\<rparr>) (locked m)"

definition tcp_handle_status :: "(socket, socket_status) sm" where
  "tcp_handle_status = on_backend (gets (\<lambda>b.
     case bk_state b of BTcp t \<Rightarrow> tcp_reported_status t | _ \<Rightarrow> Closed))"

definition udp_handle_status :: "(socket, socket_status) sm" where
  "udp_handle_status = on_backend (gets (\<lambda>b.
     case bk_state b of BUdp u \<Rightarrow> udp_reported_status u | _ \<Rightarrow> Closed))"

definition tcp_close :: "(socket, unit) sm" where
  "tcp_close = on_backend (modify (\<lambda>b.
     case bk_state b of BTcp t \<Rightarrow> b\<lparr>bk_state := BTcp (tcp_request_close t)\<rparr> | _ \<Rightarrow> b))"

definition udp_close :: "(socket, unit) sm" where
  "udp_close = on_backend (modify (\<lambda>b.
     case bk_state b of BUdp u \<Rightarrow> b\<lparr>bk_state := BUdp (udp_request_close u)\<rparr> | _ \<Rightarrow> b))"

definition tcp_reconnect :: "(socket, unit) sm" where
  "tcp_reconnect s =
     (if busy (backend s) then (Err WouldBlock, s)
      else
        (case bk_state (cell (backend s)) of
           BTcp t \<Rightarrow>
             (Ok (), s\<lparr>backend := (backend s)\<lparr>cell := (cell (backend s))\<lparr>bk_state := BTcp (tcp_rearm t)\<rparr>\<rparr>,
                      sock_rings := rings_clear (sock_rings s)\<rparr>)
         | _ \<Rightarrow> (Ok (), s)))"

definition udp_reconnect :: "(socket, unit) sm" where
  "udp_reconnect s =
     (if busy (backend s) then (Err WouldBlock, s)
      else
        (case bk_state (cell (backend s)) of
           BUdp u \<Rightarrow>
             (Ok (), s\<lparr>backend := (backend s)\<lparr>cell := (cell (backend s))\<lparr>bk_state := BUdp (udp_rearm u)\<rparr>\<rparr>,
                      sock_rings := rings_clear (sock_rings s)\<rparr>)
         | _ \<Rightarrow> (Ok (), s)))"

text \<open>\<^verbatim>\<open>Drop\<close> of either handle: without the lock nothing happens.\<close>

definition handle_drop :: "(socket, unit) sm" where
  "handle_drop = ignore (on_backend (modify request_release))"

end
