(* ===== verification/Chip_Model.thy ===== *)
theory Chip_Model
  imports W6100
begin

text \<open>
  The software model of the chip that the integration tests drive the driver against
  (\<^verbatim>\<open>wiznet-rs/tests/echo_harness.rs\<close>): eight sockets with their FIFOs, the command
  register, the wire, and the \<^verbatim>\<open>SpiDmaDevice\<close> that executes one SPI frame per transfer. It
  provides the contract of the bus, so every theorem about the driver applies to it.
\<close>

subsection \<open>FIFOs\<close>

definition BUF_SIZE :: u16 where "BUF_SIZE = 2048"

record chip_buffer =
  cb_data :: bytes
  read_ptr :: u16
  write_ptr :: u16

definition cb_new :: chip_buffer where
  "cb_new = \<lparr>cb_data = replicate (unat BUF_SIZE) 0, read_ptr = 0, write_ptr = 0\<rparr>"

definition cb_used :: "chip_buffer \<Rightarrow> u16" where
  "cb_used b = write_ptr b - read_ptr b"

text \<open>The subtraction underflows only for an occupied span longer than the buffer.\<close>

definition cb_free :: "chip_buffer \<Rightarrow> u16" where
  "cb_free b = BUF_SIZE - cb_used b"

fun poke_from :: "nat \<Rightarrow> bytes \<Rightarrow> bytes \<Rightarrow> bytes" where
  "poke_from k [] xs = xs"
| "poke_from k (b # bs) xs = poke_from (k + 1) bs (xs[k mod length xs := b])"

definition cb_poke :: "u16 \<Rightarrow> bytes \<Rightarrow> chip_buffer \<Rightarrow> chip_buffer" where
  "cb_poke p src b = b\<lparr>cb_data := poke_from (unat p) src (cb_data b)\<rparr>"

definition cb_peek :: "u16 \<Rightarrow> nat \<Rightarrow> chip_buffer \<Rightarrow> bytes" where
  "cb_peek p n b = map (\<lambda>i. cb_data b ! ((unat p + i) mod length (cb_data b))) [0..<n]"

subsection \<open>Sockets\<close>

record socket_model =
  mr :: u8
  sr :: u8
  ir :: u8
  srx :: chip_buffer
  stx :: chip_buffer
  dst_ip :: u32
  dst_port :: u16

definition socket_model_new :: socket_model where
  "socket_model_new = \<lparr>mr = 0, sr = 0, ir = 0, srx = cb_new, stx = cb_new, dst_ip = 0, dst_port = 0\<rparr>"

record chip_state =
  csockets :: "socket_model list"
  sent :: "bytes list"
  sent_dgrams :: "(u32 \<times> u16 \<times> bytes) list list"

definition chip_new :: chip_state where
  "chip_new = \<lparr>csockets = replicate 8 socket_model_new, sent = replicate 8 [], sent_dgrams = replicate 8 []\<rparr>"

definition upd_socket :: "nat \<Rightarrow> (socket_model \<Rightarrow> socket_model) \<Rightarrow> chip_state \<Rightarrow> chip_state" where
  "upd_socket i f c = c\<lparr>csockets := (csockets c)[i := f (csockets c ! i)]\<rparr>"

definition is_udp :: "socket_model \<Rightarrow> bool" where
  "is_udp s \<longleftrightarrow> mr s AND 0x0F = 0x02"

text \<open>\<^verbatim>\<open>CMD_SEND\<close>: everything between the TX pointers goes out on the wire.\<close>

definition send_out :: "nat \<Rightarrow> chip_state \<Rightarrow> chip_state" where
  "send_out i c =
     (let s = csockets c ! i; b = stx s; out = cb_peek (read_ptr b) (unat (cb_used b)) b;
          c1 = upd_socket i (\<lambda>s. s\<lparr>stx := b\<lparr>read_ptr := write_ptr b\<rparr>\<rparr>) c;
          c2 = c1\<lparr>sent := (sent c1)[i := sent c1 ! i @ out]\<rparr>
      in if is_udp s
         then c2\<lparr>sent_dgrams := (sent_dgrams c2)[i := sent_dgrams c2 ! i @ [(dst_ip s, dst_port s, out)]]\<rparr>
         else c2)"

definition run_command :: "nat \<Rightarrow> u8 \<Rightarrow> chip_state \<Rightarrow> chip_state" where
  "run_command i cmd c =
     (if cmd = 0x01 then upd_socket i (\<lambda>s. s\<lparr>sr := if is_udp s then 0x22 else 0x13\<rparr>) c
      else if cmd = 0x02 then upd_socket i (\<lambda>s. s\<lparr>sr := 0x14\<rparr>) c
      else if cmd = 0x10 \<or> cmd = 0x08 then upd_socket i (\<lambda>s. s\<lparr>sr := 0x00\<rparr>) c
      else if cmd = 0x20 then send_out i c
      else c)"

text \<open>\<^verbatim>\<open>out.copy_from_slice(&be[4 - w..])\<close>; a window wider than 4 bytes would panic.\<close>

definition low_bytes :: "u32 \<Rightarrow> nat \<Rightarrow> bytes" where
  "low_bytes v w = drop (4 - w) (to_be 4 v)"

definition reg_value :: "socket_model \<Rightarrow> u16 \<Rightarrow> u32" where
  "reg_value s a =
     (if a = 0x0010 then 0
      else if a = 0x0020 then ucast (ir s)
      else if a = 0x0030 then ucast (sr s)
      else if a = 0x0204 then ucast (cb_free (stx s))
      else if a = 0x020C then ucast (write_ptr (stx s))
      else if a = 0x0224 then ucast (cb_used (srx s))
      else if a = 0x0228 then ucast (read_ptr (srx s))
      else if a = 0x022C then ucast (write_ptr (srx s))
      else 0)"

definition read_reg :: "nat \<Rightarrow> u16 \<Rightarrow> nat \<Rightarrow> chip_state \<Rightarrow> bytes" where
  "read_reg i a w c = low_bytes (reg_value (csockets c ! i) a) w"

definition write_reg :: "nat \<Rightarrow> u16 \<Rightarrow> bytes \<Rightarrow> chip_state \<Rightarrow> chip_state" where
  "write_reg i a payload c =
     (let v = from_be payload :: u32 in
      if a = 0x0000 then upd_socket i (\<lambda>s. s\<lparr>mr := ucast v\<rparr>) c
      else if a = 0x0010 then run_command i (ucast v) c
      else if a = 0x0028 then upd_socket i (\<lambda>s. s\<lparr>ir := ir s AND NOT (ucast v)\<rparr>) c
      else if a = 0x0120 then upd_socket i (\<lambda>s. s\<lparr>dst_ip := v\<rparr>) c
      else if a = 0x0140 then upd_socket i (\<lambda>s. s\<lparr>dst_port := ucast v\<rparr>) c
      else if a = 0x020C then upd_socket i (\<lambda>s. s\<lparr>stx := (stx s)\<lparr>write_ptr := ucast v\<rparr>\<rparr>) c
      else if a = 0x0228 then upd_socket i (\<lambda>s. s\<lparr>srx := (srx s)\<lparr>read_ptr := ucast v\<rparr>\<rparr>) c
      else c)"

definition read_common :: "u16 \<Rightarrow> nat \<Rightarrow> bytes" where
  "read_common a w =
     low_bytes (if a = 0x0000 then 0x6100 else if a = 0x0002 then 0x4661 else if a = 0x3000 then 0x01 else 0) w"

subsection \<open>One SPI frame\<close>

definition decode_kind :: "u8 \<Rightarrow> u8" where
  "decode_kind control = drop_bit 3 control AND 3"

definition decode_sock :: "u8 \<Rightarrow> nat" where
  "decode_sock control = unat (drop_bit 5 control AND 7)"

definition transact :: "bytes \<Rightarrow> bytes \<Rightarrow> nat \<Rightarrow> chip_state \<Rightarrow> chip_state \<times> bytes" where
  "transact txb rxb len c =
     (if len < 3 then (c, rxb)
      else
        let a = from_be (take 2 txb) :: u16; control = txb ! 2; is_write = (control AND 4 \<noteq> 0);
            kind = decode_kind control; i = decode_sock control; plen = len - 3;
            payload = take plen (drop 3 txb)
        in if kind = 0 \<and> \<not> is_write then (c, copy_at 3 (read_common a plen) rxb)
           else if kind = 1 \<and> \<not> is_write then (c, copy_at 3 (read_reg i a plen c) rxb)
           else if kind = 1 \<and> is_write then (write_reg i a payload c, rxb)
           else if kind = 2 \<and> is_write then (upd_socket i (\<lambda>s. s\<lparr>stx := cb_poke a payload (stx s)\<rparr>) c, rxb)
           else if kind = 3 \<and> \<not> is_write then (c, copy_at 3 (cb_peek a plen (srx (csockets c ! i))) rxb)
           else (c, rxb))"

definition chip_transceive ::
  "chip_state \<Rightarrow> dma_buffers \<Rightarrow> completion \<Rightarrow>
     (chip_state \<times> dma_buffers) + (chip_state \<times> dma_buffers)" where
  "chip_transceive c b completion_mode =
     (case transact (tx_buf b) (rx_buf b) (dma_len b) c of (c', rxb) \<Rightarrow> Inr (c', b\<lparr>rx_buf := rxb\<rparr>))"

definition chip :: "(chip_state, chip_state \<times> dma_buffers) spi_dma_device" where
  "chip = \<lparr>transceive = chip_transceive, wait = id, delay_ns = (\<lambda>_ c. c)\<rparr>"

text \<open>The reset pin of the tests always succeeds.\<close>

definition mock_pin :: "unit output_pin" where
  "mock_pin = \<lparr>set_low = (\<lambda>p. (True, p)), set_high = (\<lambda>p. (True, p))\<rparr>"

subsection \<open>The peer\<close>

definition peer_connect :: "nat \<Rightarrow> chip_state \<Rightarrow> chip_state" where
  "peer_connect i = upd_socket i (\<lambda>s. s\<lparr>sr := 0x17, ir := ir s OR 1\<rparr>)"

definition peer_send :: "nat \<Rightarrow> bytes \<Rightarrow> chip_state \<Rightarrow> nat \<times> chip_state" where
  "peer_send i data c =
     (let b = srx (csockets c ! i); n = min (length data) (unat (cb_free b)) in
      if n = 0 then (0, c)
      else (n, upd_socket i (\<lambda>s. s\<lparr>srx := (cb_poke (write_ptr b) (take n data) b)\<lparr>write_ptr := write_ptr b + of_nat n\<rparr>,
                                   ir := ir s OR 4\<rparr>) c))"

definition peer_send_udp :: "nat \<Rightarrow> socket_addr \<Rightarrow> bytes \<Rightarrow> chip_state \<Rightarrow> bool \<times> chip_state" where
  "peer_send_udp i peer data c =
     (let b = srx (csockets c ! i) in
      if unat (cb_free b) < 8 + length data then (False, c)
      else
        let packinfo = to_be 2 ((of_nat (length data) :: u16) AND 0x07FF) @ to_be 4 (ip peer) @ to_be 2 (port peer);
            b1 = cb_poke (write_ptr b) packinfo b;
            b2 = cb_poke (write_ptr b + 8) data b1
        in (True, upd_socket i (\<lambda>s. s\<lparr>srx := b2\<lparr>write_ptr := write_ptr b + 8 + of_nat (length data)\<rparr>,
                                     ir := ir s OR 4\<rparr>) c))"

subsection \<open>The model keeps the contract of the bus\<close>

lemma length_low_bytes: "length (low_bytes v w) \<le> w"
  by (simp add: low_bytes_def)

lemma length_cb_peek [simp]: "length (cb_peek p n b) = n"
  by (simp add: cb_peek_def)

lemma transact_length:
  assumes "transact txb rxb len c = (c', rxb')" "len \<le> length rxb"
  shows "length rxb' = length rxb"
proof -
  have "3 + length (low_bytes v (len - 3)) \<le> length rxb" if "\<not> len < 3" for v
    using length_low_bytes [of v "len - 3"] assms(2) that by simp
  then show ?thesis using assms
    by (auto simp: transact_def Let_def read_common_def read_reg_def split: if_splits)
qed

interpretation chip: spi_contract chip
proof unfold_locales
  fix L d b c x assume "good_bufs L b" "dma_len b \<le> L" "transceive chip d b c = Inr x"
  then show "good_bufs L (snd (wait chip x))"
    using transact_length [of "tx_buf b" "rx_buf b" "dma_len b" d]
    by (auto simp: chip_def chip_transceive_def good_bufs_def split: prod.splits)
next
  fix L d b c d' b' assume "good_bufs L b" "dma_len b \<le> L" "transceive chip d b c = Inl (d', b')"
  then show "good_bufs L b'" by (auto simp: chip_def chip_transceive_def split: prod.splits)
qed

end
