(* ===== verification/Driver_Safety.thy ===== *)
theory Driver_Safety
  imports Chip_Model
begin

text \<open>
  The invariant of the whole driver and its preservation by everything the interrupts and
  the application may call, in any order: the bus is owned by at most one transfer, the
  transfer recorded is the one in flight, and what it will deliver fits its ring.
\<close>

subsection \<open>The driver's invariant\<close>

definition sock_ok :: "nat \<Rightarrow> socket \<Rightarrow> bool" where
  "sock_ok i s \<longleftrightarrow> rings_inv (sock_rings s) \<and> bk_block (cell (backend s)) = socket_block i"

fun socks_ok :: "nat \<Rightarrow> socket list \<Rightarrow> bool" where
  "socks_ok i [] = True"
| "socks_ok i (s # ss) = (sock_ok i s \<and> socks_ok (i + 1) ss)"

text \<open>The recorded transfer is the one in flight, and what it will deliver has room.\<close>

definition op_ok :: "nat \<Rightarrow> bulk_op \<Rightarrow> socket list \<Rightarrow> bool" where
  "op_ok L op ss \<longleftrightarrow> op_idx op < length ss \<and> op_block op = socket_block (op_idx op) \<and>
     0 < op_bytes op \<and> HEADER + op_bytes op \<le> L \<and>
     bulk_need (op_kind op) (op_bytes op) \<le> free_space (rx (sock_rings (ss ! op_idx op))) \<and>
     bk_state (cell (backend (ss ! op_idx op))) \<noteq> BFree"

definition rest_ok :: "('d, 't, 'p) w6100 \<Rightarrow> bool" where
  "rest_ok w \<longleftrightarrow> \<not> busy (bulk w) \<and> length (sockets w) = 8 \<and> socks_ok 0 (sockets w)"

definition w_inv :: "('d, 't) spi_dma_device \<Rightarrow> nat \<Rightarrow> ('d, 't, 'p) w6100 \<Rightarrow> bool" where
  "w_inv D L w \<longleftrightarrow> \<not> busy (device w) \<and> rest_ok w \<and>
     (case cell (bulk w) of
        None \<Rightarrow> idle L (transport (cell (device w)))
      | Some op \<Rightarrow> in_flight D L (transport (cell (device w))) \<and> op_ok L op (sockets w))"

lemma socks_ok_nth: "socks_ok i ss \<longleftrightarrow> (\<forall>j < length ss. sock_ok (i + j) (ss ! j))"
proof (induction i ss rule: socks_ok.induct)
  case (2 i s ss)
  then show ?case by (auto simp: nth_Cons split: nat.splits)
qed simp

lemma socks_ok_update: "socks_ok i ss \<Longrightarrow> (j < length ss \<Longrightarrow> sock_ok (i + j) s) \<Longrightarrow> socks_ok i (ss[j := s])"
  by (cases "j < length ss") (auto simp: socks_ok_nth nth_list_update)

lemma wp_with_device:
  "wp (with_device m) Q w =
     (if busy (device w) then Q (Err WouldBlock) w
      else wp m (\<lambda>r (d, w'). Q r (w'\<lparr>device := drop_guard d (device w')\<rparr>))
        (cell (device w), w\<lparr>device := (device w)\<lparr>busy := True\<rparr>\<rparr>))"
  by (auto simp: wp_def with_device_def lock_mut_def try_lock_internal_def from_atomic_error_def split: prod.splits)

lemma wp_spi_eq: "wp (spi m) Q (d, w) = wp m (\<lambda>r t. Q r (d\<lparr>transport := t\<rparr>, w)) (transport d)"
  by (simp add: spi_def wp_zoom)

lemma wp_drive_pin:
  "wp (drive_pin f) Q (d, w) =
     (case f (rst d) of (ok, p) \<Rightarrow> Q (if ok then Ok () else Err (Other PinError)) (d\<lparr>rst := p\<rparr>, w))"
  by (simp add: wp_def drive_pin_def split: prod.splits)

lemma wp_as_spi_error:
  "wp (as_spi_error m) Q s =
     wp m (\<lambda>r s'. case r of Ok _ \<Rightarrow> Q (Ok ()) s' | Err _ \<Rightarrow> Q (Err (Other SpiError)) s' | Panic \<Rightarrow> Q Panic s') s"
  by (auto simp: wp_def as_spi_error_def split: prod.splits res.splits)

lemma wp_ignore:
  "wp (ignore m) Q s = wp m (\<lambda>r s'. if r = Panic then Q Panic s' else Q (Ok ()) s') s"
  by (auto simp: wp_def ignore_def split: prod.splits res.splits)

lemma put_bulk_free: "\<not> busy (bulk w) \<Longrightarrow> put_bulk v w = w\<lparr>bulk := (bulk w)\<lparr>cell := v\<rparr>\<rparr>"
  by (simp add: put_bulk_def lock_mut_def try_lock_internal_def drop_guard_def)

context spi_contract
begin

lemma wp_bus:
  assumes "bus_safe L m" "idle L t"
    and "\<And>t' x. idle L t' \<Longrightarrow> Q (Ok x) t'" "\<And>t' e. idle L t' \<Longrightarrow> Q (Err (Other e)) t'"
  shows "wp m Q t"
proof (rule wpI)
  fix r t' assume "m t = (r, t')"
  with assms show "Q r t'"
    by (cases r) (auto simp: bus_safe_def, metis error.exhaust)
qed

lemma wp_spi:
  assumes "bus_safe L m" "idle L (transport d)"
    and "\<And>t x. idle L t \<Longrightarrow> Q (Ok x) (d\<lparr>transport := t\<rparr>, w)"
    and "\<And>t e. idle L t \<Longrightarrow> Q (Err (Other e)) (d\<lparr>transport := t\<rparr>, w)"
  shows "wp (spi m) Q (d, w)"
  unfolding wp_spi_eq by (rule wp_bus [OF assms])

lemma bus_safe_delay: "bus_safe L (transaction D [OpDelayNs ns])"
  unfolding bus_safe_def
proof (intro allI impI)
  fix t r t' assume "idle L t" "transaction D [OpDelayNs ns] t = (r, t')"
  from transaction_idle [OF this(1) _ this(2)] show "idle L t' \<and> r \<noteq> Panic \<and> r \<noteq> Err WouldBlock"
    by (cases r) auto
qed

lemma wp_delay:
  assumes "idle L (transport d)"
    and "\<And>t. idle L t \<Longrightarrow> Q (Ok ()) (d\<lparr>transport := t\<rparr>, w)"
    and "\<And>t. idle L t \<Longrightarrow> Q (Err (Other SpiError)) (d\<lparr>transport := t\<rparr>, w)"
  shows "wp (delay_1ms D) Q (d, w)"
  unfolding delay_1ms_def wp_as_spi_error using assms
  by (auto intro!: wp_spi [of L] bus_safe_delay)

lemma wait_chip_id_spec:
  assumes "idle L (transport d)"
  shows "wp (wait_chip_id D counter) (\<lambda>r (d', w'). idle L (transport d') \<and> w' = w \<and> r \<noteq> Panic) (d, w)"
  using assms
proof (induction "MAX_RESET_WAIT_ITERATIONS - counter" arbitrary: counter d rule: less_induct)
  case less
  obtain r1 d1 w1 where rd: "spi (read_u16 D CIDR) (d, w) = (r1, (d1, w1))" by (metis prod_cases3)
  have 1: "idle L (transport d1) \<and> w1 = w \<and> r1 \<noteq> Panic"
    using wpD [OF wp_spi [of L "read_u16 D CIDR" d "\<lambda>r (d', w'). idle L (transport d') \<and> w' = w \<and> r \<noteq> Panic" w] rd] less.prems
    by auto
  obtain r2 d2 w2 where dl: "delay_1ms D (d1, w1) = (r2, (d2, w2))" by (metis prod_cases3)
  have 2: "idle L (transport d2) \<and> w2 = w \<and> r2 \<noteq> Panic"
    using wpD [OF wp_delay [of L d1 "\<lambda>r (d', w'). idle L (transport d') \<and> w' = w \<and> r \<noteq> Panic" w1] dl] 1
    by auto
  show ?case
  proof (cases "\<exists>v. r1 = Ok v \<and> v \<noteq> 0x6100 \<and> counter < MAX_RESET_WAIT_ITERATIONS \<and> r2 = Ok ()")
    case True
    then have run: "wait_chip_id D counter (d, w) = wait_chip_id D (counter + 1) (d2, w)"
      using rd dl 2 by (auto simp: wait_chip_id.simps [of D counter])
    have "MAX_RESET_WAIT_ITERATIONS - (counter + 1) < MAX_RESET_WAIT_ITERATIONS - counter" using True by auto
    from less.hyps [OF this] 2 show ?thesis unfolding wp_def run by auto
  next
    case False
    then show ?thesis using rd dl 1 2
      by (cases r1; cases r2) (auto simp: wp_def wait_chip_id.simps [of D counter])
  qed
qed


lemma backend_reset_ok:
  assumes "idle L t" "backend_reset D (t, b) = (r, (t', b'))"
  shows "idle L t' \<and> r \<noteq> Panic \<and> bk_block b' = bk_block b"
proof -
  obtain r1 t1 where i: "init_socket D (bk_block b) MODE_CLOSED t = (r1, t1)"
    by (cases "init_socket D (bk_block b) MODE_CLOSED t") auto
  have "idle L t1 \<and> r1 \<noteq> Panic"
    using accessors_safe(1) [of L "bk_block b" MODE_CLOSED] assms(1) i by (auto simp: bus_safe_def)
  then show ?thesis using assms(2) i
    by (cases r1) (auto simp: backend_reset_def reset_state_def)
qed

lemma reset_sockets_spec:
  assumes "idle L t" "socks_ok i ss" "reset_sockets D ss t = (r, ss', t')"
  shows "idle L t' \<and> socks_ok i ss' \<and> length ss' = length ss \<and> r \<noteq> Panic"
  using assms
proof (induction ss arbitrary: i t r ss' t')
  case (Cons s ss)
  show ?case
  proof (cases "busy (backend s)")
    case True
    then show ?thesis using Cons.prems
      by (auto simp: lock_mut_def try_lock_internal_def)
  next
    case False
    obtain r1 t1 b1 where b: "backend_reset D (t, cell (backend s)) = (r1, (t1, b1))" by (metis prod_cases3)
    note ok = backend_reset_ok [OF Cons.prems(1) b]
    obtain r2 ss2 t2 where rec: "reset_sockets D ss t1 = (r2, ss2, t2)" by (metis prod_cases3)
    note IH = Cons.IH [OF _ _ rec, of "i + 1"]
    show ?thesis
      using Cons.prems False b rec ok IH
      by (cases r1) (auto simp: lock_mut_def try_lock_internal_def drop_guard_def sock_ok_def)
  qed
qed auto

lemma run_loop_spec:
  assumes "idle L t" "socks_ok i ss" "run_loop D i ss t = (r, ss', t')"
  shows "socks_ok i ss' \<and> length ss' = length ss \<and>
    (case r of
       Ok None \<Rightarrow> idle L t'
     | Ok (Some op) \<Rightarrow> in_flight D L t' \<and> i \<le> op_idx op \<and> op_idx op < i + length ss \<and>
         op_block op = socket_block (op_idx op) \<and> 0 < op_bytes op \<and> HEADER + op_bytes op \<le> L \<and>
         bulk_need (op_kind op) (op_bytes op) \<le> free_space (rx (sock_rings (ss' ! (op_idx op - i)))) \<and>
         bk_state (cell (backend (ss' ! (op_idx op - i)))) \<noteq> BFree
     | _ \<Rightarrow> False)"
  using assms
proof (induction ss arbitrary: i t r ss' t')
  case (Cons s ss)
  have step: ?case
    if "run_loop D (i + 1) ss t1 = (r2, ss2, t2)" "idle L t1" "sock_ok i s'"
      "r = r2" "ss' = s' # ss2" "t' = t2" for r2 ss2 t1 t2 s'
    using Cons.IH [OF that(2) _ that(1)] Cons.prems(2) that
    by (auto split: res.splits option.splits simp: nth_Cons' Suc_diff_le)
  show ?case
  proof (cases "busy (backend s)")
    case True
    obtain r2 ss2 t2 where rec: "run_loop D (i + 1) ss t = (r2, ss2, t2)" by (metis prod_cases3)
    show ?thesis
      by (rule step [OF rec]) (use True Cons.prems rec in \<open>auto simp: lock_mut_def try_lock_internal_def\<close>)
  next
    case False
    let ?c = "\<lparr>trans = t, rings = sock_rings s, proto = cell (backend s)\<rparr>"
    have idle: "idle L (trans ?c)" "rings_inv (rings ?c)" using Cons.prems by (simp_all add: sock_ok_def)
    have blk: "bk_block (proto c') = socket_block i" if "backend_run D ?c = (x, c')" for x c'
      using backend_run_block [OF that] Cons.prems(2) by (simp add: sock_ok_def)
    show ?thesis
    proof (cases rule: slot.tick_cases [OF idle])
      case (1 c')
      note quiet = 1
      obtain r2 ss2 t2 where rec: "run_loop D (i + 1) ss (trans c') = (r2, ss2, t2)" by (metis prod_cases3)
      let ?s = "s\<lparr>backend := \<lparr>cell = proto c', busy = False\<rparr>, sock_rings := rings c'\<rparr>"
      show ?thesis
        by (rule step [OF rec, of ?s])
          (use quiet False Cons.prems rec blk [OF quiet(1)] in
            \<open>auto simp: lock_mut_def try_lock_internal_def drop_guard_def sock_ok_def\<close>)
    next
      case (2 k p n c')
      note started = 2
      then show ?thesis using False Cons.prems blk [OF started(1)]
        by (auto simp: lock_mut_def try_lock_internal_def drop_guard_def sock_ok_def Let_def is_terminal_def)
    qed
  qed
qed auto


text \<open>The bodies that run while the device is locked, on the device and the rest of the driver.\<close>

definition body_ok :: "nat \<Rightarrow> ('d, 't, 'p) device \<times> ('d, 't, 'p) w6100 \<Rightarrow> bool" where
  "body_ok L = (\<lambda>(d, w). idle L (transport d) \<and> rest_ok w \<and> cell (bulk w) = None)"

lemma keeps_spi: "bus_safe L m \<Longrightarrow> keeps (body_ok L) (spi m)"
  by (auto simp: keeps_def body_ok_def intro!: wp_spi [of L])

lemma keeps_pin: "keeps (body_ok L) (drive_pin f)"
  by (auto simp: keeps_def body_ok_def wp_drive_pin split: prod.splits)

lemma keeps_delay: "keeps (body_ok L) (delay_1ms D)"
  by (auto simp: keeps_def body_ok_def intro!: wp_delay [of L])

lemma keeps_wait: "keeps (body_ok L) (wait_chip_id D k)"
  by (auto simp: keeps_def body_ok_def intro!: wp_mono [OF wait_chip_id_spec [of L]])

lemma keeps_reset_sockets:
  "keeps (body_ok L) (\<lambda>(d, w). case reset_sockets D (sockets w) (transport d) of
     (r, ss, t) \<Rightarrow> (r, (d\<lparr>transport := t\<rparr>, w\<lparr>sockets := ss\<rparr>)))"
  unfolding keeps_def
proof (intro allI impI)
  fix s assume s: "body_ok L s"
  obtain d w where dw: "s = (d, w)" by (cases s)
  obtain r ss t where rs: "reset_sockets D (sockets w) (transport d) = (r, ss, t)" by (metis prod_cases3)
  from reset_sockets_spec [OF _ _ rs, of L 0] s show "wp (\<lambda>(d, w). case reset_sockets D (sockets w) (transport d) of
     (r, ss, t) \<Rightarrow> (r, (d\<lparr>transport := t\<rparr>, w\<lparr>sockets := ss\<rparr>))) (\<lambda>r s'. body_ok L s' \<and> r \<noteq> Panic) s"
    by (auto simp: wp_def rs dw body_ok_def rest_ok_def)
qed

lemmas keeps_rules = keeps_bnd keeps_basic keeps_spi keeps_pin keeps_delay keeps_wait
  keeps_reset_sockets

lemma reset_body_spec:
  assumes "idle L (transport d) \<or> in_flight D L (transport d)" "rest_ok w"
  shows "wp (reset_body D P) (\<lambda>r s. body_ok L s \<and> r \<noteq> Panic) (d, w)"
proof -
  have abort: "wp (spi (abort D)) Q (d, w)"
    if "\<And>t. idle L t \<Longrightarrow> Q (Ok ()) (d\<lparr>transport := t\<rparr>, w)" for Q
    unfolding wp_spi_eq using abort_settles [OF assms(1)] that by (auto simp: wp_def split: prod.splits)
  show ?thesis
    unfolding reset_body_def wp_bnd [of "spi (abort D)"]
    apply (rule abort)
    apply (simp only: res.case wp_bnd [of "modify f" for f] wp_modify)
    apply (rule keepsD)
     apply (intro keeps_rules bus_safe_primitives)
    using assms(2) by (simp add: body_ok_def rest_ok_def put_bulk_free)
qed


text \<open>Between two bulk transfers.\<close>

definition w_quiet :: "nat \<Rightarrow> ('d, 't, 'p) w6100 \<Rightarrow> bool" where
  "w_quiet L w \<longleftrightarrow> w_inv D L w \<and> cell (bulk w) = None"

lemma w_quiet_iff:
  "w_quiet L w \<longleftrightarrow> \<not> busy (device w) \<and> rest_ok w \<and> cell (bulk w) = None \<and> idle L (transport (cell (device w)))"
  by (auto simp: w_quiet_def w_inv_def)

lemma keeps_with_device:
  fixes m :: "(('d, 't, 'p) device \<times> ('d, 't, 'p) w6100, 'a) sm"
  shows "keeps (body_ok L) m \<Longrightarrow> keeps (w_quiet L) (with_device m)"
  unfolding keeps_def wp_with_device
proof (intro allI impI)
  fix w :: "('d, 't, 'p) w6100"
  assume m: "\<forall>s. body_ok L s \<longrightarrow> wp m (\<lambda>r s'. body_ok L s' \<and> r \<noteq> Panic) s" and w: "w_quiet L w"
  let ?s = "(cell (device w), w\<lparr>device := (device w)\<lparr>busy := True\<rparr>\<rparr>)"
  have "body_ok L ?s" using w by (simp add: w_quiet_iff body_ok_def rest_ok_def)
  with m have "wp m (\<lambda>r s'. body_ok L s' \<and> r \<noteq> Panic) ?s" by blast
  then have "wp m (\<lambda>r (d, w'). w_quiet L (w'\<lparr>device := drop_guard d (device w')\<rparr>) \<and> r \<noteq> Panic) ?s"
    by (rule wp_mono) (auto simp: body_ok_def w_quiet_iff rest_ok_def drop_guard_def)
  then show "if busy (device w) then w_quiet L w \<and> Err WouldBlock \<noteq> Panic
      else wp m (\<lambda>r (d, w'). w_quiet L (w'\<lparr>device := drop_guard d (device w')\<rparr>) \<and> r \<noteq> Panic) ?s"
    using w by simp
qed

lemma keeps_is_link_up: "keeps (w_quiet L) (is_link_up D)"
  unfolding is_link_up_def by (intro keeps_with_device keeps_rules bus_safe_primitives)

lemma keeps_setup_network: "keeps (w_quiet L) (setup_network D a g m)"
  unfolding setup_network_def
  by (intro keeps_with_device keeps_rules bus_safe_primitives bus_safe_spi_write)

lemma reset_spec:
  assumes "w_inv D L w"
  shows "wp (w6100_reset D P) (\<lambda>r w'. w_quiet L w' \<and> r \<noteq> Panic) w"
proof -
  let ?s = "(cell (device w), w\<lparr>device := (device w)\<lparr>busy := True\<rparr>\<rparr>)"
  have "wp (reset_body D P) (\<lambda>r s. body_ok L s \<and> r \<noteq> Panic) ?s"
    using assms by (intro reset_body_spec) (auto simp: w_inv_def rest_ok_def split: option.splits)
  then have "wp (reset_body D P) (\<lambda>r (d, w'). w_quiet L (w'\<lparr>device := drop_guard d (device w')\<rparr>) \<and> r \<noteq> Panic) ?s"
    by (rule wp_mono) (auto simp: body_ok_def w_quiet_iff rest_ok_def drop_guard_def)
  then show ?thesis using assms by (simp add: w6100_reset_def wp_with_device w_inv_def)
qed

lemma run_spec:
  assumes "w_quiet L w"
  shows "wp (w6100_run D) (\<lambda>r w'. w_inv D L w' \<and> r = Ok ()) w"
proof -
  let ?d = "cell (device w)"
  obtain r ss t where rl: "run_loop D 0 (sockets w) (transport ?d) = (r, ss, t)" by (metis prod_cases3)
  have w: "\<not> busy (device w)" "idle L (transport ?d)" "socks_ok 0 (sockets w)" "length (sockets w) = 8"
    "\<not> busy (bulk w)" "cell (bulk w) = None"
    using assms by (auto simp: w_quiet_iff rest_ok_def)
  note run = run_loop_spec [OF w(2,3) rl]
  show ?thesis
    unfolding w6100_run_def wp_with_device
    using w run rl
    by (cases r) (auto simp: run_body_def wp_def Let_def w_inv_def rest_ok_def
        drop_guard_def put_bulk_free op_ok_def split: option.splits)
qed


lemma service_spec:
  assumes "w_inv D L w"
  shows "wp (w6100_service D P) (\<lambda>r w'. w_inv D L w' \<and> r \<noteq> Panic) w"
proof (cases "cell (bulk w)")
  case (Some op)
  then show ?thesis using assms
    by (simp add: w6100_service_def wp_rules bulk_in_flight_def w_inv_def rest_ok_def)
next
  case None
  have quiet: "w_quiet L w" using assms None by (simp add: w_quiet_def)
  have up: "w_quiet L (w1\<lparr>link_up := b\<rparr>) = w_quiet L w1" "w_quiet L (w1\<lparr>config_dirty := c\<rparr>) = w_quiet L w1"
    for w1 :: "('d, 't, 'p) w6100" and b c
    by (simp_all add: w_quiet_iff rest_ok_def)
  have inv: "w_quiet L w1 \<Longrightarrow> w_inv D L w1" for w1 :: "('d, 't, 'p) w6100" by (simp add: w_quiet_def)
  have run: "wp (w6100_run D) (\<lambda>r w'. w_inv D L w' \<and> r \<noteq> Panic) w1" if "w_quiet L w1" for w1 :: "('d, 't, 'p) w6100"
    by (rule wp_mono [OF run_spec [OF that]]) simp
  have net: "wp (setup_network D a g m) (\<lambda>r w'. w_quiet L w' \<and> r \<noteq> Panic) w1" if "w_quiet L w1"
    for a g m and w1 :: "('d, 't, 'p) w6100"
    by (rule keepsD [OF keeps_setup_network that])
  have "\<not> bulk_in_flight w" using assms None by (simp add: bulk_in_flight_def w_inv_def rest_ok_def)
  then show ?thesis
    unfolding w6100_service_def
    apply (simp add: wp_gets wp_bnd [of "gets f" for f] wp_bnd [of "is_link_up D"])
    apply (rule wp_mono [OF keepsD [OF keeps_is_link_up quiet]])
    subgoal for r w1
      apply (cases r)
        apply (auto simp: wp_rules up inv run intro!: wp_mono [OF reset_spec [of L]] wp_mono [OF net]
          split: res.splits option.splits)
      done
    done
qed


lemma wp_bus_op:
  assumes "bus_safe L m" "idle L t"
    and "\<And>t' x. idle L t' \<Longrightarrow> Q (Ok x) (t', q)" "\<And>t' e. idle L t' \<Longrightarrow> Q (Err (Other e)) (t', q)"
  shows "wp (bus m) Q (t, q)"
  unfolding bus_def wp_zoom using assms by (auto intro!: wp_bus [of L])

lemma wp_deliver:
  assumes "ring_inv (rx q)" "length xs \<le> free_space (rx q)"
    and "\<And>r. contents r = contents (rx q) @ xs \<Longrightarrow> ring_inv r \<Longrightarrow> cap r = cap (rx q) \<Longrightarrow>
       free_space r = free_space (rx q) - length xs \<Longrightarrow> ring_frames r = ring_frames (rx q) \<Longrightarrow>
       Q (Ok (length xs)) (t, q\<lparr>rx := r\<rparr>)"
  shows "wp (deliver xs) Q (t, q)"
proof -
  obtain r where r: "ring_write xs (rx q) = (Ok (length xs), r)" "contents r = contents (rx q) @ xs"
    "ring_inv r" "cap r = cap (rx q)" "free_space r = free_space (rx q) - length xs"
    using ring.write_fits [OF assms(1,2)] by blast
  have "ring_frames r = ring_frames (rx q)"
    using ring_write_frames [OF r(1)] by (simp add: ring_frames_def)
  with r assms(3) show ?thesis by (simp add: deliver_def wp_def zoom_def)
qed

lemma wp_finish_read:
  assumes "in_flight D L t" "HEADER + n \<le> L"
    and "\<And>payload t'. finish_read D n t = (Ok payload, t') \<Longrightarrow> idle L t' \<Longrightarrow> length payload = n \<Longrightarrow>
       Q (Ok payload) (t', q)"
  shows "wp (bus (finish_read D n)) Q (t, q)"
proof -
  obtain r t' where f: "finish_read D n t = (r, t')" by (cases "finish_read D n t") auto
  from finish_read_in_flight [OF assms(1) f assms(2)] assms(3) f show ?thesis
    by (auto simp: bus_def wp_def zoom_def)
qed

lemma wp_finish_write:
  assumes "in_flight D L t" "\<And>t'. idle L t' \<Longrightarrow> Q (Ok ()) (t', q)"
  shows "wp (bus (finish_write D)) Q (t, q)"
proof -
  obtain r t' where f: "finish_write D t = (r, t')" by (cases "finish_write D t") auto
  from finish_write_in_flight [OF assms(1) f] assms(2) f show ?thesis
    by (auto simp: bus_def wp_def zoom_def)
qed

text \<open>What a completed transfer leaves in the receive ring.\<close>

definition delivered :: "bulk_op \<Rightarrow> ('d, 't) transceiver \<Rightarrow> socket_rings \<Rightarrow> socket_rings \<Rightarrow> bool" where
  "delivered op t q q' = (case op_kind op of
     BulkReceive \<Rightarrow> \<exists>payload t0. finish_read D (op_bytes op) t = (Ok payload, t0) \<and>
       contents (rx q') = contents (rx q) @ payload \<and> ring_frames (rx q') = ring_frames (rx q)
   | BulkReceiveDatagram src_ip src_port \<Rightarrow> \<exists>payload t0. finish_read D (op_bytes op) t = (Ok payload, t0) \<and>
       contents (rx q') = contents (rx q) @
         frame_header (of_nat (op_bytes op)) \<lparr>ip = src_ip, port = src_port\<rparr> @ payload \<and>
       ring_frames (rx q') = ring_frames (rx q) + 1
   | BulkTransmit \<Rightarrow> rx q' = rx q)"

lemma finish_bulk_spec:
  assumes "in_flight D L t" "rings_inv q" "HEADER + op_bytes op \<le> L"
    "bulk_need (op_kind op) (op_bytes op) \<le> free_space (rx q)"
  shows "wp (finish_bulk D op) (\<lambda>r (t', q'). idle L t' \<and> rings_inv q' \<and> r \<noteq> Panic \<and>
     cap (rx q') = cap (rx q) \<and> tx q' = tx q \<and> delivered op t q q') (t, q)"
proof (cases "op_kind op")
  case BulkReceive
  then show ?thesis using assms
    by (auto simp: finish_bulk_def Let_def wp_rules rings_inv_def delivered_def
        intro!: wp_finish_read [of L] wp_deliver wp_bus_op [of L])
next
  case (BulkReceiveDatagram a p)
  have hdr: "to_be 2 (of_nat (op_bytes op) :: u16) @ to_be 4 a @ to_be 2 p =
      frame_header (of_nat (op_bytes op)) \<lparr>ip = a, port = p\<rparr>"
    by (simp add: frame_header_def)
  have "op_bytes op \<le> free_space (rx q) - 8" using assms(4) BulkReceiveDatagram by simp
  then show ?thesis using assms
    unfolding finish_bulk_def BulkReceiveDatagram bulk_kind.case hdr Let_def
    by (auto simp: BulkReceiveDatagram wp_rules rings_inv_def delivered_def FRAME_HEADER_def
        intro!: wp_finish_read [of L] wp_deliver wp_bus_op [of L])
next
  case BulkTransmit
  then show ?thesis using assms
    by (auto simp: finish_bulk_def Let_def wp_rules rings_inv_def delivered_def
        intro!: wp_finish_write [of L] wp_bus_op [of L])
qed


lemma finish_body_spec:
  assumes "w_inv D L w" "cell (bulk w) = Some op"
  shows "wp (with_device (finish_body D op)) (\<lambda>r w'. r \<noteq> Panic \<and> w_quiet L (put_bulk None w') \<and>
     bulk w' = bulk w \<and> (\<forall>j. j \<noteq> op_idx op \<longrightarrow> sockets w' ! j = sockets w ! j) \<and>
     backend (sockets w' ! op_idx op) = backend (sockets w ! op_idx op) \<and>
     tx (sock_rings (sockets w' ! op_idx op)) = tx (sock_rings (sockets w ! op_idx op)) \<and>
     delivered op (transport (cell (device w))) (sock_rings (sockets w ! op_idx op)) (sock_rings (sockets w' ! op_idx op))) w"
proof -
  let ?i = "op_idx op" and ?t = "transport (cell (device w))"
  let ?q = "sock_rings (sockets w ! ?i)"
  have w: "\<not> busy (device w)" "\<not> busy (bulk w)" "length (sockets w) = 8" "socks_ok 0 (sockets w)"
    "in_flight D L ?t" "op_ok L op (sockets w)"
    using assms by (auto simp: w_inv_def rest_ok_def)
  have i: "?i < 8" using w(3,6) by (simp add: op_ok_def)
  have s: "sock_ok ?i (sockets w ! ?i)" using w(3,4) i by (simp add: socks_ok_nth)
  obtain r t q where fb: "finish_bulk D op (?t, ?q) = (r, (t, q))" by (metis prod_cases3)
  have post: "idle L t" "rings_inv q" "r \<noteq> Panic" "tx q = tx ?q" "delivered op ?t ?q q"
    using wpD [OF finish_bulk_spec [OF w(5), of ?q op] fb] w(6) s by (auto simp: op_ok_def sock_ok_def)
  have "socks_ok 0 ((sockets w)[?i := (sockets w ! ?i)\<lparr>sock_rings := q\<rparr>])"
    by (rule socks_ok_update [OF w(4)]) (use s post(2) in \<open>simp add: sock_ok_def\<close>)
  then show ?thesis
    unfolding wp_with_device using w i fb post
    by (auto simp: wp_def finish_body_def w_quiet_iff rest_ok_def put_bulk_free drop_guard_def)
qed

lemma dma_complete_spec:
  assumes "w_inv D L w"
  shows "wp (dma_complete D P) (\<lambda>r w'. w_inv D L w' \<and> r = Ok ()) w"
proof (cases "cell (bulk w)")
  case None
  then show ?thesis using assms by (auto simp: wp_def dma_complete_def)
next
  case (Some op)
  have b: "\<not> busy (bulk w)" using assms by (simp add: w_inv_def rest_ok_def)
  have "wp (dma_complete D P) (\<lambda>r w'. w_inv D L w' \<and> r = Ok ()) w =
    wp (bnd (ignore (with_device (finish_body D op))) (\<lambda>_.
        bnd (modify (put_bulk None)) (\<lambda>_. ignore (w6100_service D P)))) (\<lambda>r w'. w_inv D L w' \<and> r = Ok ()) w"
    using b Some by (simp add: wp_def dma_complete_def)
  also have "\<dots>"
    unfolding wp_bnd wp_ignore wp_modify
    by (rule wp_mono [OF finish_body_spec [OF assms Some]])
      (auto simp: w_quiet_def intro!: wp_mono [OF service_spec [of L]])
  finally show ?thesis .
qed

end

subsection \<open>Interleavings\<close>

text \<open>
  What the interrupts and the application may do, one call at a time. The data path of the
  handles is preemptible between ring operations, so its calls are those (\<^verbatim>\<open>read\<close> and
  \<^verbatim>\<open>write\<close> of a TCP handle are one, \<^verbatim>\<open>recv_from\<close> and \<^verbatim>\<open>send_to\<close> are several, with a release or
  a commit of a frame at the end). \<open>CHold\<close> is an interrupt that finds the application inside
  a control operation of a slot, \<open>CUnhold\<close> the end of that operation.
\<close>

datatype w_call =
    CService | CDmaComplete | CReset
  | CSetConfig network_config
  | COpenConnect u32 u16 u16 bytes bytes | COpenListen u16 bytes bytes | COpenUdp u16 bytes bytes
  | CReadRx nat nat | CWriteTx nat bytes | CReleaseRx nat | CCommitTx nat
  | CTcpStatus nat | CUdpStatus nat | CTcpClose nat | CUdpClose nat
  | CTcpReconnect nat | CUdpReconnect nat | CDrop nat
  | CHold nat | CUnhold nat

definition quietly :: "('s, 'a) sm \<Rightarrow> ('s, unit) sm" where
  "quietly m = bnd m (\<lambda>_. ret ())"

definition release_rx :: "(socket, unit) sm" where
  "release_rx = modify (\<lambda>s. s\<lparr>sock_rings := (sock_rings s)\<lparr>rx := release_frame (rx (sock_rings s))\<rparr>\<rparr>)"

definition commit_tx :: "(socket, unit) sm" where
  "commit_tx = modify (\<lambda>s. s\<lparr>sock_rings := (sock_rings s)\<lparr>tx := commit_frame (tx (sock_rings s))\<rparr>\<rparr>)"

definition set_held :: "bool \<Rightarrow> (socket, unit) sm" where
  "set_held b = modify (\<lambda>s. s\<lparr>backend := (backend s)\<lparr>busy := b\<rparr>\<rparr>)"

fun w_exec ::
  "('d, 't) spi_dma_device \<Rightarrow> 'p output_pin \<Rightarrow> w_call \<Rightarrow> (('d, 't, 'p) w6100, unit) sm" where
  "w_exec D P CService = w6100_service D P"
| "w_exec D P CDmaComplete = dma_complete D P"
| "w_exec D P CReset = w6100_reset D P"
| "w_exec D P (CSetConfig cfg) = set_network_config cfg"
| "w_exec D P (COpenConnect a p q rxb txb) = quietly (open_tcp_connect a p q rxb txb)"
| "w_exec D P (COpenListen p rxb txb) = quietly (open_tcp_listen p rxb txb)"
| "w_exec D P (COpenUdp p rxb txb) = quietly (open_udp p rxb txb)"
| "w_exec D P (CReadRx i n) = on_socket i (quietly (tcp_read n))"
| "w_exec D P (CWriteTx i src) = on_socket i (quietly (tcp_write src))"
| "w_exec D P (CReleaseRx i) = on_socket i release_rx"
| "w_exec D P (CCommitTx i) = on_socket i commit_tx"
| "w_exec D P (CTcpStatus i) = on_socket i (quietly tcp_handle_status)"
| "w_exec D P (CUdpStatus i) = on_socket i (quietly udp_handle_status)"
| "w_exec D P (CTcpClose i) = on_socket i tcp_close"
| "w_exec D P (CUdpClose i) = on_socket i udp_close"
| "w_exec D P (CTcpReconnect i) = on_socket i tcp_reconnect"
| "w_exec D P (CUdpReconnect i) = on_socket i udp_reconnect"
| "w_exec D P (CDrop i) = on_socket i handle_drop"
| "w_exec D P (CHold i) = on_socket i (set_held True)"
| "w_exec D P (CUnhold i) = on_socket i (set_held False)"

text \<open>A handle's index is one the driver gave out; a ring buffer has a power-of-two length (or none).\<close>

definition buffer_ok :: "bytes \<Rightarrow> bool" where
  "buffer_ok b \<longleftrightarrow> (length b = 0 \<or> length b dvd 2 ^ 32) \<and> length b < 2 ^ 32"

fun call_ok :: "w_call \<Rightarrow> bool" where
  "call_ok (COpenConnect _ _ _ rxb txb) = (buffer_ok rxb \<and> buffer_ok txb)"
| "call_ok (COpenListen _ rxb txb) = (buffer_ok rxb \<and> buffer_ok txb)"
| "call_ok (COpenUdp _ rxb txb) = (buffer_ok rxb \<and> buffer_ok txb)"
| "call_ok (CReadRx i _) = (i < 8)"
| "call_ok (CWriteTx i _) = (i < 8)"
| "call_ok (CReleaseRx i) = (i < 8)"
| "call_ok (CCommitTx i) = (i < 8)"
| "call_ok (CTcpStatus i) = (i < 8)"
| "call_ok (CUdpStatus i) = (i < 8)"
| "call_ok (CTcpClose i) = (i < 8)"
| "call_ok (CUdpClose i) = (i < 8)"
| "call_ok (CTcpReconnect i) = (i < 8)"
| "call_ok (CUdpReconnect i) = (i < 8)"
| "call_ok (CDrop i) = (i < 8)"
| "call_ok (CHold i) = (i < 8)"
| "call_ok (CUnhold i) = (i < 8)"
| "call_ok _ = True"

text \<open>
  What a handle operation may do to its slot: it keeps the block and the soundness of the
  rings, does not free the slot, and never takes free space from the receive ring.
\<close>

definition sock_step :: "socket \<Rightarrow> socket \<Rightarrow> bool" where
  "sock_step s s' \<longleftrightarrow> rings_inv (sock_rings s') \<and> bk_block (cell (backend s')) = bk_block (cell (backend s)) \<and>
     (bk_state (cell (backend s')) = BFree \<longleftrightarrow> bk_state (cell (backend s)) = BFree) \<and>
     free_space (rx (sock_rings s)) \<le> free_space (rx (sock_rings s'))"

definition sock_safe :: "(socket, 'a) sm \<Rightarrow> bool" where
  "sock_safe m \<longleftrightarrow> (\<forall>s. rings_inv (sock_rings s) \<longrightarrow> wp m (\<lambda>r s'. sock_step s s' \<and> r \<noteq> Panic) s)"

lemma free_space_read:
  assumes "ring_inv r" "contents r' = drop n (contents r)" "ring_inv r'" "cap r' = cap r"
  shows "free_space r \<le> free_space r'"
  using ring.fifo_room [OF assms(1)] ring.fifo_room [OF assms(3)] assms(2,4) by simp

lemma sock_safe_read: "sock_safe (quietly (tcp_read n))"
  unfolding sock_safe_def
proof (intro allI impI)
  fix s :: socket assume s: "rings_inv (sock_rings s)"
  obtain r where r: "ring_read n (rx (sock_rings s)) = (Ok (take n (contents (rx (sock_rings s)))), r)"
    "contents r = drop n (contents (rx (sock_rings s)))" "ring_inv r" "cap r = cap (rx (sock_rings s))"
    using ring.fifo_read [of "rx (sock_rings s)" n] s by (auto simp: rings_inv_def)
  with free_space_read [OF _ r(2-4)] s show "wp (quietly (tcp_read n)) (\<lambda>r s'. sock_step s s' \<and> r \<noteq> Panic) s"
    by (auto simp: quietly_def tcp_read_def wp_def bnd_def ret_def zoom_def sock_step_def rings_inv_def)
qed

lemma sock_safe_write: "sock_safe (quietly (tcp_write src))"
  unfolding sock_safe_def
proof (intro allI impI)
  fix s :: socket assume s: "rings_inv (sock_rings s)"
  obtain n r where "ring_write src (tx (sock_rings s)) = (Ok n, r)" "ring_inv r"
    using ring.fifo_write [of "tx (sock_rings s)" src] s by (auto simp: rings_inv_def)
  with s show "wp (quietly (tcp_write src)) (\<lambda>r s'. sock_step s s' \<and> r \<noteq> Panic) s"
    by (auto simp: quietly_def tcp_write_def wp_def bnd_def ret_def zoom_def sock_step_def rings_inv_def)
qed

lemma free_space_clear: "ring_inv r \<Longrightarrow> free_space r \<le> free_space (ring_clear r)"
  using ring_inv_clear [of r] ring.fifo_room [of r] ring.fifo_room [of "ring_clear r"]
  by (simp add: ring_clear_def)

lemma request_close_free [simp]: "request_close_state b = BFree \<longleftrightarrow> b = BFree"
  by (cases b) simp_all

lemma sock_safe_control:
  "sock_safe release_rx" "sock_safe commit_tx" "sock_safe (set_held b)"
  "sock_safe (quietly tcp_handle_status)" "sock_safe (quietly udp_handle_status)"
  "sock_safe tcp_close" "sock_safe udp_close" "sock_safe handle_drop"
  by (auto simp: sock_safe_def sock_step_def release_rx_def commit_tx_def set_held_def quietly_def wp_rules
      tcp_handle_status_def udp_handle_status_def tcp_close_def udp_close_def handle_drop_def on_backend_def
      wp_ignore rings_inv_def request_release_def split: backend_state.splits)

lemma sock_safe_reconnect: "sock_safe tcp_reconnect" "sock_safe udp_reconnect"
  by (auto simp: sock_safe_def sock_step_def tcp_reconnect_def udp_reconnect_def wp_def rings_inv_def
      rings_clear_def free_space_clear ring_inv_clear split: backend_state.splits)

lemma on_socket_keeps:
  assumes "sock_safe m" "w_inv D L w" "i < 8"
  shows "wp (on_socket i m) (\<lambda>r w'. w_inv D L w' \<and> r \<noteq> Panic) w"
proof -
  let ?s = "sockets w ! i"
  obtain r s' where m: "m ?s = (r, s')" by (cases "m ?s") auto
  have w: "length (sockets w) = 8" "socks_ok 0 (sockets w)" using assms(2) by (auto simp: w_inv_def rest_ok_def)
  then have ok: "sock_ok i ?s" using assms(3) by (simp add: socks_ok_nth)
  then have step: "sock_step ?s s'" "r \<noteq> Panic"
    using assms(1) m by (auto simp: sock_safe_def sock_ok_def wp_def)
  have "socks_ok 0 ((sockets w)[i := s'])"
    by (rule socks_ok_update [OF w(2)]) (use ok step in \<open>simp add: sock_ok_def sock_step_def\<close>)
  moreover have "op_ok L op ((sockets w)[i := s'])" if "op_ok L op (sockets w)" for op
    using that step(1) assms(3) w(1)
    by (cases "op_idx op = i") (auto simp: op_ok_def sock_step_def)
  ultimately show ?thesis
    using assms m step(2) w(1)
    by (auto simp: wp_def on_socket_def w_inv_def rest_ok_def split: option.splits)
qed

text \<open>Opening touches only a slot that was free.\<close>

lemma open_loop_spec:
  assumes "socks_ok i ss" "buffer_ok rxb" "buffer_ok txb" "\<And>b. bk_block (snd (claim b)) = bk_block b"
    "open_loop claim rxb txb i ss = (r, ss')"
  shows "socks_ok i ss' \<and> length ss' = length ss \<and> r \<noteq> Panic \<and>
    (\<forall>j < length ss. bk_state (cell (backend (ss ! j))) \<noteq> BFree \<longrightarrow>
       cell (backend (ss' ! j)) = cell (backend (ss ! j)) \<and> sock_rings (ss' ! j) = sock_rings (ss ! j))"
  using assms
proof (induction claim rxb txb i ss arbitrary: r ss' rule: open_loop.induct)
  case (2 claim rxb txb i s ss)
  have rings: "rings_inv (rings_install rxb txb (sock_rings s))"
    using 2(4,5) by (simp add: rings_inv_def rings_install_def buffer_ok_def ring_inv_install)
  obtain r2 ss2 where rec: "open_loop claim rxb txb (i + 1) ss = (r2, ss2)"
    by (cases "open_loop claim rxb txb (i + 1) ss") auto
  have ok: "sock_ok i s" "socks_ok (i + 1) ss" using 2(3) by simp_all
  show ?case
  proof (cases "\<not> busy (backend s) \<and> is_free (cell (backend s))")
    case True
    then show ?thesis using 2(7) ok rings 2(6)
      by (auto simp: lock_mut_def try_lock_internal_def drop_guard_def sock_ok_def is_free_def nth_Cons
          split: nat.splits)
  next
    case False
    have "socks_ok (i + 1) ss2 \<and> length ss2 = length ss \<and> r2 \<noteq> Panic \<and>
      (\<forall>j < length ss. bk_state (cell (backend (ss ! j))) \<noteq> BFree \<longrightarrow>
       cell (backend (ss2 ! j)) = cell (backend (ss ! j)) \<and> sock_rings (ss2 ! j) = sock_rings (ss ! j))"
    proof (cases "busy (backend s)")
      case True
      then show ?thesis
        using 2(1) [of "Inl Busy" "backend s" Busy r2 ss2] ok 2(4-6) rec
        by (simp add: lock_mut_def try_lock_internal_def)
    next
      case nb: False
      then show ?thesis
        using 2(2) [of "Inr (cell (backend s))" "(backend s)\<lparr>busy := True\<rparr>" "cell (backend s)" r2 ss2] ok 2(4-6) rec False
        by (simp add: lock_mut_def try_lock_internal_def)
    qed
    then show ?thesis using 2(7) ok rec False
      by (auto simp: lock_mut_def try_lock_internal_def drop_guard_def sock_ok_def nth_Cons split: nat.splits if_splits)
  qed
qed auto

lemma open_keeps:
  assumes "w_inv D L w" "buffer_ok rxb" "buffer_ok txb" "\<And>b. bk_block (snd (claim b)) = bk_block b"
  shows "wp (quietly (on_sockets (open_loop claim rxb txb 0))) (\<lambda>r w'. w_inv D L w' \<and> r \<noteq> Panic) w"
proof -
  obtain r ss where o: "open_loop claim rxb txb 0 (sockets w) = (r, ss)"
    by (cases "open_loop claim rxb txb 0 (sockets w)") auto
  have w: "socks_ok 0 (sockets w)" "length (sockets w) = 8" using assms(1) by (auto simp: w_inv_def rest_ok_def)
  note post = open_loop_spec [OF w(1) assms(2-4) o]
  have "op_ok L op ss" if "op_ok L op (sockets w)" for op
    using that post by (auto simp: op_ok_def)
  with post w(2) assms(1) have "w_inv D L (w\<lparr>sockets := ss\<rparr>)"
    by (auto simp: w_inv_def rest_ok_def split: option.splits)
  with post o show ?thesis
    by (cases r) (auto simp: quietly_def on_sockets_def wp_def bnd_def zoom_def ret_def)
qed

lemma claim_block: "bk_block (snd (claim_tcp t b)) = bk_block b" "bk_block (snd (claim_udp u b)) = bk_block b"
  by (simp_all add: claim_tcp_def claim_udp_def)

lemma set_config_keeps:
  assumes "w_inv D L w"
  shows "wp (set_network_config cfg) (\<lambda>r w'. w_inv D L w' \<and> r \<noteq> Panic) w"
  using assms by (auto simp: set_network_config_def wp_rules w_inv_def rest_ok_def split: option.splits)

context spi_contract
begin

lemma w_exec_keeps:
  assumes "w_inv D L w" "call_ok call"
  shows "wp (w_exec D P call) (\<lambda>r w'. w_inv D L w' \<and> r \<noteq> Panic) w"
proof (cases call)
  case CService
  then show ?thesis using service_spec [OF assms(1)] by simp
next
  case CDmaComplete
  then show ?thesis using wp_mono [OF dma_complete_spec [OF assms(1)]] by simp
next
  case CReset
  then show ?thesis using wp_mono [OF reset_spec [OF assms(1)]] by (simp add: w_quiet_def)
qed (use assms in \<open>simp_all add: set_config_keeps open_keeps claim_block open_tcp_connect_def open_tcp_listen_def
    open_udp_def on_socket_keeps sock_safe_read sock_safe_write sock_safe_control sock_safe_reconnect\<close>)

end


subsection \<open>Properties\<close>

fun w_run ::
  "('d, 't) spi_dma_device \<Rightarrow> 'p output_pin \<Rightarrow> w_call list \<Rightarrow> ('d, 't, 'p) w6100 \<Rightarrow> unit res list \<times> ('d, 't, 'p) w6100" where
  "w_run D P [] w = ([], w)"
| "w_run D P (call # calls) w =
     (case w_exec D P call w of (r, w1) \<Rightarrow> case w_run D P calls w1 of (rs, w2) \<Rightarrow> (r # rs, w2))"

lemma socks_ok_new: "socks_ok i (map make_socket [i..<n])"
proof (induction "n - i" arbitrary: i)
  case (Suc k)
  then have "[i..<n] = i # [Suc i..<n]" by (simp add: upt_rec)
  moreover have "sock_ok i (make_socket i)"
    by (simp add: sock_ok_def make_socket_def rings_inv_def rings_new_def ring_inv_new cell_new_def backend_new_def)
  ultimately show ?case using Suc.hyps(1) [of "Suc i"] Suc.hyps(2) by simp
qed simp

context spi_contract
begin

lemma new_spec:
  assumes "length (rx_buf b) = L" "length (tx_buf b) = L"
  shows "case w6100_new D P dev pin b m of Ok w \<Rightarrow> w_quiet L w | Err e \<Rightarrow> True | Panic \<Rightarrow> False"
proof -
  let ?w = "\<lparr>device = cell_new \<lparr>transport = \<lparr>dev_cell = cell_new (Idle dev b)\<rparr>, rst = pin\<rparr>, mac = m,
     config = cell_new None, config_dirty = False, link_up = False, sockets = map make_socket [0..<8],
     bulk = cell_new None\<rparr>"
  have "w_inv D L ?w"
    using assms socks_ok_new [of 0 8]
    by (simp add: w_inv_def rest_ok_def idle_def cell_new_def good_bufs_def del: upt_rec_numeral)
  from reset_spec [OF this, of P] assms show ?thesis
    by (auto simp: w6100_new_def transceiver_new_def wp_def split: prod.splits res.splits)
qed

lemma w_run_spec:
  assumes "w_inv D L w" "\<forall>call \<in> set calls. call_ok call" "w_run D P calls w = (rs, w')"
  shows "w_inv D L w' \<and> Panic \<notin> set rs"
  using assms
proof (induction calls arbitrary: w rs w')
  case (Cons call calls)
  obtain r w1 where e: "w_exec D P call w = (r, w1)" by (cases "w_exec D P call w") auto
  obtain rs2 w2 where rest: "w_run D P calls w1 = (rs2, w2)" by (cases "w_run D P calls w1") auto
  have "w_inv D L w1" "r \<noteq> Panic"
    using wpD [OF w_exec_keeps [OF Cons.prems(1), of call P] e] Cons.prems(2) by auto
  with Cons.IH [OF _ _ rest] Cons.prems e rest show ?case by auto
qed simp

end

text \<open>
  C1. The driver is safe in every interleaving. A driver built on equal scratch buffers never
  panics, neither when it is constructed nor in any sequence of interrupts and application
  calls; and at any time the bus is idle if no transfer is recorded, and otherwise the
  recorded transfer is in flight, belongs to an occupied slot, fits the scratch buffer, and
  what it will deliver fits the free space of that slot's receive ring.
\<close>

theorem driver_safe:
  assumes "spi_contract D" "length (rx_buf b) = L" "length (tx_buf b) = L"
  shows "w6100_new D P dev pin b m \<noteq> Panic \<and>
    (w6100_new D P dev pin b m = Ok w \<and> (\<forall>call \<in> set calls. call_ok call) \<and> w_run D P calls w = (rs, w') \<longrightarrow>
       Panic \<notin> set rs \<and>
       (case cell (bulk w') of
          None \<Rightarrow> idle L (transport (cell (device w')))
        | Some op \<Rightarrow> in_flight D L (transport (cell (device w'))) \<and> op_idx op < 8 \<and> HEADER + op_bytes op \<le> L \<and>
            bk_state (cell (backend (sockets w' ! op_idx op))) \<noteq> BFree \<and>
            bulk_need (op_kind op) (op_bytes op) \<le> free_space (rx (sock_rings (sockets w' ! op_idx op)))))"
proof -
  note new = spi_contract.new_spec [OF assms, of P dev pin m]
  have inv: "w_inv D L w' \<and> Panic \<notin> set rs"
    if "w6100_new D P dev pin b m = Ok w" "\<forall>call \<in> set calls. call_ok call" "w_run D P calls w = (rs, w')"
    using spi_contract.w_run_spec [OF assms(1) _ that(2,3), of L] new that(1)
    by (simp add: spi_contract.w_quiet_def [OF assms(1)])
  show ?thesis
    using new inv by (auto simp: w_inv_def op_ok_def rest_ok_def split: option.splits res.splits)
qed

text \<open>A small instance for the witnesses: the chip model with FIFOs of four bytes.\<close>

definition tiny_socket :: socket_model where
  "tiny_socket = socket_model_new
     \<lparr>srx := cb_new\<lparr>cb_data := replicate 4 0\<rparr>, stx := cb_new\<lparr>cb_data := replicate 4 0\<rparr>\<rparr>"

definition tiny_chip :: chip_state where
  "tiny_chip = \<lparr>csockets = replicate 8 tiny_socket, sent = replicate 8 [], sent_dgrams = replicate 8 []\<rparr>"

definition tiny_bufs :: dma_buffers where
  "tiny_bufs = \<lparr>rx_buf = replicate 16 0, tx_buf = replicate 16 0, dma_len = 0\<rparr>"

fun is_ok :: "'a res \<Rightarrow> bool" where
  "is_ok (Ok _) = True"
| "is_ok _ = False"

lemma is_okE: "is_ok r \<Longrightarrow> \<exists>x. r = Ok x"
  by (cases r) auto

definition tiny_calls :: "w_call list" where
  "tiny_calls = [COpenListen 80 (replicate 4 0) (replicate 4 0), CService, CDmaComplete, CTcpClose 0, CService, CReset]"

theorem driver_safe_witness:
  "\<exists>w. w6100_new chip mock_pin tiny_chip () tiny_bufs [1, 2, 3, 4, 5, 6] = Ok w \<and>
     Panic \<notin> set (fst (w_run chip mock_pin tiny_calls w))"
proof -
  have "is_ok (w6100_new chip mock_pin tiny_chip () tiny_bufs [1, 2, 3, 4, 5, 6])" by code_simp
  then obtain w where w: "w6100_new chip mock_pin tiny_chip () tiny_bufs [1, 2, 3, 4, 5, 6] = Ok w"
    using is_okE by blast
  obtain rs w' where run: "w_run chip mock_pin tiny_calls w = (rs, w')"
    by (cases "w_run chip mock_pin tiny_calls w")
  have ok: "\<forall>call \<in> set tiny_calls. call_ok call" by (simp add: tiny_calls_def buffer_ok_def)
  have "length (rx_buf tiny_bufs) = 16" "length (tx_buf tiny_bufs) = 16" by (simp_all add: tiny_bufs_def)
  from driver_safe [OF chip.spi_contract_axioms this, of mock_pin tiny_chip "()" "[1, 2, 3, 4, 5, 6]" w tiny_calls rs w']
    w run ok show ?thesis by simp
qed

end
