(* ===== verification/Driver_Completion.thy ===== *)
theory Driver_Completion
  imports Driver_Safety
begin

text \<open>
  The completion of a bulk transfer (\<^verbatim>\<open>dma_complete\<close> and \<^verbatim>\<open>finish_bulk\<close> of
  \<^verbatim>\<open>wiznet-rs/src/lib.rs\<close>): what it delivers, and the situations in which the driver loses
  the bus, the old session's bytes or a reset.
\<close>

subsection \<open>What a completed transfer delivers\<close>

lemma udp_ring_append:
  assumes "udp_ring ds r" "ring_inv r'" "length data < 2 ^ 16"
    "contents r' = contents r @ frame_header (of_nat (length data)) a @ data" "ring_frames r' = ring_frames r + 1"
  shows "udp_ring (ds @ [(a, data)]) r'"
  using assms by (simp add: udp_ring_def frame_def sendable_def)

context spi_contract
begin

lemma dma_complete_unfold:
  assumes "w_inv D L w" "cell (bulk w) = Some op" "with_device (finish_body D op) w = (r, w')" "r \<noteq> Panic"
    "w_quiet L (put_bulk None w')"
  shows "dma_complete D P w = (Ok (), snd (w6100_service D P (put_bulk None w')))"
proof -
  have b: "\<not> busy (bulk w)" using assms(1) by (simp add: w_inv_def rest_ok_def)
  obtain r2 w2 where s: "w6100_service D P (put_bulk None w') = (r2, w2)"
    by (cases "w6100_service D P (put_bulk None w')")
  have "r2 \<noteq> Panic" using wpD [OF service_spec s, of L] assms(5) by (simp add: w_quiet_def)
  with b assms(2-4) s show ?thesis
    by (cases r; cases r2) (simp_all add: dma_complete_def bnd_def ignore_def modify_def)
qed

lemma delivered_read:
  assumes "in_flight D L t" "HEADER + op_bytes op \<le> L" "delivered op t q q'" "op_kind op \<noteq> BulkTransmit"
  obtains payload t0 where "finish_read D (op_bytes op) t = (Ok payload, t0)" "length payload = op_bytes op"
    "op_kind op = BulkReceive \<Longrightarrow> contents (rx q') = contents (rx q) @ payload"
    "\<And>a p. op_kind op = BulkReceiveDatagram a p \<Longrightarrow> contents (rx q') = contents (rx q) @
       frame_header (of_nat (op_bytes op)) \<lparr>ip = a, port = p\<rparr> @ payload \<and> ring_frames (rx q') = ring_frames (rx q) + 1"
proof -
  from assms(3,4) obtain payload t0 where f: "finish_read D (op_bytes op) t = (Ok payload, t0)"
    by (auto simp: delivered_def split: bulk_kind.splits)
  with finish_read_in_flight [OF assms(1) f assms(2)] have "length payload = op_bytes op" by simp
  with f assms(3) show thesis by (intro that [OF f]) (auto simp: delivered_def)
qed

end

text \<open>
  C6. Completion delivers exactly what was received. When a recorded transfer completes, the
  bus is idle again whatever the outcome of the epilogue, and only the receive ring of the
  transfer's own slot changes: a stream transfer appends the captured bytes, a datagram
  transfer appends one whole datagram from its sender, a transmission nothing. The handler
  then clears the record and serves the sockets.
\<close>

theorem completion_delivers:
  assumes "spi_contract D" "w_inv D L w" "cell (bulk w) = Some op"
  shows "\<exists>r w' payload. with_device (finish_body D op) w = (r, w') \<and> r \<noteq> Panic \<and>
    dma_complete D P w = (Ok (), snd (w6100_service D P (put_bulk None w'))) \<and>
    idle L (transport (cell (device w'))) \<and>
    (\<forall>j. j \<noteq> op_idx op \<longrightarrow> sockets w' ! j = sockets w ! j) \<and>
    backend (sockets w' ! op_idx op) = backend (sockets w ! op_idx op) \<and>
    (let q = sock_rings (sockets w ! op_idx op); q' = sock_rings (sockets w' ! op_idx op) in
     tx q' = tx q \<and>
     (case op_kind op of
        BulkReceive \<Rightarrow> fst (finish_read D (op_bytes op) (transport (cell (device w)))) = Ok payload \<and>
          length payload = op_bytes op \<and> contents (rx q') = contents (rx q) @ payload
      | BulkReceiveDatagram a p \<Rightarrow> fst (finish_read D (op_bytes op) (transport (cell (device w)))) = Ok payload \<and>
          length payload = op_bytes op \<and>
          (\<forall>ds. udp_ring ds (rx q) \<and> op_bytes op < 2 ^ 16 \<longrightarrow>
             udp_ring (ds @ [(\<lparr>ip = a, port = p\<rparr>, payload)]) (rx q'))
      | BulkTransmit \<Rightarrow> rx q' = rx q))"
proof -
  let ?i = "op_idx op" and ?t = "transport (cell (device w))"
  obtain r w' where f: "with_device (finish_body D op) w = (r, w')" by (cases "with_device (finish_body D op) w")
  note post = wpD [OF spi_contract.finish_body_spec [OF assms] f]
  note unf = spi_contract.dma_complete_unfold [OF assms f, of P]
  have op: "in_flight D L ?t" "HEADER + op_bytes op \<le> L" "?i < 8" using assms(2,3)
    by (auto simp: w_inv_def op_ok_def rest_ok_def)
  have quiet: "\<not> busy (bulk w')" "rest_ok (put_bulk None w')" "idle L (transport (cell (device (put_bulk None w'))))"
    using post assms(2) by (auto simp: spi_contract.w_quiet_iff [OF assms(1)] w_inv_def rest_ok_def)
  have inv: "ring_inv (rx (sock_rings (sockets w' ! ?i)))" and id: "idle L (transport (cell (device w')))"
    using quiet op(3) by (auto simp: put_bulk_free rest_ok_def socks_ok_nth sock_ok_def rings_inv_def)
  show ?thesis
  proof (cases "op_kind op = BulkTransmit")
    case True
    with f post unf id show ?thesis
      by (intro exI [of _ r] exI [of _ w']) (auto simp: spi_contract.delivered_def [OF assms(1)])
  next
    case False
    from post have d: "spi_contract.delivered D op ?t (sock_rings (sockets w ! ?i)) (sock_rings (sockets w' ! ?i))"
      by blast
    from spi_contract.delivered_read [OF assms(1) op(1,2) d False]
    obtain payload t0 where p: "finish_read D (op_bytes op) ?t = (Ok payload, t0)" "length payload = op_bytes op"
      "op_kind op = BulkReceive \<Longrightarrow> contents (rx (sock_rings (sockets w' ! ?i))) = contents (rx (sock_rings (sockets w ! ?i))) @ payload"
      "\<And>a p. op_kind op = BulkReceiveDatagram a p \<Longrightarrow>
         contents (rx (sock_rings (sockets w' ! ?i))) = contents (rx (sock_rings (sockets w ! ?i))) @
           frame_header (of_nat (op_bytes op)) \<lparr>ip = a, port = p\<rparr> @ payload \<and>
         ring_frames (rx (sock_rings (sockets w' ! ?i))) = ring_frames (rx (sock_rings (sockets w ! ?i))) + 1"
      by metis
    show ?thesis
      by (intro exI [of _ r] exI [of _ w'] exI [of _ payload])
        (use f post unf id p inv udp_ring_append False in
          \<open>auto simp: Let_def split: bulk_kind.splits\<close>)
  qed
qed


text \<open>A driver with a transfer in flight for its first slot, an established TCP socket.\<close>

definition tiny_tcp :: tcp_socket_state where
  "tiny_tcp = (tcp_listen 80)\<lparr>tcp_status := Established\<rparr>"

definition tiny_op :: bulk_op where
  "tiny_op = \<lparr>op_idx = 0, op_kind = BulkReceive, op_block = socket_block 0, op_pointer = 0, op_bytes = 2\<rparr>"

definition tiny_slot :: socket where
  "tiny_slot = \<lparr>backend = cell_new (snd (claim_tcp tiny_tcp (backend_new (socket_block 0)))),
     sock_rings = rings_install (replicate 4 0) (replicate 4 0) rings_new\<rparr>"

definition tiny_w :: "(chip_state, chip_state \<times> dma_buffers, unit) w6100" where
  "tiny_w = \<lparr>device = cell_new \<lparr>transport = \<lparr>dev_cell = cell_new
       (InFlight (tiny_chip, tiny_bufs\<lparr>rx_buf := [0, 0, 0, 7, 9] @ replicate 11 0\<rparr>))\<rparr>, rst = ()\<rparr>,
     mac = [1, 2, 3, 4, 5, 6], config = cell_new None, config_dirty = False, link_up = True,
     sockets = tiny_slot # map make_socket [1..<8], bulk = cell_new (Some tiny_op)\<rparr>"

lemma tiny_w_inv: "w_inv chip 16 tiny_w"
proof -
  have r: "rings_inv (sock_rings tiny_slot)"
    by (simp add: tiny_slot_def rings_inv_def rings_install_def ring_inv_install rings_new_def)
  have f: "free_space (rx (sock_rings tiny_slot)) = 4"
    by (simp add: tiny_slot_def rings_install_def ring_install_def free_space_def ring_len_def)
  have s: "socks_ok 1 (map make_socket [1..<8])" by (rule socks_ok_new)
  show ?thesis using r f s
    by (simp add: tiny_w_def w_inv_def rest_ok_def cell_new_def in_flight_def good_bufs_def tiny_bufs_def
        chip_def op_ok_def tiny_op_def HEADER_def sock_ok_def tiny_slot_def claim_tcp_def backend_new_def is_free_def
        del: upt_rec_numeral)
qed

theorem completion_delivers_witness:
  "\<exists>r w'. with_device (finish_body chip tiny_op) tiny_w = (r, w') \<and>
     contents (rx (sock_rings (sockets w' ! 0))) = [7, 9]"
proof -
  have b: "cell (bulk tiny_w) = Some tiny_op" by (simp add: tiny_w_def cell_new_def)
  have "fst (finish_read chip 2 (transport (cell (device tiny_w)))) = Ok [7, 9]"
    "contents (rx (sock_rings (sockets tiny_w ! 0))) = []" by code_simp+
  moreover have "op_kind tiny_op = BulkReceive" "op_idx tiny_op = 0" "op_bytes tiny_op = 2" by (simp_all add: tiny_op_def)
  ultimately show ?thesis
    using completion_delivers [OF chip.spi_contract_axioms tiny_w_inv b, of mock_pin]
    by (auto simp: Let_def)
qed


subsection \<open>Where the driver falls short\<close>

text \<open>
  C28. A completion that finds the device locked loses the bus. When the DMA interrupt
  preempts a holder of the device, the handler cannot finish the transfer but clears its
  record all the same; once the device is unlocked the transfer still owns the bus, every
  further completion is ignored, and service reports \<open>WouldBlock\<close> without changing anything.
\<close>

theorem completion_lost_on_busy_device:
  assumes "in_flight D L (transport (cell (device w)))" "busy (device w)" "\<not> busy (bulk w)"
    "cell (bulk w) = Some op" "w1 = w\<lparr>bulk := cell_new None\<rparr>"
    "w2 = w1\<lparr>device := cell_new (cell (device w))\<rparr>"
  shows "dma_complete D P w = (Ok (), w1) \<and>
    dma_complete D P w2 = (Ok (), w2) \<and> w6100_service D P w2 = (Err WouldBlock, w2)"
proof -
  obtain x where x: "\<not> busy (dev_cell (transport (cell (device w))))"
    "cell (dev_cell (transport (cell (device w)))) = InFlight x"
    using assms(1) by (auto simp: in_flight_def)
  have cells: "\<lparr>cell = None, busy = False\<rparr> = (bulk w)\<lparr>cell := None\<rparr>"
    using assms(3) by (cases "bulk w") simp
  have 1: "dma_complete D P w = (Ok (), w1)"
    using assms(2-5) cells
    by (simp add: dma_complete_def bnd_def ignore_def with_device_def lock_mut_def try_lock_internal_def
        modify_def put_bulk_free w6100_service_def gets_def bulk_in_flight_def is_link_up_def cell_new_def
        from_atomic_error_def)
  have "w6100_service D P w2 = (Err WouldBlock, w2)"
    using x assms(5,6)
    by (simp add: bnd_def with_device_def lock_mut_def try_lock_internal_def w6100_service_def gets_def
        bulk_in_flight_def is_link_up_def cell_new_def read_u8_def spi_read_def spi_def zoom_def transaction_def
        on_cell_def locked_def transaction_body_def from_atomic_error_def drop_guard_def)
  then show ?thesis using 1 assms(5,6) by (simp add: dma_complete_def cell_new_def)
qed

theorem completion_lost_on_busy_device_witness:
  "w6100_service chip mock_pin (tiny_w\<lparr>bulk := cell_new None\<rparr>) =
     (Err WouldBlock, tiny_w\<lparr>bulk := cell_new None\<rparr>)"
proof -
  let ?w = "tiny_w\<lparr>device := (device tiny_w)\<lparr>busy := True\<rparr>\<rparr>"
  have "in_flight chip 16 (transport (cell (device ?w)))" using tiny_w_inv
    by (simp add: w_inv_def tiny_w_def cell_new_def)
  moreover have "busy (device ?w)" "\<not> busy (bulk ?w)" "cell (bulk ?w) = Some tiny_op"
    by (simp_all add: tiny_w_def cell_new_def)
  ultimately show ?thesis
    using completion_lost_on_busy_device [of chip 16 ?w tiny_op _ _ mock_pin, OF _ _ _ _ refl refl]
    by (simp add: tiny_w_def cell_new_def)
qed

text \<open>
  C30. Reconnecting while a transfer is in flight hands the new session bytes of the old one.
  \<^verbatim>\<open>reconnect\<close> empties the rings and re-arms the machine, but the transfer recorded for the
  slot completes afterwards and its bytes become the contents of the emptied ring.
\<close>

theorem reconnect_keeps_stale_bytes:
  assumes "spi_contract D" "w_inv D L w" "cell (bulk w) = Some op" "op_kind op = BulkReceive"
    "\<not> busy (backend (sockets w ! op_idx op))" "bk_state (cell (backend (sockets w ! op_idx op))) = BTcp t"
  shows "\<exists>w1 r w2 payload. on_socket (op_idx op) tcp_reconnect w = (Ok (), w1) \<and>
    contents (rx (sock_rings (sockets w1 ! op_idx op))) = [] \<and>
    with_device (finish_body D op) w1 = (r, w2) \<and>
    fst (finish_read D (op_bytes op) (transport (cell (device w)))) = Ok payload \<and>
    bk_state (cell (backend (sockets w2 ! op_idx op))) = BTcp (tcp_rearm t) \<and>
    payload \<noteq> [] \<and> contents (rx (sock_rings (sockets w2 ! op_idx op))) = payload"
proof -
  let ?i = "op_idx op"
  have i: "?i < 8" "length (sockets w) = 8" "0 < op_bytes op"
    using assms(2,3) by (auto simp: w_inv_def op_ok_def rest_ok_def)
  obtain r1 w1 where rc: "on_socket ?i tcp_reconnect w = (r1, w1)" by (cases "on_socket ?i tcp_reconnect w")
  have w1: "w_inv D L w1" using wpD [OF on_socket_keeps [OF sock_safe_reconnect(1) assms(2) i(1)] rc] by simp
  have eq: "r1 = Ok ()" "bulk w1 = bulk w" "device w1 = device w"
    "bk_state (cell (backend (sockets w1 ! ?i))) = BTcp (tcp_rearm t)"
    "contents (rx (sock_rings (sockets w1 ! ?i))) = []"
    using rc i assms(5,6)
    by (auto simp: on_socket_def tcp_reconnect_def rings_clear_def ring_clear_def contents_def ring_len_def)
  have b1: "cell (bulk w1) = Some op" using eq assms(3) by simp
  obtain r w2 where f: "with_device (finish_body D op) w1 = (r, w2)" by (cases "with_device (finish_body D op) w1")
  note post = wpD [OF spi_contract.finish_body_spec [OF assms(1) w1 b1] f]
  have op: "in_flight D L (transport (cell (device w)))" "HEADER + op_bytes op \<le> L" "op_kind op \<noteq> BulkTransmit"
    using assms(2-4) by (auto simp: w_inv_def op_ok_def)
  from post eq(3) have "spi_contract.delivered D op (transport (cell (device w)))
      (sock_rings (sockets w1 ! ?i)) (sock_rings (sockets w2 ! ?i))" by simp
  from spi_contract.delivered_read [OF assms(1) op(1,2) this op(3)] assms(4) obtain payload t0 where
    "finish_read D (op_bytes op) (transport (cell (device w))) = (Ok payload, t0)" "length payload = op_bytes op"
    "contents (rx (sock_rings (sockets w2 ! ?i))) = payload"
    using eq(5) by (metis append_Nil)
  with rc eq i(3) f post show ?thesis by fastforce
qed

theorem reconnect_keeps_stale_bytes_witness:
  "\<exists>w1 r w2. on_socket 0 tcp_reconnect tiny_w = (Ok (), w1) \<and>
     with_device (finish_body chip tiny_op) w1 = (r, w2) \<and> contents (rx (sock_rings (sockets w2 ! 0))) = [7, 9]"
proof -
  have "cell (bulk tiny_w) = Some tiny_op" "op_kind tiny_op = BulkReceive"
    "\<not> busy (backend (sockets tiny_w ! op_idx tiny_op))"
    "bk_state (cell (backend (sockets tiny_w ! op_idx tiny_op))) = BTcp tiny_tcp"
    by (simp_all add: tiny_w_def tiny_op_def cell_new_def tiny_slot_def claim_tcp_def backend_new_def is_free_def)
  from reconnect_keeps_stale_bytes [OF chip.spi_contract_axioms tiny_w_inv this]
  obtain w1 r w2 payload where w: "on_socket 0 tcp_reconnect tiny_w = (Ok (), w1)"
    "with_device (finish_body chip tiny_op) w1 = (r, w2)" "contents (rx (sock_rings (sockets w2 ! 0))) = payload"
    "fst (finish_read chip 2 (transport (cell (device tiny_w)))) = Ok payload"
    by (auto simp: tiny_op_def)
  moreover have "fst (finish_read chip 2 (transport (cell (device tiny_w)))) = Ok [7, 9]" by code_simp
  ultimately show ?thesis by auto
qed


text \<open>
  \<open>frames f m\<close>: whatever happens, \<open>m\<close> leaves the part \<open>f\<close> of the state as it was.
\<close>

definition frames :: "('s \<Rightarrow> 'x) \<Rightarrow> ('s, 'a) sm \<Rightarrow> bool" where
  "frames f m \<longleftrightarrow> (\<forall>s. f (snd (m s)) = f s)"

lemma frames_bnd: "frames f m \<Longrightarrow> (\<And>x. frames f (k x)) \<Longrightarrow> frames f (bnd m k)"
  unfolding frames_def by (auto simp: bnd_def split: prod.splits res.splits) (metis snd_conv)+

lemma framesI: "(\<And>s r s'. m s = (r, s') \<Longrightarrow> f s' = f s) \<Longrightarrow> frames f m"
  unfolding frames_def by (metis surjective_pairing)

lemma framesD: "frames f m \<Longrightarrow> m s = (r, s') \<Longrightarrow> f s' = f s"
  unfolding frames_def by (metis snd_conv)

lemma frames_ret: "frames f (ret x)" "frames f (raise e)"
  by (simp_all add: frames_def ret_def raise_def)

lemma frames_if: "frames f m \<Longrightarrow> frames f n \<Longrightarrow> frames f (if b then m else n)"
  by simp

definition link_flags :: "('d, 't, 'p) w6100 \<Rightarrow> bool \<times> bool" where
  "link_flags w = (link_up w, config_dirty w)"

definition body_flags :: "('d, 't, 'p) device \<times> ('d, 't, 'p) w6100 \<Rightarrow> bool \<times> bool" where
  "body_flags = (\<lambda>(d, w). link_flags w)"

text \<open>The work on the bus and the pin leaves the driver beside the device alone.\<close>

lemma frames_spi: "frames snd (spi m)"
  by (auto simp: frames_def spi_def zoom_def split: prod.splits)

lemma frames_pin: "frames snd (drive_pin f)"
  by (auto simp: frames_def drive_pin_def split: prod.splits)

lemma frames_delay: "frames snd (delay_1ms D)"
  unfolding delay_1ms_def by (rule framesI) (auto simp: as_spi_error_def split: prod.splits res.splits dest: framesD [OF frames_spi])

lemma frames_wait: "frames snd (wait_chip_id D k)"
proof (rule framesI)
  fix s :: "('a, 'b, 'c) device \<times> 'd" and r s'
  assume "wait_chip_id D k s = (r, s')"
  then show "snd s' = snd s"
  proof (induction D k s rule: wait_chip_id.induct)
    case (1 D k s)
    obtain r1 s1 where rd: "spi (read_u16 D CIDR) s = (r1, s1)" by (cases "spi (read_u16 D CIDR) s")
    obtain r2 s2 where dl: "delay_1ms D s1 = (r2, s2)" by (cases "delay_1ms D s1")
    have "snd s1 = snd s" "snd s2 = snd s"
      using framesD [OF frames_spi rd] framesD [OF frames_delay dl] by simp_all
    with "1.IH" [OF rd [symmetric] _ _ _ dl [symmetric]] "1.prems" rd dl show ?case
      by (subst (asm) wait_chip_id.simps) (auto split: res.splits if_splits)
  qed
qed

lemma frames_flags: "frames snd m \<Longrightarrow> frames body_flags m"
  by (simp add: frames_def body_flags_def split: prod.splits) (metis snd_conv surj_pair)

lemma frames_reset: "frames body_flags (reset_body D P)"
proof -
  have "frames body_flags (modify (\<lambda>(d, w). (d, put_bulk None w)))"
    "frames body_flags (\<lambda>(d, w). case reset_sockets D (sockets w) (transport d) of
       (r, ss, t) \<Rightarrow> (r, (d\<lparr>transport := t\<rparr>, w\<lparr>sockets := ss\<rparr>)))"
    by (auto simp: frames_def body_flags_def link_flags_def modify_def put_bulk_def split: prod.splits sum.splits)
  then show ?thesis unfolding reset_body_def
    by (intro frames_bnd frames_flags [OF frames_spi] frames_flags [OF frames_pin] frames_flags [OF frames_delay]
        frames_flags [OF frames_wait] frames_if frames_ret)
qed

lemma with_device_flags:
  assumes "frames body_flags m" "with_device m w = (r, w')"
  shows "link_flags w' = link_flags w"
proof -
  have "link_flags (w\<lparr>device := c\<rparr>) = link_flags w" for c and w :: "('a, 'b, 'c) w6100" by (simp add: link_flags_def)
  with assms(2) assms(1)[unfolded frames_def, rule_format, of "(cell (device w), w\<lparr>device := (device w)\<lparr>busy := True\<rparr>\<rparr>)"]
  show ?thesis
    by (auto simp: with_device_def body_flags_def lock_mut_def try_lock_internal_def split: if_splits prod.splits)
qed

text \<open>
  C29. A reset that fails on link loss is never made up for. Service records the loss of the
  link before it resets the chip; when the reset fails, the next service finds the link
  already down and does nothing, or finds it up and drives the sockets without a reset and
  without writing the network configuration again.
\<close>

theorem failed_reset_never_retried:
  assumes "\<not> bulk_in_flight w" "is_link_up D w = (Ok False, w1)" "link_up w1"
    "w6100_reset D P (w1\<lparr>link_up := False\<rparr>) = (Err e, w2)" "\<not> config_dirty w1" "\<not> bulk_in_flight w2"
    "is_link_up D w2 = (Ok up, w3)"
  shows "w6100_service D P w = (Err e, w2) \<and> \<not> link_up w2 \<and> \<not> config_dirty w2 \<and>
    w6100_service D P w2 = (if up then w6100_run D (w3\<lparr>link_up := True\<rparr>) else (Ok (), w3\<lparr>link_up := False\<rparr>))"
proof -
  have f: "link_flags w2 = (False, False)" "link_flags w3 = link_flags w2"
    using with_device_flags [OF frames_reset assms(4) [unfolded w6100_reset_def]] assms(5)
      with_device_flags [OF frames_bnd [OF frames_flags [OF frames_spi] frames_ret(1)] assms(7) [unfolded is_link_up_def]]
    by (simp_all add: link_flags_def)
  then show ?thesis using assms
    by (auto simp: w6100_service_def bnd_def gets_def modify_def ret_def link_flags_def split: option.splits)
qed

text \<open>A board with the cable out (every register reads zero) and a reset pin that fails.\<close>

definition unplugged :: "(unit, unit \<times> dma_buffers) spi_dma_device" where
  "unplugged = \<lparr>transceive = (\<lambda>d b c. Inr (d, b)), wait = id, delay_ns = (\<lambda>_ d. d)\<rparr>"

definition stuck_pin :: "unit output_pin" where
  "stuck_pin = \<lparr>set_low = (\<lambda>p. (False, p)), set_high = (\<lambda>p. (False, p))\<rparr>"

definition unplugged_w :: "(unit, unit \<times> dma_buffers, unit) w6100" where
  "unplugged_w = \<lparr>device = cell_new \<lparr>transport = \<lparr>dev_cell = cell_new (Idle () tiny_bufs)\<rparr>, rst = ()\<rparr>,
     mac = [1, 2, 3, 4, 5, 6], config = cell_new None, config_dirty = False, link_up = True,
     sockets = map make_socket [0..<8], bulk = cell_new None\<rparr>"

theorem failed_reset_never_retried_witness:
  "\<exists>w2. w6100_service unplugged stuck_pin unplugged_w = (Err (Other PinError), w2) \<and>
     fst (w6100_service unplugged stuck_pin w2) = Ok ()"
proof -
  let ?w1 = "snd (is_link_up unplugged unplugged_w)"
  let ?w2 = "snd (w6100_reset unplugged stuck_pin (?w1\<lparr>link_up := False\<rparr>))"
  have "\<not> bulk_in_flight unplugged_w" "fst (is_link_up unplugged unplugged_w) = Ok False" "link_up ?w1"
    "fst (w6100_reset unplugged stuck_pin (?w1\<lparr>link_up := False\<rparr>)) = Err (Other PinError)" "\<not> config_dirty ?w1"
    "\<not> bulk_in_flight ?w2" "fst (is_link_up unplugged ?w2) = Ok False"
    by code_simp+
  then show ?thesis
    using failed_reset_never_retried [of unplugged_w unplugged ?w1 stuck_pin "Other PinError" ?w2 False
        "snd (is_link_up unplugged ?w2)"]
    by (auto simp: prod_eq_iff)
qed

end
