(* ===== verification/Chip_Fifo.thy ===== *)
theory Chip_Fifo
  imports Chip_Model
begin

text \<open>
  The FIFOs of the chip model (\<^verbatim>\<open>ChipBuffer\<close> of \<^verbatim>\<open>wiznet-rs/tests/echo_harness.rs\<close>) as byte
  streams: 16-bit pointers that run freely over 2048 bytes, and what the moves of the driver
  and of the peer do to the bytes between them.
\<close>

subsection \<open>The FIFO as a byte stream\<close>

definition cb_ok :: "chip_buffer \<Rightarrow> bool" where
  "cb_ok b \<longleftrightarrow> length (cb_data b) = 2048 \<and> unat (cb_used b) \<le> 2048"

text \<open>What the FIFO holds, oldest first.\<close>

definition fifo :: "chip_buffer \<Rightarrow> bytes" where
  "fifo b = cb_peek (read_ptr b) (unat (cb_used b)) b"

lemma length_fifo [simp]: "length (fifo b) = unat (cb_used b)"
  by (simp add: fifo_def)

lemma fifo_index_add: "unat (p + of_nat m :: u16) mod 2048 = (unat p + m) mod 2048"
proof -
  have "unat (p + of_nat m :: u16) = (unat p + m) mod 65536"
    by (simp add: unat_word_ariths unat_of_nat mod_add_right_eq)
  also have "\<dots> mod 2048 = (unat p + m) mod 2048"
    by (rule mod_mod_cancel) simp
  finally show ?thesis .
qed

lemma cb_index: "(unat (p + of_nat m :: u16) + i) mod 2048 = (unat p + (m + i)) mod 2048"
  using fifo_index_add [of p m] by (metis add.assoc mod_add_left_eq)

lemma cb_peek_append:
  assumes "length (cb_data b) = 2048"
  shows "cb_peek p (m + n) b = cb_peek p m b @ cb_peek (p + of_nat m) n b"
proof (rule nth_equalityI)
  fix j assume "j < length (cb_peek p (m + n) b)"
  then show "cb_peek p (m + n) b ! j = (cb_peek p m b @ cb_peek (p + of_nat m) n b) ! j"
    using assms cb_index [of p m "j - m"] by (auto simp: cb_peek_def nth_append)
qed simp

lemma take_cb_peek: "n \<le> m \<Longrightarrow> take n (cb_peek p m b) = cb_peek p n b"
  by (simp add: cb_peek_def take_map)

lemma drop_cb_peek: "n \<le> m \<Longrightarrow> length (cb_data b) = 2048 \<Longrightarrow> drop n (cb_peek p m b) = cb_peek (p + of_nat n) (m - n) b"
  using cb_peek_append [of b p n "m - n"] by simp

lemma length_poke_from [simp]: "length (poke_from k src xs) = length xs"
  by (induction k src xs rule: poke_from.induct) simp_all

lemma mod_shift_neq: "0 < i \<Longrightarrow> i < N \<Longrightarrow> (k + i) mod N \<noteq> k mod (N :: nat)"
proof
  assume i: "0 < i" "i < N" and "(k + i) mod N = k mod N"
  then have "N dvd (k + i) - k" using mod_eq_dvd_iff_nat [of k "k + i" N] by simp
  with i show False using nat_dvd_not_less [of i N] by simp
qed

lemma nth_poke_from:
  assumes "length src \<le> length xs" "i < length xs"
  shows "poke_from k src xs ! ((k + i) mod length xs) =
    (if i < length src then src ! i else xs ! ((k + i) mod length xs))"
  using assms
proof (induction k src xs arbitrary: i rule: poke_from.induct)
  case (2 k b bs xs)
  let ?xs = "xs[k mod length xs := b]"
  show ?case
  proof (cases i)
    case 0
    have "k + 1 + (length xs - 1) = k + length xs" using 2(3) by simp
    then have "(k + 1 + (length xs - 1)) mod length xs = k mod length xs" by (simp only: mod_add_self2)
    moreover have "k mod length xs < length xs" using 2(3) by (intro mod_less_divisor) linarith
    moreover have "\<not> length xs - 1 < length bs" using "2.prems"(1) by simp
    ultimately show ?thesis using "2.IH" [of "length xs - 1"] "2.prems" 0 by simp
  next
    case (Suc j)
    have "?xs ! ((k + i) mod length xs) = xs ! ((k + i) mod length xs)"
      using mod_shift_neq [of i "length xs" k] Suc "2.prems" by simp
    then show ?thesis using "2.IH" [of j] "2.prems" Suc by simp
  qed
qed simp

lemma length_cb_poke [simp]: "length (cb_data (cb_poke p src b)) = length (cb_data b)"
  "read_ptr (cb_poke p src b) = read_ptr b" "write_ptr (cb_poke p src b) = write_ptr b"
  by (simp_all add: cb_poke_def)

text \<open>A window of the FIFO, seen at distance \<open>m\<close> before where new bytes go.\<close>

lemma nth_poke_at:
  assumes "length (cb_data b) = 2048" "length src \<le> 2048" "i < 2048"
  shows "cb_data (cb_poke p src b) ! ((unat p + i) mod 2048) =
     (if i < length src then src ! i else cb_data b ! ((unat p + i) mod 2048))"
  using assms nth_poke_from [of src "cb_data b" i "unat p"] by (simp add: cb_poke_def)

lemma peek_poke_same:
  assumes "length (cb_data b) = 2048" "length src \<le> 2048"
  shows "cb_peek p (length src) (cb_poke p src b) = src"
  by (rule nth_equalityI) (use assms in \<open>auto simp: cb_peek_def nth_poke_at\<close>)

lemma peek_poke_before:
  assumes "length (cb_data b) = 2048" "n + length src \<le> 2048"
  shows "cb_peek q n (cb_poke (q + of_nat n) src b) = cb_peek q n b"
proof (rule nth_equalityI)
  fix j assume "j < length (cb_peek q n (cb_poke (q + of_nat n) src b))"
  then have j: "j < n" by simp
  have "(unat (q + of_nat n) + (2048 - n + j)) mod 2048 = (unat q + (n + (2048 - n + j))) mod 2048"
    by (rule cb_index)
  also have "n + (2048 - n + j) = j + 2048" using assms(2) by simp
  also have "(unat q + (j + 2048)) mod 2048 = (unat q + j) mod 2048"
    by (metis add.assoc mod_add_self2)
  finally have e: "(unat q + j) mod 2048 = (unat (q + of_nat n) + (2048 - n + j)) mod 2048" ..
  show "cb_peek q n (cb_poke (q + of_nat n) src b) ! j = cb_peek q n b ! j"
  proof -
    define i where "i = 2048 - n + j"
    have "i < 2048" "\<not> i < length src" using j assms(2) by (auto simp: i_def)
    then show ?thesis
      using j assms e [folded i_def] nth_poke_at [of b src i "q + of_nat n"] by (simp add: cb_peek_def)
  qed
qed simp

text \<open>The three moves of a FIFO: bytes arrive, the oldest are consumed, everything is sent.\<close>

lemma fifo_arrive:
  assumes "cb_ok b" "unat (cb_used b) + length xs \<le> 2048"
  shows "fifo ((cb_poke (write_ptr b) xs b)\<lparr>write_ptr := write_ptr b + of_nat (length xs)\<rparr>) = fifo b @ xs"
    "cb_ok ((cb_poke (write_ptr b) xs b)\<lparr>write_ptr := write_ptr b + of_nat (length xs)\<rparr>)"
proof -
  let ?b = "(cb_poke (write_ptr b) xs b)\<lparr>write_ptr := write_ptr b + of_nat (length xs)\<rparr>"
  let ?u = "unat (cb_used b)"
  have w: "write_ptr b = read_ptr b + of_nat ?u" by (simp add: cb_used_def)
  have u: "unat (cb_used ?b) = ?u + length xs"
  proof -
    have "cb_used ?b = cb_used b + of_nat (length xs)" by (simp add: cb_used_def)
    then show ?thesis using assms(2) by (simp add: unat_word_ariths unat_of_nat)
  qed
  have "fifo ?b = cb_peek (read_ptr b) (?u + length xs) (cb_poke (write_ptr b) xs b)"
    using u by (simp add: fifo_def cb_peek_def)
  also have "\<dots> = cb_peek (read_ptr b) ?u (cb_poke (write_ptr b) xs b) @
      cb_peek (write_ptr b) (length xs) (cb_poke (write_ptr b) xs b)"
    using assms(1) w by (subst cb_peek_append) (simp_all add: cb_ok_def)
  also have "\<dots> = fifo b @ xs"
    using assms peek_poke_before [of b ?u xs "read_ptr b"] w by (simp add: cb_ok_def fifo_def peek_poke_same)
  finally show "fifo ?b = fifo b @ xs" .
  show "cb_ok ?b" using assms u by (simp add: cb_ok_def)
qed

lemma fifo_consume:
  assumes "cb_ok b" "n \<le> unat (cb_used b)"
  shows "fifo (b\<lparr>read_ptr := read_ptr b + of_nat n\<rparr>) = drop n (fifo b)"
    "cb_ok (b\<lparr>read_ptr := read_ptr b + of_nat n\<rparr>)"
proof -
  have n: "n < 65536" using assms by (simp add: cb_ok_def)
  have "cb_used (b\<lparr>read_ptr := read_ptr b + of_nat n\<rparr>) = cb_used b - of_nat n" by (simp add: cb_used_def)
  moreover have "unat (cb_used b - of_nat n) = unat (cb_used b) - n"
    using assms(2) n by (simp add: unat_sub word_le_nat_alt unat_of_nat)
  ultimately have u: "unat (cb_used (b\<lparr>read_ptr := read_ptr b + of_nat n\<rparr>)) = unat (cb_used b) - n" by simp
  then show "fifo (b\<lparr>read_ptr := read_ptr b + of_nat n\<rparr>) = drop n (fifo b)"
    using assms by (simp add: fifo_def drop_cb_peek cb_ok_def) (simp add: cb_peek_def)
  show "cb_ok (b\<lparr>read_ptr := read_ptr b + of_nat n\<rparr>)" using assms(1) u
    unfolding cb_ok_def by (simp, linarith)
qed

lemma cb_free_unat: "cb_ok b \<Longrightarrow> unat (cb_free b) = 2048 - unat (cb_used b)"
  by (simp add: cb_ok_def cb_free_def BUF_SIZE_def unat_sub word_le_nat_alt)

end
