(* ===== verification/Chip_Bus.thy ===== *)
theory Chip_Bus
  imports Chip_Fifo
begin

text \<open>
  The driver's commands meet the chip model: what the header says, what a transaction on the
  bus reads or changes in the chip, and from that every register accessor of a socket.
\<close>

subsection \<open>Commands on the wire\<close>

lemma word3_cases: "(n :: 3 word) = 0 \<or> n = 1 \<or> n = 2 \<or> n = 3 \<or> n = 4 \<or> n = 5 \<or> n = 6 \<or> n = 7"
proof -
  have "unat n < 8" using unsigned_less [of n] by simp
  then have "unat n \<in> {0, 1, 2, 3, 4, 5, 6, 7}" by auto
  then show ?thesis by (auto simp: word_unat_eq_iff)
qed

fun block_kind :: "block_selection_bits \<Rightarrow> u8" where
  "block_kind CommonRegister = 0"
| "block_kind (SocketRegister _) = 1"
| "block_kind (SocketTxBuffer _) = 2"
| "block_kind (SocketRxBuffer _) = 3"

fun block_sock :: "block_selection_bits \<Rightarrow> nat" where
  "block_sock CommonRegister = 0"
| "block_sock (SocketRegister n) = unat n"
| "block_sock (SocketTxBuffer n) = unat n"
| "block_sock (SocketRxBuffer n) = unat n"

lemma control_decode:
  "decode_kind (push_bit 3 (block_bits b) OR (if wr then 4 else 0)) = block_kind b"
  "decode_sock (push_bit 3 (block_bits b) OR (if wr then 4 else 0)) = block_sock b"
  "(push_bit 3 (block_bits b) OR (if wr then 4 else 0)) AND 4 = (if wr then 4 else 0)"
proof -
  have "decode_kind (push_bit 3 (block_bits b) OR (if wr then 4 else 0)) = block_kind b \<and>
    decode_sock (push_bit 3 (block_bits b) OR (if wr then 4 else 0)) = block_sock b \<and>
    (push_bit 3 (block_bits b) OR (if wr then 4 else 0)) AND 4 = (if wr then 4 else 0)"
  proof (cases b)
    case (SocketRegister n)
    then show ?thesis using word3_cases [of n] by (elim disjE) (simp_all add: decode_kind_def decode_sock_def)
  next
    case (SocketTxBuffer n)
    then show ?thesis using word3_cases [of n] by (elim disjE) (simp_all add: decode_kind_def decode_sock_def)
  next
    case (SocketRxBuffer n)
    then show ?thesis using word3_cases [of n] by (elim disjE) (simp_all add: decode_kind_def decode_sock_def)
  qed (simp add: decode_kind_def decode_sock_def)
  then show "decode_kind (push_bit 3 (block_bits b) OR (if wr then 4 else 0)) = block_kind b"
    "decode_sock (push_bit 3 (block_bits b) OR (if wr then 4 else 0)) = block_sock b"
    "(push_bit 3 (block_bits b) OR (if wr then 4 else 0)) AND 4 = (if wr then 4 else 0)"
    by blast+
qed

lemma create_header_parts:
  "from_be (take 2 (create_header a wr)) = addr a"
  "create_header a wr ! 2 = push_bit 3 (block_bits (block a)) OR (if wr then 4 else 0)"
  by (simp_all add: create_header_def nth_append)

text \<open>
  C36. The command header round trip: what the chip model decodes from the three header bytes
  is the address, the block, the socket and the direction that the driver encoded.
\<close>

theorem header_roundtrip:
  "from_be (take 2 (create_header a wr)) = addr a \<and>
   decode_kind (create_header a wr ! 2) = block_kind (block a) \<and>
   decode_sock (create_header a wr ! 2) = block_sock (block a) \<and>
   (create_header a wr ! 2 AND 4 \<noteq> 0) = wr"
  unfolding create_header_parts control_decode by simp

text \<open>What a command does: the bytes it returns, and the chip it leaves.\<close>

fun chip_read :: "address \<Rightarrow> nat \<Rightarrow> chip_state \<Rightarrow> bytes" where
  "chip_read a n c = (case block a of
     CommonRegister \<Rightarrow> read_common (addr a) n
   | SocketRegister k \<Rightarrow> read_reg (unat k) (addr a) n c
   | SocketTxBuffer k \<Rightarrow> []
   | SocketRxBuffer k \<Rightarrow> cb_peek (addr a) n (srx (csockets c ! unat k)))"

fun chip_write :: "address \<Rightarrow> bytes \<Rightarrow> chip_state \<Rightarrow> chip_state" where
  "chip_write a data c = (case block a of
     CommonRegister \<Rightarrow> c
   | SocketRegister k \<Rightarrow> write_reg (unat k) (addr a) data c
   | SocketTxBuffer k \<Rightarrow> upd_socket (unat k) (\<lambda>s. s\<lparr>stx := cb_poke (addr a) data (stx s)\<rparr>) c
   | SocketRxBuffer k \<Rightarrow> c)"

declare chip_read.simps [simp del] chip_write.simps [simp del]

lemma frame_prefix:
  assumes "HEADER \<le> length xs"
  shows "take 2 (copy_at 0 (create_header a wr) xs) = take 2 (create_header a wr)"
    "copy_at 0 (create_header a wr) xs ! 2 = create_header a wr ! 2"
  using assms by (simp_all add: copy_at_def HEADER_def nth_append)

lemma transact_read:
  assumes "3 + n \<le> length txb" "length rxb = length txb"
  shows "transact (copy_at 0 (create_header a False) txb) rxb (3 + n) c =
    (c, if block_kind (block a) = 2 then rxb else copy_at 3 (chip_read a n c) rxb)"
proof -
  have h: "HEADER \<le> length txb" using assms by (simp add: HEADER_def)
  show ?thesis
    unfolding transact_def frame_prefix [OF h] create_header_parts Let_def control_decode
    by (cases "block a") (simp_all add: chip_read.simps)
qed

lemma transact_write:
  assumes "3 + length data \<le> length txb" "length rxb = length txb"
  shows "transact (copy_at 3 data (copy_at 0 (create_header a True) txb)) rxb (3 + length data) c = (chip_write a data c, rxb)"
proof -
  have h: "HEADER \<le> length txb" using assms by (simp add: HEADER_def)
  let ?f = "copy_at 3 data (copy_at 0 (create_header a True) txb)"
  have len: "3 \<le> length (copy_at 0 (create_header a True) txb)" using h by (simp add: HEADER_def)
  have f: "take 2 ?f = take 2 (create_header a True)" "?f ! 2 = create_header a True ! 2"
    "take (length data) (drop 3 ?f) = data"
    using frame_prefix [OF h, of a True] assms len
      take_copy_at [of 3 data "copy_at 0 (create_header a True) txb" 2]
      nth_copy_at [of 3 data "copy_at 0 (create_header a True) txb" 2]
      take_drop_copy_at [of 3 data "copy_at 0 (create_header a True) txb"]
    by (simp_all add: HEADER_def)
  show ?thesis
    unfolding transact_def f create_header_parts Let_def control_decode
    using f(3) by (cases "block a") (simp_all add: chip_write.simps)
qed


subsection \<open>The transceiver on the chip\<close>

text \<open>The bus is idle and the chip behind it is in state \<open>c\<close>; or a transfer is in flight that captured \<open>p\<close>.\<close>

type_synonym chip_bus = "(chip_state, chip_state \<times> dma_buffers) transceiver"

definition on_chip :: "nat \<Rightarrow> chip_state \<Rightarrow> chip_bus \<Rightarrow> bool" where
  "on_chip L c t \<longleftrightarrow> \<not> busy (dev_cell t) \<and> (\<exists>b. cell (dev_cell t) = Idle c b \<and> good_bufs L b)"

definition flying :: "nat \<Rightarrow> chip_state \<Rightarrow> bytes \<Rightarrow> chip_bus \<Rightarrow> bool" where
  "flying L c p t \<longleftrightarrow> \<not> busy (dev_cell t) \<and> (\<exists>b. cell (dev_cell t) = InFlight (c, b) \<and> good_bufs L b \<and>
     take (length p) (drop HEADER (rx_buf b)) = p)"

lemma on_chip_idle: "on_chip L c t \<Longrightarrow> idle L t"
  by (auto simp: on_chip_def idle_def)

lemma idle_on_chip: "idle L (t :: chip_bus) \<Longrightarrow> \<exists>c. on_chip L c t"
  by (auto simp: on_chip_def idle_def)

lemma flying_in_flight: "flying L c p t \<Longrightarrow> in_flight chip L t"
  by (auto simp: flying_def in_flight_def chip_def)

lemma on_chip_eq: "on_chip L c t \<Longrightarrow> on_chip L c' t \<Longrightarrow> c' = c"
  by (auto simp: on_chip_def)

text \<open>A register window of at most four bytes, or any span of an RX buffer, is answered in full.\<close>

definition readable :: "address \<Rightarrow> nat \<Rightarrow> bool" where
  "readable a n \<longleftrightarrow> (case block a of SocketRxBuffer _ \<Rightarrow> True | SocketTxBuffer _ \<Rightarrow> False | _ \<Rightarrow> n \<le> 4)"

lemma length_low_bytes_eq: "w \<le> 4 \<Longrightarrow> length (low_bytes v w) = w"
  by (simp add: low_bytes_def)

lemma length_chip_read: "readable a n \<Longrightarrow> length (chip_read a n c) = n"
  by (cases "block a") (simp_all add: readable_def chip_read.simps read_common_def read_reg_def length_low_bytes_eq)

lemma chip_simps [simp]: "transceive chip = chip_transceive" "wait chip = id" "delay_ns chip = (\<lambda>_ c. c)"
  by (simp_all add: chip_def)

lemma chip_spi_read:
  assumes "on_chip L c t" "HEADER + length data \<le> L" "readable a (length data)"
  shows "\<exists>t'. spi_read chip a data t = (Ok (chip_read a (length data) c), t') \<and> on_chip L c t'"
proof -
  obtain b where t: "\<not> busy (dev_cell t)" "cell (dev_cell t) = Idle c b" "length (rx_buf b) = L" "length (tx_buf b) = L"
    using assms(1) by (auto simp: on_chip_def good_bufs_def)
  let ?n = "length data" and ?h = "copy_at 0 (create_header a False) (tx_buf b)"
  let ?rx = "copy_at 3 (chip_read a ?n c) (rx_buf b)"
  have k: "block_kind (block a) \<noteq> 2" using assms(3) by (cases "block a") (simp_all add: readable_def)
  have tr: "transact ?h (rx_buf b) (3 + ?n) c = (c, ?rx)"
    using transact_read [of ?n "tx_buf b" "rx_buf b" a c] t assms(2) k by (simp add: HEADER_def)
  have rx: "length ?rx = L" "take ?n (drop 3 ?rx) = chip_read a ?n c"
    using t assms(2) length_chip_read [OF assms(3), of c]
      take_drop_copy_at [of 3 "chip_read a ?n c" "rx_buf b"] by (simp_all add: HEADER_def)
  have le: "length (create_header a False) \<le> L" "3 + ?n \<le> L" using assms(2) by (simp_all add: HEADER_def)
  have "length ?h = L" using t le by simp
  then show ?thesis using t tr rx le
    by (auto simp: spi_read_def transaction_def on_cell_def zoom_def locked_free transaction_body_def
        bnd_def ret_def chip_transceive_def HEADER_def on_chip_def good_bufs_def slice_def)
qed

lemma chip_spi_write:
  assumes "on_chip L c t" "HEADER + length data \<le> L"
  shows "\<exists>t'. spi_write chip a data t = (Ok (), t') \<and> on_chip L (chip_write a data c) t'"
proof -
  obtain b where t: "\<not> busy (dev_cell t)" "cell (dev_cell t) = Idle c b" "length (rx_buf b) = L" "length (tx_buf b) = L"
    using assms(1) by (auto simp: on_chip_def good_bufs_def)
  let ?n = "length data" and ?h = "copy_at 0 (create_header a True) (tx_buf b)"
  have tr: "transact (copy_at 3 data ?h) (rx_buf b) (3 + ?n) c = (chip_write a data c, rx_buf b)"
    using transact_write [of data "tx_buf b" "rx_buf b" a c] t assms(2) by (simp add: HEADER_def)
  have le: "length (create_header a True) \<le> L" "3 + ?n \<le> L" using assms(2) by (simp_all add: HEADER_def)
  have "length ?h = L" "length (copy_at 3 data ?h) = L" using t le by simp_all
  then show ?thesis using t tr le
    by (auto simp: spi_write_def transaction_def on_cell_def zoom_def locked_free transaction_body_def
        bnd_def ret_def chip_transceive_def HEADER_def on_chip_def good_bufs_def slice_def)
qed


text \<open>Bulk transfers: the chip answers at once, the bytes are collected at the end.\<close>

lemma chip_start_read:
  assumes "on_chip L c t" "HEADER + n \<le> L" "readable a n"
  shows "\<exists>t'. start_read chip a n t = (Ok (), t') \<and> flying L c (chip_read a n c) t'"
proof -
  obtain b where t: "\<not> busy (dev_cell t)" "cell (dev_cell t) = Idle c b" "length (rx_buf b) = L" "length (tx_buf b) = L"
    using assms(1) by (auto simp: on_chip_def good_bufs_def)
  let ?h = "copy_at 0 (create_header a False) (tx_buf b)" and ?rx = "copy_at 3 (chip_read a n c) (rx_buf b)"
  have k: "block_kind (block a) \<noteq> 2" using assms(3) by (cases "block a") (simp_all add: readable_def)
  have tr: "transact ?h (rx_buf b) (3 + n) c = (c, ?rx)"
    using transact_read [of n "tx_buf b" "rx_buf b" a c] t assms(2) k by (simp add: HEADER_def)
  have rx: "length ?rx = L" "take n (drop 3 ?rx) = chip_read a n c" "length (chip_read a n c) = n"
    using t assms(2) length_chip_read [OF assms(3), of c]
      take_drop_copy_at [of 3 "chip_read a n c" "rx_buf b"] by (simp_all add: HEADER_def)
  have "length ?h = L" using t assms(2) by simp
  then show ?thesis using t tr rx assms(2)
    by (auto simp: start_read_def on_cell_def zoom_def locked_free bnd_def take_idle_def launch_def
        chip_transceive_def HEADER_def flying_def good_bufs_def)
qed

lemma chip_start_read_overrun:
  assumes "on_chip L c t" "L < HEADER + n"
  shows "\<exists>t'. start_read chip a n t = (Err (Other ScratchBufferOverrun), t') \<and> on_chip L c t'"
  using assms by (auto simp: start_read_def on_cell_def zoom_def locked_free bnd_def take_idle_def
      modify_def raise_def on_chip_def good_bufs_def)

lemma chip_start_write:
  assumes "on_chip L c t" "HEADER + n \<le> L"
    "\<And>w. length w = n \<Longrightarrow> \<exists>p q'. fill w q = (Ok p, q') \<and> length p = n \<and> R p q'"
  shows "\<exists>p q' t'. start_write chip a n fill (t, q) = (Ok (), (t', q')) \<and> R p q' \<and> flying L (chip_write a p c) [] t'"
proof -
  obtain b where t: "\<not> busy (dev_cell t)" "cell (dev_cell t) = Idle c b" "length (rx_buf b) = L" "length (tx_buf b) = L"
    using assms(1) by (auto simp: on_chip_def good_bufs_def)
  let ?h = "copy_at 0 (create_header a True) (tx_buf b)"
  have h: "length ?h = L" using t assms(2) by simp
  then have "length (take n (drop 3 ?h)) = n" using assms(2) by (simp add: HEADER_def)
  from assms(3) [OF this] obtain p q' where f: "fill (take n (drop 3 ?h)) q = (Ok p, q')" "length p = n" "R p q'"
    by blast
  have tr: "transact (copy_at 3 p ?h) (rx_buf b) (3 + n) c = (chip_write a p c, rx_buf b)"
    using transact_write [of p "tx_buf b" "rx_buf b" a c] t assms(2) f(2) by (simp add: HEADER_def)
  have "length (copy_at 3 p ?h) = L" using h assms(2) f(2) by (simp add: HEADER_def)
  with t tr assms(2) h f show ?thesis
    by (intro exI [of _ p] exI [of _ q'])
      (auto simp: start_write_def Let_def launch_def chip_transceive_def HEADER_def flying_def good_bufs_def)
qed

lemma chip_start_write_overrun:
  assumes "on_chip L c t" "L < HEADER + n"
  shows "start_write chip a n fill (t, q) = (Err (Other ScratchBufferOverrun), (t, q))"
  using assms by (auto simp: start_write_def on_chip_def good_bufs_def)

lemma chip_finish_read:
  assumes "flying L c p t" "HEADER + length p \<le> L"
  shows "\<exists>t'. finish_read chip (length p) t = (Ok p, t') \<and> on_chip L c t'"
  using assms by (auto simp: flying_def finish_read_def on_cell_def zoom_def locked_free on_chip_def good_bufs_def)

lemma chip_finish_write:
  assumes "flying L c p t"
  shows "\<exists>t'. finish_write chip t = (Ok (), t') \<and> on_chip L c t'"
  using assms by (auto simp: flying_def finish_write_def on_cell_def zoom_def locked_free on_chip_def)

subsection \<open>Registers of a socket\<close>

lemma low_bytes_1: "low_bytes v (Suc 0) = [ucast v]"
  by (simp add: low_bytes_def to_be_4)

lemma low_bytes_2: "low_bytes (ucast (v :: u16)) 2 = to_be 2 v"
  unfolding low_bytes_def to_be_4 to_be_2
  by (auto intro!: bit_word_eqI simp: bit_simps numeral_2_eq_2)

lemma from_be_wide: "(ucast (from_be (to_be 2 (p :: u16)) :: u32) :: u16) = p"
  unfolding to_be_2 from_be_def by (rule bit_word_eqI) (auto simp: bit_simps)

lemma byte_through_u32 [simp]: "(ucast (ucast (b :: u8) :: u32) :: u8) = b"
  by (rule bit_word_eqI) (auto simp: bit_simps)

lemma from_be_byte: "(ucast (from_be (to_be (Suc 0) (b :: u8)) :: u32) :: u8) = b"
  using to_be_1 [of b] by simp

lemma sock_index: "i < 8 \<Longrightarrow> unat (of_nat i :: 3 word) = i"
  by (simp add: unat_of_nat)

lemma sn_addr_block: "sn_addr (socket_block i) a = \<lparr>addr = a, block = SocketRegister (of_nat i)\<rparr>"
  by (simp add: sn_addr_def socket_block_def)

lemma wp_chip_read_u8:
  assumes "on_chip L c t" "7 \<le> L" "i < 8" "\<And>t'. on_chip L c t' \<Longrightarrow> Q (Ok (ucast (reg_value (csockets c ! i) a))) t'"
  shows "wp (read_u8 chip (sn_addr (socket_block i) a)) Q t"
proof -
  obtain t' where "spi_read chip (sn_addr (socket_block i) a) [0] t = (Ok (low_bytes (reg_value (csockets c ! i) a) (Suc 0)), t')"
    "on_chip L c t'"
    using chip_spi_read [OF assms(1), of "[0]" "sn_addr (socket_block i) a"] assms(2,3)
    by (auto simp: HEADER_def readable_def sn_addr_block chip_read.simps read_reg_def sock_index)
  with assms(4) show ?thesis by (auto simp: wp_def read_u8_def bnd_def ret_def low_bytes_1)
qed

lemma wp_chip_read_u16:
  assumes "on_chip L c t" "7 \<le> L" "i < 8" "reg_value (csockets c ! i) a = ucast v" "\<And>t'. on_chip L c t' \<Longrightarrow> Q (Ok v) t'"
  shows "wp (read_u16 chip (sn_addr (socket_block i) a)) Q t"
proof -
  obtain t' where "spi_read chip (sn_addr (socket_block i) a) [0, 0] t = (Ok (to_be 2 v), t')" "on_chip L c t'"
    using chip_spi_read [OF assms(1), of "[0, 0]" "sn_addr (socket_block i) a"] assms(2-4)
    by (auto simp: HEADER_def readable_def sn_addr_block chip_read.simps read_reg_def sock_index numeral_2_eq_2 [symmetric] low_bytes_2)
  moreover have "replicate 2 (0 :: u8) = [0, 0]" by (simp add: numeral_2_eq_2)
  ultimately show ?thesis using assms(5) by (auto simp: wp_def read_u16_def bnd_def ret_def)
qed

lemma wp_chip_write:
  assumes "on_chip L c t" "HEADER + length data \<le> L" "\<And>t'. on_chip L (chip_write a data c) t' \<Longrightarrow> Q (Ok ()) t'"
  shows "wp (spi_write chip a data) Q t"
  using chip_spi_write [OF assms(1,2), of a] assms(3) by (auto simp: wp_def)

lemma wp_chip_write_reg:
  assumes "on_chip L c t" "HEADER + length data \<le> L" "i < 8" "\<And>t'. on_chip L (write_reg i a data c) t' \<Longrightarrow> Q (Ok ()) t'"
  shows "wp (spi_write chip (sn_addr (socket_block i) a) data) Q t"
  using assms by (intro wp_chip_write [of L c]) (auto simp: chip_write.simps sn_addr_block sock_index)


text \<open>What each accessor of socket \<open>i\<close> reads or does, with \<open>s = csockets c ! i\<close>.\<close>

named_theorems chip_rules \<open>the accessors on the chip model\<close>

lemma wp_chip_accessors [chip_rules]:
  assumes "on_chip L c t" "11 \<le> L" "i < 8"
  shows "(\<And>t'. on_chip L c t' \<Longrightarrow> Q (Ok (cb_used (srx (csockets c ! i)))) t') \<Longrightarrow>
      wp (get_rx_received_size chip (socket_block i)) Q t"
    "(\<And>t'. on_chip L c t' \<Longrightarrow> Q (Ok (read_ptr (srx (csockets c ! i)))) t') \<Longrightarrow>
      wp (get_rx_read_pointer chip (socket_block i)) Q t"
    "(\<And>t'. on_chip L c t' \<Longrightarrow> Q (Ok (cb_free (stx (csockets c ! i)))) t') \<Longrightarrow>
      wp (get_tx_free_size chip (socket_block i)) Q t"
    "(\<And>t'. on_chip L c t' \<Longrightarrow> Q (Ok (write_ptr (stx (csockets c ! i)))) t') \<Longrightarrow>
      wp (get_tx_write_pointer chip (socket_block i)) Q t"
    "(\<And>t'. on_chip L c t' \<Longrightarrow> R (Ok (from_bits_truncate (ir (csockets c ! i)))) t') \<Longrightarrow>
      wp (get_interrupts chip (socket_block i)) R t"
    "(\<And>t'. on_chip L c t' \<Longrightarrow> P (Ok (decode_status (sr (csockets c ! i)))) t') \<Longrightarrow>
      wp (read_status chip (socket_block i)) P t"
    "(\<And>t'. on_chip L c t' \<Longrightarrow> B (Ok False) t') \<Longrightarrow> wp (is_command_pending chip (socket_block i)) B t"
  using assms
  by (auto simp: bus_ops wp_rules sn_regs reg_value_def
      intro!: wp_chip_read_u16 [of L c] wp_chip_read_u8 [of L c])

lemma wp_chip_updates [chip_rules]:
  assumes "on_chip L c t" "11 \<le> L" "i < 8"
  shows "(\<And>t'. on_chip L (upd_socket i (\<lambda>s. s\<lparr>srx := (srx s)\<lparr>read_ptr := p\<rparr>\<rparr>) c) t' \<Longrightarrow> Q (Ok ()) t') \<Longrightarrow>
      wp (set_rx_read_pointer chip (socket_block i) p) Q t"
    "(\<And>t'. on_chip L (upd_socket i (\<lambda>s. s\<lparr>stx := (stx s)\<lparr>write_ptr := p\<rparr>\<rparr>) c) t' \<Longrightarrow> Q (Ok ()) t') \<Longrightarrow>
      wp (set_tx_write_pointer chip (socket_block i) p) Q t"
    "(\<And>t'. on_chip L (run_command i (command_code cmd) c) t' \<Longrightarrow> Q (Ok ()) t') \<Longrightarrow>
      wp (send_sock_command chip (socket_block i) cmd) Q t"
    "(\<And>t'. on_chip L (upd_socket i (\<lambda>s. s\<lparr>ir := ir s AND NOT f\<rparr>) c) t' \<Longrightarrow> Q (Ok ()) t') \<Longrightarrow>
      wp (clear_interrupts chip (socket_block i) f) Q t"
  using assms
  by (auto simp: bus_ops write_u16_def write_u8_def sn_regs write_reg_def Let_def from_be_wide from_be_byte HEADER_def
      intro!: wp_chip_write_reg [of L c])

end
