(* ===== verification/Chip_Frame.thy ===== *)
theory Chip_Frame
  imports Chip_Bus
begin

text \<open>
  What the work on one socket leaves alone on the chip: a predicate on the chip that every
  access to socket \<open>j\<close> keeps is kept by the ticks and completions of the slot that drives
  socket \<open>j\<close>, through every handler of both protocols.
\<close>

subsection \<open>Preservation\<close>

text \<open>Whatever its result, \<open>m\<close> keeps \<open>I\<close>.\<close>

definition pres :: "('s \<Rightarrow> bool) \<Rightarrow> ('s, 'a) sm \<Rightarrow> bool" where
  "pres I m \<longleftrightarrow> (\<forall>s. I s \<longrightarrow> I (snd (m s)))"

named_theorems pres_rules \<open>preservation, by the shape of the program\<close>

lemma presI: "(\<And>s r s'. I s \<Longrightarrow> m s = (r, s') \<Longrightarrow> I s') \<Longrightarrow> pres I m"
  unfolding pres_def by (metis surjective_pairing)

lemma presD: "pres I m \<Longrightarrow> I s \<Longrightarrow> m s = (r, s') \<Longrightarrow> I s'"
  unfolding pres_def by (metis snd_conv)

lemma pres_bnd [pres_rules]:
  assumes "pres I m" "\<And>x. pres I (f x)"
  shows "pres I (bnd m f)"
proof (rule presI)
  fix s r s' assume "I s" and run: "bnd m f s = (r, s')"
  obtain r1 s1 where m: "m s = (r1, s1)" by (cases "m s")
  have 1: "I s1" by (rule presD [OF assms(1) \<open>I s\<close> m])
  then show "I s'"
    by (cases r1) (use run m presD [OF assms(2) 1] in \<open>auto simp: bnd_def\<close>)
qed

lemma pres_basic [pres_rules]:
  "pres I (ret x)" "pres I (raise e)" "pres I panic" "pres I (gets g)"
  "pres I m \<Longrightarrow> pres I n \<Longrightarrow> pres I (if b then m else n)"
  by (simp_all add: pres_def ret_def raise_def panic_def gets_def)

lemma pres_mapr [pres_rules]: "pres I m \<Longrightarrow> pres I (mapr x m)"
  unfolding mapr_def by (intro pres_rules)

subsection \<open>What may happen to the chip\<close>

definition bus_any :: "nat \<Rightarrow> (chip_state \<Rightarrow> bool) \<Rightarrow> chip_bus \<Rightarrow> bool" where
  "bus_any L J t \<longleftrightarrow> (\<exists>c. (on_chip L c t \<or> flying L c [] t) \<and> J c)"

lemma bus_anyI: "on_chip L c t \<Longrightarrow> J c \<Longrightarrow> bus_any L J t" "flying L c p t \<Longrightarrow> J c \<Longrightarrow> bus_any L J t"
  by (auto simp: bus_any_def flying_def)

lemma transaction_refused: "flying L c p t \<Longrightarrow> transaction chip ops t = (Err WouldBlock, t)"
  by (cases t, cases "dev_cell t")
    (auto simp: flying_def transaction_def on_cell_def zoom_def locked_cell transaction_body_def)

lemma start_refused:
  "flying L c p t \<Longrightarrow> start_read chip a n t = (Err WouldBlock, t)"
  "flying L c p t \<Longrightarrow> start_write chip a n fill (t, q) = (Err WouldBlock, (t, q))"
  by (cases t, cases "dev_cell t",
      auto simp: flying_def start_read_def on_cell_def zoom_def locked_cell bnd_def take_idle_def start_write_def)

lemma pres_spi_read:
  assumes "HEADER + length data \<le> L" "readable a (length data)"
  shows "pres (bus_any L J) (spi_read chip a data)"
proof (rule presI)
  fix t r t' assume "bus_any L J t" and r: "spi_read chip a data t = (r, t')"
  then obtain c where c: "on_chip L c t \<or> flying L c [] t" "J c" by (auto simp: bus_any_def)
  then show "bus_any L J t'"
  proof (elim disjE)
    assume "on_chip L c t"
    from chip_spi_read [OF this assms] r c(2) show ?thesis by (auto intro: bus_anyI)
  next
    assume f: "flying L c [] t"
    then show ?thesis using r c(2) by (auto simp: spi_read_def bnd_def transaction_refused [OF f] intro: bus_anyI)
  qed
qed

lemma pres_spi_write:
  assumes "HEADER + length data \<le> L" "\<And>c. J c \<Longrightarrow> J (chip_write a data c)"
  shows "pres (bus_any L J) (spi_write chip a data)"
proof (rule presI)
  fix t r t' assume "bus_any L J t" and r: "spi_write chip a data t = (r, t')"
  then obtain c where c: "on_chip L c t \<or> flying L c [] t" "J c" by (auto simp: bus_any_def)
  then show "bus_any L J t'"
  proof (elim disjE)
    assume "on_chip L c t"
    from chip_spi_write [OF this assms(1), of a] r assms(2) [OF c(2)] show ?thesis by (auto intro: bus_anyI)
  next
    assume f: "flying L c [] t"
    then show ?thesis using r c(2) by (auto simp: spi_write_def bnd_def transaction_refused [OF f] intro: bus_anyI)
  qed
qed

text \<open>
  The registers whose writing moves no payload: everything but the data pointers and the
  \<^verbatim>\<open>SEND\<close> command. A predicate is \<open>quiet_for j\<close> when such writes to socket \<open>j\<close> keep it,
  and \<open>frame_for j\<close> when everything the driver does to socket \<open>j\<close> keeps it.
\<close>

definition harmless :: "u16 \<Rightarrow> bytes \<Rightarrow> bool" where
  "harmless a data \<longleftrightarrow> a \<in> {SN_MR, SN_IRCLR, SN_IMR, SN_PORTR0, SN_DIPR0, SN_DPORTR0} \<or>
     a = SN_CR \<and> (ucast (from_be data :: u32) :: u8) \<noteq> 0x20"

definition quiet_for :: "nat \<Rightarrow> (chip_state \<Rightarrow> bool) \<Rightarrow> bool" where
  "quiet_for j J \<longleftrightarrow> j < 8 \<and> (\<forall>c a data. J c \<and> harmless a data \<longrightarrow> J (write_reg j a data c))"

definition frame_for :: "nat \<Rightarrow> (chip_state \<Rightarrow> bool) \<Rightarrow> bool" where
  "frame_for j J \<longleftrightarrow> j < 8 \<and> (\<forall>c a data. J c \<longrightarrow> J (write_reg j a data c)) \<and>
     (\<forall>c p data. J c \<longrightarrow> J (upd_socket j (\<lambda>s. s\<lparr>stx := cb_poke p data (stx s)\<rparr>) c))"

lemma frame_quiet: "frame_for j J \<Longrightarrow> quiet_for j J"
  by (simp add: frame_for_def quiet_for_def)

lemma pres_reads [pres_rules]:
  assumes "67 \<le> L"
  shows "pres (bus_any L J) (get_rx_received_size chip (socket_block j))"
    "pres (bus_any L J) (get_rx_read_pointer chip (socket_block j))"
    "pres (bus_any L J) (get_tx_free_size chip (socket_block j))"
    "pres (bus_any L J) (get_tx_write_pointer chip (socket_block j))"
    "pres (bus_any L J) (get_interrupts chip (socket_block j))"
    "pres (bus_any L J) (read_status chip (socket_block j))"
    "pres (bus_any L J) (is_command_pending chip (socket_block j))"
    "length data \<le> 8 \<Longrightarrow> pres (bus_any L J) (read_rx_buffer chip (socket_block j) p data)"
  using assms by (auto simp: bus_ops read_u8_def read_u16_def sn_addr_def readable_def HEADER_def socket_block_def
      intro!: pres_rules pres_spi_read)

lemma pres_write_reg:
  assumes "quiet_for j J" "HEADER + length data \<le> L" "harmless a data"
  shows "pres (bus_any L J) (spi_write chip (sn_addr (socket_block j) a) data)"
  using assms by (intro pres_spi_write)
    (auto simp: quiet_for_def sn_addr_block chip_write.simps sock_index)

lemma pres_quiet_writes [pres_rules]:
  assumes "67 \<le> L" "quiet_for j J"
  shows "pres (bus_any L J) (init_socket chip (socket_block j) mode)"
    "pres (bus_any L J) (clear_interrupts chip (socket_block j) f)"
    "pres (bus_any L J) (set_src_port chip (socket_block j) p)"
    "pres (bus_any L J) (set_dst_port chip (socket_block j) p)"
    "pres (bus_any L J) (set_ipv4_dst_addr chip (socket_block j) a)"
    "pres (bus_any L J) (send_sock_command chip (socket_block j) Open)"
    "pres (bus_any L J) (send_sock_command chip (socket_block j) Listen)"
    "pres (bus_any L J) (send_sock_command chip (socket_block j) Connect)"
    "pres (bus_any L J) (send_sock_command chip (socket_block j) Disconnect)"
    "pres (bus_any L J) (send_sock_command chip (socket_block j) Close)"
    "pres (bus_any L J) (send_sock_command chip (socket_block j) Receive)"
  using assms by (auto simp: bus_ops write_u8_def write_u16_def write_u32_def HEADER_def harmless_def from_be_byte
      intro!: pres_rules pres_write_reg)

lemma pres_moves [pres_rules]:
  assumes "67 \<le> L" "frame_for j J"
  shows "pres (bus_any L J) (set_rx_read_pointer chip (socket_block j) p)"
    "pres (bus_any L J) (set_tx_write_pointer chip (socket_block j) p)"
    "pres (bus_any L J) (send_sock_command chip (socket_block j) Send)"
    "length data \<le> 64 \<Longrightarrow> pres (bus_any L J) (write_tx_buffer chip (socket_block j) p data)"
  using assms by (auto simp: bus_ops write_u8_def write_u16_def HEADER_def sn_addr_def socket_block_def
      frame_for_def chip_write.simps sock_index intro!: pres_spi_write)


subsection \<open>Ticks of other sockets\<close>

text \<open>In the context of a tick: the bus, and a property \<open>K\<close> of the rings.\<close>

definition at_bus :: "nat \<Rightarrow> (chip_state \<Rightarrow> bool) \<Rightarrow> (socket_rings \<Rightarrow> bool) \<Rightarrow>
    (chip_state, chip_state \<times> dma_buffers, 'p) ctx \<Rightarrow> bool" where
  "at_bus L J K c \<longleftrightarrow> bus_any L J (trans c) \<and> K (rings c)"

lemma pres_tr [pres_rules]: "pres (bus_any L J) m \<Longrightarrow> pres (at_bus L J K) (tr m)"
  by (auto simp: pres_def at_bus_def tr_def zoom_def split: prod.splits)

lemma pres_proto [pres_rules]: "pres (at_bus L J K) (upd_proto f)" "pres (at_bus L J K) (set_tcp_status st)"
  by (simp_all add: pres_def at_bus_def upd_proto_def set_tcp_status_def modify_def)

lemma pres_on_ring [pres_rules]:
  "pres ring_inv m \<Longrightarrow> pres (at_bus L J rings_inv) (on_rx m)"
  "pres ring_inv m \<Longrightarrow> pres (at_bus L J rings_inv) (on_tx m)"
  by (auto simp: pres_def at_bus_def on_rx_def on_tx_def zoom_def rings_inv_def split: prod.splits)

lemma pres_ring [pres_rules]:
  "pres ring_inv (ring_write xs)" "pres ring_inv (ring_read k)" "pres ring_inv (ring_peek k)"
  "pres ring_inv ring_free" "pres ring_inv (modify commit_frame)" "pres ring_inv (modify release_frame)"
proof -
  show "pres ring_inv (ring_write xs)"
    by (rule presI) (metis ring.fifo_write prod.inject)
  show "pres ring_inv (ring_read k)"
    by (rule presI) (metis ring.fifo_read prod.inject)
  show "pres ring_inv (ring_peek k)"
    by (rule presI) (metis ring.fifo_peek prod.inject)
  show "pres ring_inv ring_free"
    by (rule presI) (metis ring_free_spec ring_inv_ok prod.inject)
qed (simp_all add: pres_def modify_def)

lemma pres_start_read [pres_rules]: "pres (bus_any L J) (start_read_rx_buffer chip (socket_block j) p n)"
proof (rule presI)
  fix t r t' assume "bus_any L J t" and r: "start_read_rx_buffer chip (socket_block j) p n t = (r, t')"
  then obtain c where c: "on_chip L c t \<or> flying L c [] t" "J c" by (auto simp: bus_any_def)
  let ?a = "\<lparr>addr = p, block = rx_block (socket_block j)\<rparr>"
  have rd: "readable ?a n" by (simp add: readable_def socket_block_def)
  from c(1) show "bus_any L J t'"
  proof (elim disjE)
    assume "on_chip L c t"
    from chip_start_read [OF this _ rd] chip_start_read_overrun [OF this, of n ?a] r c(2) show ?thesis
      by (cases "HEADER + n \<le> L") (auto simp: start_read_rx_buffer_def intro: bus_anyI)
  next
    assume f: "flying L c [] t"
    then show ?thesis using r c(2) by (auto simp: start_read_rx_buffer_def start_refused [OF f] intro: bus_anyI)
  qed
qed


lemma pres_start_tx [pres_rules]:
  assumes "frame_for j J"
  shows "pres (at_bus L J rings_inv) (start_tx_from_ring chip (socket_block j) p n)"
proof (rule presI)
  fix c r c' assume c: "at_bus L J rings_inv c" and r: "start_tx_from_ring chip (socket_block j) p n c = (r, c')"
  let ?q = "tx (rings c)" and ?a = "\<lparr>addr = p, block = tx_block (socket_block j)\<rparr>"
  obtain t q where sw: "start_write chip ?a n drain_tx (trans c, ?q) = (r, (t, q))"
    and c': "c' = c\<lparr>trans := t, rings := (rings c)\<lparr>tx := q\<rparr>\<rparr>"
    using r by (auto simp: start_tx_from_ring_def zoom_def start_write_tx_buffer_def split: prod.splits)
  have inv: "ring_inv ?q" "rings_inv (rings c)" using c by (simp_all add: at_bus_def rings_inv_def)
  obtain x where x: "on_chip L x (trans c) \<or> flying L x [] (trans c)" "J x" using c by (auto simp: at_bus_def bus_any_def)
  from x(1) have "bus_any L J t \<and> ring_inv q"
  proof (elim disjE)
    assume on: "on_chip L x (trans c)"
    have d: "\<exists>w q1. drain_tx v ?q = (Ok w, q1) \<and> length w = n \<and> ring_inv q1" if "length v = n" for v
      using chip.drain_tx_spec [OF inv(1) that] by blast
    show ?thesis
    proof (cases "HEADER + n \<le> L")
      case True
      from chip_start_write [OF on True, of drain_tx ?q "\<lambda>_. ring_inv" ?a] d sw obtain w where
        "ring_inv q" "flying L (chip_write ?a w x) [] t" by auto
      moreover have "J (chip_write ?a w x)"
        using assms x(2) by (auto simp: frame_for_def chip_write.simps socket_block_def sock_index)
      ultimately show ?thesis by (auto intro: bus_anyI)
    next
      case False
      then show ?thesis using chip_start_write_overrun [OF on, of n ?a drain_tx ?q] sw on x(2) inv(1) by (auto intro: bus_anyI)
    qed
  next
    assume "flying L x [] (trans c)"
    then show ?thesis using start_refused(2) [of L x "[]" "trans c" ?a n drain_tx ?q] sw x(2) inv(1) by (auto intro: bus_anyI)
  qed
  then show "at_bus L J rings_inv c'" using c' inv(2) by (simp add: at_bus_def rings_inv_def)
qed


lemma pres_heads [pres_rules]: "pres ring_inv peek_head" "pres ring_inv read_head"
  unfolding peek_head_def read_head_def by (intro pres_rules)+

lemma pres_set_udp_status [pres_rules]: "pres (at_bus L J K) (set_udp_status st)"
  by (simp add: pres_def at_bus_def set_udp_status_def upd_proto_def modify_def)

lemma pres_udp_receive [pres_rules]:
  assumes "67 \<le> L" "frame_for j J"
  shows "pres (at_bus L J rings_inv) (udp_receive chip (socket_block j))"
  using assms frame_quiet [OF assms(2)] unfolding udp_receive_def udp_advance_def Let_def
  by (intro pres_rules) (simp_all add: PACKINFO_def)

lemma pres_udp_transmit [pres_rules]:
  assumes "67 \<le> L" "frame_for j J"
  shows "pres (at_bus L J rings_inv) (udp_transmit chip (socket_block j))"
  using assms frame_quiet [OF assms(2)] unfolding udp_transmit_def case_prod_beta
  by (intro pres_rules) simp_all

lemma pres_udp_dispatch:
  assumes "67 \<le> L" "frame_for j J"
  shows "pres (at_bus L J rings_inv) (udp_dispatch chip (socket_block j))"
proof -
  note q = assms frame_quiet [OF assms(2)]
  have "pres (at_bus L J rings_inv) (udp_handle_close chip (socket_block j))"
    using q unfolding udp_handle_close_def by (intro pres_rules) simp_all
  moreover have "pres (at_bus L J rings_inv) (udp_handle_init chip (socket_block j))"
    using q unfolding udp_handle_init_def by (intro pres_rules) simp_all
  moreover have "pres (at_bus L J rings_inv) (udp_handle_opening chip (socket_block j))"
    using q unfolding udp_handle_opening_def
    by (intro pres_rules) (auto intro!: pres_rules split: socket_status_register.splits)
  moreover have "pres (at_bus L J rings_inv) (udp_handle_closing chip (socket_block j))"
    using q unfolding udp_handle_closing_def
    by (intro pres_rules) (auto intro!: pres_rules split: socket_status.splits)
  moreover have "pres (at_bus L J rings_inv) (udp_handle_established chip (socket_block j))"
    using q unfolding udp_handle_established_def
    by (intro pres_rules) (auto intro!: pres_rules split: bulk_action.splits)
  ultimately show ?thesis
    unfolding pres_def udp_dispatch_def by (auto simp: pres_mapr [unfolded pres_def] ret_def split: socket_status.split)
qed


text \<open>The TCP handlers that move no payload need \<open>quiet_for\<close> only, and leave the rings alone.\<close>

lemma pres_tcp_quiet [pres_rules]:
  assumes "67 \<le> L" "quiet_for j J"
  shows "pres (at_bus L J K) (tcp_handle_init chip (socket_block j))"
    "pres (at_bus L J K) (tcp_handle_opening chip (socket_block j))"
    "pres (at_bus L J K) (tcp_handle_connecting chip (socket_block j))"
    "pres (at_bus L J K) (tcp_handle_listening chip (socket_block j))"
    "pres (at_bus L J K) (tcp_handle_closing chip (socket_block j))"
    "pres (at_bus L J K) (tcp_unexpected chip (socket_block j))"
proof -
  show un: "pres (at_bus L J K) (tcp_unexpected chip (socket_block j))"
    using assms unfolding tcp_unexpected_def by (intro pres_rules) simp_all
  show "pres (at_bus L J K) (tcp_handle_init chip (socket_block j))"
    using assms unfolding tcp_handle_init_def by (intro pres_rules) simp_all
  show "pres (at_bus L J K) (tcp_handle_opening chip (socket_block j))"
    using assms un unfolding tcp_handle_opening_def
    by (intro pres_rules) (auto intro!: pres_rules un split: socket_status_register.splits tcp_mode.splits)
  show "pres (at_bus L J K) (tcp_handle_connecting chip (socket_block j))"
    using assms un unfolding tcp_handle_connecting_def
    by (intro pres_rules) (auto intro!: pres_rules un split: socket_status_register.splits)
  show "pres (at_bus L J K) (tcp_handle_listening chip (socket_block j))"
    using assms un unfolding tcp_handle_listening_def
    by (intro pres_rules) (auto intro!: pres_rules un)
  show "pres (at_bus L J K) (tcp_handle_closing chip (socket_block j))"
    using assms unfolding tcp_handle_closing_def
    by (intro pres_rules) (auto intro!: pres_rules split: socket_status.splits)
qed

lemma pres_flush_loop [pres_rules]:
  assumes "67 \<le> L" "frame_for j J"
  shows "pres (at_bus L J rings_inv) (tcp_flush_loop chip (socket_block j) to_send staged pointer)"
proof (rule presI)
  fix c r c'
  assume "at_bus L J rings_inv c" "tcp_flush_loop chip (socket_block j) to_send staged pointer c = (r, c')"
  then show "at_bus L J rings_inv c'"
  proof (induction "to_send - staged" arbitrary: staged pointer c rule: less_induct)
    case less
    show ?case
    proof (cases "staged < to_send")
      case False
      then show ?thesis using less.prems by (simp add: tcp_flush_loop.simps [of chip _ to_send staged])
    next
      case True
      let ?n = "min 64 (to_send - staged)"
      have inv: "ring_inv (tx (rings c))" using less.prems(1) by (simp add: at_bus_def rings_inv_def)
      then obtain q where q: "ring_read ?n (tx (rings c)) = (Ok (take ?n (contents (tx (rings c)))), q)"
        using ring.fifo_read by blast
      let ?ys = "take ?n (contents (tx (rings c)))" and ?c1 = "c\<lparr>rings := (rings c)\<lparr>tx := q\<rparr>\<rparr>"
      have rd: "on_tx (ring_read ?n) c = (Ok ?ys, ?c1)" using q by (simp add: on_tx_def zoom_def)
      have "pres (at_bus L J rings_inv) (on_tx (ring_read ?n))" by (intro pres_rules)
      from presD [OF this less.prems(1) rd] have 1: "at_bus L J rings_inv ?c1" .
      obtain r2 c2 where w: "tr (write_tx_buffer chip (socket_block j) pointer ?ys) ?c1 = (r2, c2)"
        by (cases "tr (write_tx_buffer chip (socket_block j) pointer ?ys) ?c1")
      have "length ?ys \<le> 64" by simp
      then have "pres (at_bus L J rings_inv) (tr (write_tx_buffer chip (socket_block j) pointer ?ys))"
        using assms by (intro pres_rules)
      from presD [OF this 1 w] have 2: "at_bus L J rings_inv c2" .
      have IH: "at_bus L J rings_inv c'"
        if "tcp_flush_loop chip (socket_block j) to_send (staged + length ?ys) p c2 = (r, c')" "?ys \<noteq> []" for p
      proof (rule less.hyps [OF _ 2 that(1)])
        show "to_send - (staged + length ?ys) < to_send - staged"
          using that(2) True length_greater_0_conv [of ?ys] by linarith
      qed
      show ?thesis
        using less.prems(2) True rd w 1 2 IH
        by (cases r2) (auto simp: tcp_flush_loop.simps [of chip _ to_send staged] simp del: length_take split: if_splits)
    qed
  qed
qed

lemma pres_tcp_moves [pres_rules]:
  assumes "67 \<le> L" "frame_for j J"
  shows "pres (at_bus L J rings_inv) (tcp_flush_sync chip (socket_block j))"
    "pres (at_bus L J rings_inv) (tcp_handle_close chip (socket_block j))"
    "pres (at_bus L J rings_inv) (tcp_receive chip (socket_block j))"
    "pres (at_bus L J rings_inv) (tcp_transmit chip (socket_block j))"
proof -
  note q = assms frame_quiet [OF assms(2)]
  show f: "pres (at_bus L J rings_inv) (tcp_flush_sync chip (socket_block j))"
    using q unfolding tcp_flush_sync_def Let_def by (intro pres_rules)
  show "pres (at_bus L J rings_inv) (tcp_handle_close chip (socket_block j))"
    using q f unfolding tcp_handle_close_def by (intro pres_rules f) simp_all
  show "pres (at_bus L J rings_inv) (tcp_receive chip (socket_block j))"
    using q unfolding tcp_receive_def Let_def by (intro pres_rules)
  show "pres (at_bus L J rings_inv) (tcp_transmit chip (socket_block j))"
    using q unfolding tcp_transmit_def Let_def by (intro pres_rules)
qed

lemma pres_tcp_dispatch:
  assumes "67 \<le> L" "frame_for j J"
  shows "pres (at_bus L J rings_inv) (tcp_dispatch chip (socket_block j))"
proof -
  note q = assms frame_quiet [OF assms(2)]
  have "pres (at_bus L J rings_inv) (tcp_handle_established chip (socket_block j))"
    using q unfolding tcp_handle_established_def
    by (intro pres_rules)
      (auto simp: case_prod_beta intro!: pres_rules split: socket_status_register.splits bulk_action.splits)
  then show ?thesis using q
    unfolding pres_def tcp_dispatch_def
    by (auto simp: pres_mapr [unfolded pres_def] pres_tcp_quiet [unfolded pres_def] pres_tcp_moves [unfolded pres_def]
        ret_def split: socket_status.split)
qed


lemma pres_runs:
  assumes "67 \<le> L" "frame_for j J"
  shows "pres (at_bus L J rings_inv) (tcp_run chip (socket_block j))"
    "pres (at_bus L J rings_inv) (udp_run chip (socket_block j))"
proof -
  have p: "at_bus L J K (c\<lparr>proto := x\<rparr>) = at_bus L J K c" for K x and c :: "(chip_state, chip_state \<times> dma_buffers, 'p) ctx"
    by (simp add: at_bus_def)
  show "pres (at_bus L J rings_inv) (tcp_run chip (socket_block j))"
    using presD [OF pres_tcp_dispatch [OF assms]]
    by (intro presI) (auto simp: tcp_run_def p split: prod.splits res.splits error.splits)
  show "pres (at_bus L J rings_inv) (udp_run chip (socket_block j))"
    using presD [OF pres_udp_dispatch [OF assms]]
    by (intro presI) (auto simp: udp_run_def p split: prod.splits res.splits error.splits)
qed

lemma backend_run_frame:
  assumes "67 \<le> L" "frame_for j J" "bk_block (proto c) = socket_block j" "at_bus L J rings_inv c"
    "backend_run chip c = (r, c')"
  shows "at_bus L J rings_inv c'"
proof -
  have p: "at_bus L J rings_inv \<lparr>trans = trans x, rings = rings x, proto = y\<rparr> = at_bus L J rings_inv x"
    for x :: "(chip_state, chip_state \<times> dma_buffers, 'p) ctx" and y :: 'q
    by (simp add: at_bus_def)
  have q: "at_bus L J rings_inv (x\<lparr>proto := y\<rparr>) = at_bus L J rings_inv x"
    for x :: "(chip_state, chip_state \<times> dma_buffers, 'p) ctx" and y
    by (simp add: at_bus_def)
  show ?thesis
    using assms(3-5) presD [OF pres_runs(1) [OF assms(1,2)]] presD [OF pres_runs(2) [OF assms(1,2)]]
    by (auto simp: backend_run_def drive_def on_machine_def p q split: backend_state.splits prod.splits) (metis p)+
qed

text \<open>The completion of another socket's transfer.\<close>

definition at_pair :: "nat \<Rightarrow> (chip_state \<Rightarrow> bool) \<Rightarrow> chip_bus \<times> socket_rings \<Rightarrow> bool" where
  "at_pair L J s \<longleftrightarrow> bus_any L J (fst s) \<and> rings_inv (snd s)"

lemma finish_refused:
  assumes "on_chip L c t"
  shows "finish_read chip n t = (Err WouldBlock, t)" "finish_write chip t = (Err WouldBlock, t)"
  using assms by (cases t; cases "dev_cell t"; auto simp: on_chip_def finish_read_def finish_write_def on_cell_def
      zoom_def locked_cell)+

lemma flying_empty: "flying L c p t \<Longrightarrow> HEADER + n \<le> L \<Longrightarrow> \<exists>p. length p = n \<and> flying L c p t"
proof -
  assume f: "flying L c p t" and n: "HEADER + n \<le> L"
  then obtain b where b: "cell (dev_cell t) = InFlight (c, b)" "good_bufs L b" "\<not> busy (dev_cell t)"
    by (auto simp: flying_def)
  let ?p = "take n (drop HEADER (rx_buf b))"
  have "length ?p = n" using b(2) n by (simp add: good_bufs_def)
  with b show ?thesis by (intro exI [of _ ?p]) (simp add: flying_def)
qed

lemma pres_finish [pres_rules]:
  "HEADER + n \<le> L \<Longrightarrow> pres (bus_any L J) (finish_read chip n)" "pres (bus_any L J) (finish_write chip)"
proof -
  show "pres (bus_any L J) (finish_read chip n)" if n: "HEADER + n \<le> L"
  proof (rule presI)
    fix t r t' assume "bus_any L J t" and r: "finish_read chip n t = (r, t')"
    then obtain c where c: "on_chip L c t \<or> flying L c [] t" "J c" by (auto simp: bus_any_def)
    from c(1) show "bus_any L J t'"
    proof (elim disjE)
      assume "flying L c [] t"
      from flying_empty [OF this n] obtain p where "length p = n" "flying L c p t" by blast
      with chip_finish_read [of L c p t] r n c(2) show ?thesis by (auto intro: bus_anyI)
    qed (use finish_refused r c(2) in \<open>auto intro: bus_anyI\<close>)
  qed
  show "pres (bus_any L J) (finish_write chip)"
  proof (rule presI)
    fix t r t' assume "bus_any L J t" and r: "finish_write chip t = (r, t')"
    then obtain c where c: "on_chip L c t \<or> flying L c [] t" "J c" by (auto simp: bus_any_def)
    from c(1) show "bus_any L J t'"
    proof (elim disjE)
      assume "flying L c [] t"
      from chip_finish_write [OF this] r c(2) show ?thesis by (auto intro: bus_anyI)
    qed (use finish_refused r c(2) in \<open>auto intro: bus_anyI\<close>)
  qed
qed

lemma finish_bulk_frame:
  assumes "67 \<le> L" "frame_for j J" "op_block op = socket_block j" "HEADER + op_bytes op \<le> L"
  shows "pres (at_pair L J) (finish_bulk chip op)"
proof -
  have bus: "pres (at_pair L J) (bus m)" if "pres (bus_any L J) m" for m :: "(chip_bus, 'x) sm"
    using that by (auto simp: pres_def at_pair_def bus_def zoom_def split: prod.splits)
  have dl: "pres (at_pair L J) (deliver xs)" for xs
    using pres_ring(1) [of xs] by (auto simp: pres_def at_pair_def deliver_def zoom_def rings_inv_def split: prod.splits)
  have cf: "pres (at_pair L J) (modify (\<lambda>(t, q). (t, q\<lparr>rx := commit_frame (rx q)\<rparr>)))"
    by (auto simp: pres_def at_pair_def modify_def rings_inv_def)
  show ?thesis
    using assms frame_quiet [OF assms(2)] unfolding finish_bulk_def Let_def
    by (cases "op_kind op") (auto intro!: pres_rules bus dl cf)
qed

end
