(* ===== verification/Slot_Flow.thy ===== *)
theory Slot_Flow
  imports Driver_Completion Chip_Frame
begin

text \<open>
  The driver on the chip model, seen by the owner of one slot. What is in transit between the
  rings of slot \<open>i\<close> and socket \<open>i\<close> of the chip is described by two predicates, one for a bus
  at rest and one for a transfer of the slot in flight. When the slot's own tick and completion
  respect them and other sockets cannot disturb them (locale \<open>slot_flow\<close>), every pass of
  \<^verbatim>\<open>service\<close> and every \<^verbatim>\<open>dma_complete\<close> (\<^verbatim>\<open>wiznet-rs/src/lib.rs\<close>) does, while the other seven slots do
  whatever they do. The byte streams of TCP and the datagram queues of UDP are its instances.
\<close>

subsection \<open>The driver on the chip\<close>

lemma pres_common_write:
  assumes "HEADER + length data \<le> L" "block a = CommonRegister"
  shows "pres (bus_any L J) (spi_write chip a data)"
  using assms by (intro pres_spi_write) (simp_all add: chip_write.simps)

lemma pres_bnd_gets:
  assumes "\<And>s. I s \<Longrightarrow> pres I (f (g s))"
  shows "pres I (bnd (gets g) f)"
proof (rule presI)
  fix s r s' assume s: "I s" and "bnd (gets g) f s = (r, s')"
  then have "f (g s) s = (r, s')" by (simp add: bnd_def gets_def)
  from presD [OF assms [OF s] s this] show "I s'" .
qed

text \<open>Registers outside the sockets: the driver's body works on the bus only.\<close>

type_synonym chip_driver = "(chip_state, chip_state \<times> dma_buffers, unit) w6100"

definition bus_only :: "nat \<Rightarrow> (chip_state \<Rightarrow> bool) \<Rightarrow> socket list \<Rightarrow> bulk_op option atomic_cell \<Rightarrow> chip_driver \<Rightarrow> bool" where
  "bus_only L J ss b w \<longleftrightarrow> bus_any L J (transport (cell (device w))) \<and> length (mac w) = 6 \<and> sockets w = ss \<and> bulk w = b"

definition body_only ::
  "nat \<Rightarrow> (chip_state \<Rightarrow> bool) \<Rightarrow> socket list \<Rightarrow> bulk_op option atomic_cell \<Rightarrow>
     (chip_state, chip_state \<times> dma_buffers, unit) device \<times> chip_driver \<Rightarrow> bool" where
  "body_only L J ss b s \<longleftrightarrow> bus_any L J (transport (fst s)) \<and> length (mac (snd s)) = 6 \<and> sockets (snd s) = ss \<and> bulk (snd s) = b"

lemma pres_with_device:
  assumes "pres (body_only L J ss b) m"
  shows "pres (bus_only L J ss b) (with_device m)"
proof (rule presI)
  fix w r w' assume w: "bus_only L J ss b w" and run: "with_device m w = (r, w')"
  obtain r1 d1 w1 where m: "m (cell (device w), w\<lparr>device := (device w)\<lparr>busy := True\<rparr>\<rparr>) = (r1, (d1, w1))" by (metis prod_cases3)
  have "body_only L J ss b (d1, w1)"
    by (rule presD [OF assms _ m]) (use w in \<open>simp add: bus_only_def body_only_def\<close>)
  with m run w show "bus_only L J ss b w'"
    by (auto simp: with_device_def lock_mut_def try_lock_internal_def drop_guard_def bus_only_def body_only_def split: if_splits)
qed

lemma pres_spi: "pres (bus_any L J) m \<Longrightarrow> pres (body_only L J ss b) (spi m)"
  by (auto simp: pres_def body_only_def spi_def zoom_def split: prod.splits)

lemma pres_setup_network:
  assumes "67 \<le> L"
  shows "pres (bus_only L J ss b) (setup_network chip x y z)"
  unfolding setup_network_def write_u8_def write_u32_def
  by (intro pres_with_device pres_bnd_gets pres_rules(1) pres_spi pres_common_write)
    (use assms in \<open>auto simp: NETLCKR_def SHAR_def SIPR_def GAR_def SUBR_def common_def HEADER_def body_only_def\<close>)

lemma chip_link_up:
  fixes w :: chip_driver
  assumes "7 \<le> L" "bus_only L J ss b w" "idle L (transport (cell (device w)))" "\<not> busy (device w)"
  shows "\<exists>w1. is_link_up chip w = (Ok True, w1) \<and> bus_only L J ss b w1"
proof -
  let ?t = "transport (cell (device w))"
  obtain c where c: "on_chip L c ?t" "J c"
    using assms(2,3) flying_in_flight idle_not_in_flight by (fastforce simp: bus_only_def bus_any_def)
  have "HEADER + length [0 :: u8] \<le> L" "readable PHYSR (length [0 :: u8])"
    using assms(1) by (simp_all add: HEADER_def readable_def PHYSR_def common_def)
  from chip_spi_read [OF c(1) this] obtain t' where
    t: "spi_read chip PHYSR [0] ?t = (Ok [1], t')" "on_chip L c t'"
    by (auto simp: chip_read.simps PHYSR_def common_def read_common_def low_bytes_1)
  have "read_u8 chip PHYSR ?t = (Ok 1, t')"
    using t by (simp add: read_u8_def bnd_def ret_def)
  then show ?thesis using assms(2,4) t(2) c(2)
    by (auto simp: is_link_up_def with_device_def lock_mut_def try_lock_internal_def bnd_def spi_def zoom_def ret_def
        CAB_MASK_def LINK_MASK_def bus_only_def drop_guard_def intro: bus_anyI)
qed

lemma w_quiet_upd [simp]:
  "chip.w_quiet L (w\<lparr>link_up := b\<rparr>) = chip.w_quiet L w" "chip.w_quiet L (w\<lparr>config_dirty := b\<rparr>) = chip.w_quiet L w"
  by (simp_all add: chip.w_quiet_iff rest_ok_def)

lemma service_up:
  assumes "\<not> bulk_in_flight w" "is_link_up D w = (Ok True, w1)" "w2 = w1\<lparr>link_up := True\<rparr>"
  shows "w6100_service D P w = (case get_network_config w2 of
      Some c \<Rightarrow> if config_dirty w2 then
          bnd (setup_network D (cfg_ip c) (cfg_gateway c) (cfg_subnet c)) (\<lambda>_.
          bnd (modify (\<lambda>w. w\<lparr>config_dirty := False\<rparr>)) (\<lambda>_. w6100_run D)) w2
        else w6100_run D w2
    | None \<Rightarrow> w6100_run D w2)"
  using assms by (simp add: w6100_service_def bnd_def gets_def modify_def ret_def split: option.split res.split prod.split)


subsection \<open>What a slot has in transit\<close>

text \<open>
  \<open>rest g b q c\<close> is about the state \<open>b\<close> and the rings \<open>q\<close> of slot \<open>i\<close> and the chip \<open>c\<close>, for a ghost
  value \<open>g\<close> that only the parties outside change; \<open>flight g op b q p c\<close> is about them while the
  slot's transfer \<open>op\<close> is in flight, which captured the bytes \<open>p\<close>.
\<close>

type_synonym 'g at_rest_pred = "'g \<Rightarrow> socket_backend \<Rightarrow> socket_rings \<Rightarrow> chip_state \<Rightarrow> bool"
type_synonym 'g in_flight_pred = "'g \<Rightarrow> bulk_op \<Rightarrow> socket_backend \<Rightarrow> socket_rings \<Rightarrow> bytes \<Rightarrow> chip_state \<Rightarrow> bool"

definition slot_bus ::
  "nat \<Rightarrow> nat \<Rightarrow> 'g at_rest_pred \<Rightarrow> 'g in_flight_pred \<Rightarrow> 'g \<Rightarrow> chip_bus \<Rightarrow> socket_backend \<Rightarrow> socket_rings \<Rightarrow> bulk_op option \<Rightarrow> bool" where
  "slot_bus L i rest flight g t b q bo = (case bo of
     Some op \<Rightarrow>
       if op_idx op = i then \<exists>c p. flying L c p t \<and> flight g op b q p c
       else bus_any L (rest g b q) t
   | None \<Rightarrow> bus_any L (rest g b q) t)"

definition flow :: "nat \<Rightarrow> nat \<Rightarrow> 'g at_rest_pred \<Rightarrow> 'g in_flight_pred \<Rightarrow> 'g \<Rightarrow> chip_driver \<Rightarrow> bool" where
  "flow L i rest flight g w \<longleftrightarrow> w_inv chip L w \<and> length (mac w) = 6 \<and>
     slot_bus L i rest flight g (transport (cell (device w))) (cell (backend (sockets w ! i)))
       (sock_rings (sockets w ! i)) (cell (bulk w))"

lemma slot_bus_other:
  "(\<And>op. bo = Some op \<Longrightarrow> op_idx op \<noteq> i) \<Longrightarrow> slot_bus L i rest flight g t b q bo = bus_any L (rest g b q) t"
  by (auto simp: slot_bus_def split: option.splits)

lemma flow_upd [simp]:
  "flow L i rest flight g (w\<lparr>link_up := x\<rparr>) = flow L i rest flight g w"
  "flow L i rest flight g (w\<lparr>config_dirty := x\<rparr>) = flow L i rest flight g w"
  by (auto simp: flow_def w_inv_def rest_ok_def split: option.splits)

lemma flow_quiet:
  "chip.w_quiet L w \<Longrightarrow> flow L i rest flight g w \<longleftrightarrow>
     bus_only L (rest g (cell (backend (sockets w ! i))) (sock_rings (sockets w ! i))) (sockets w) (bulk w) w"
  by (auto simp: flow_def chip.w_quiet_def slot_bus_def bus_only_def)

lemma flow_quiet_step:
  assumes "chip.w_quiet L w" "chip.w_quiet L w'" "flow L i rest flight g w"
    "\<And>J. bus_only L J (sockets w) (bulk w) w \<Longrightarrow> bus_only L J (sockets w) (bulk w) w'"
  shows "flow L i rest flight g w'"
  using assms(3) assms(4) [of "rest g (cell (backend (sockets w ! i))) (sock_rings (sockets w ! i))"]
  unfolding flow_quiet [OF assms(1)] flow_quiet [OF assms(2)] by (auto simp: bus_only_def)

subsection \<open>The wire\<close>

definition chip_of :: "chip_driver \<Rightarrow> chip_state option" where
  "chip_of w = (case cell (dev_cell (transport (cell (device w)))) of
     Idle c _ \<Rightarrow> Some c | InFlight (c, _) \<Rightarrow> Some c | Pending \<Rightarrow> None)"

definition bus_wire :: "(chip_state \<Rightarrow> chip_state) \<Rightarrow> chip_bus \<Rightarrow> chip_bus" where
  "bus_wire f t = t\<lparr>dev_cell := (dev_cell t)\<lparr>cell := (case cell (dev_cell t) of
     Idle c b \<Rightarrow> Idle (f c) b | InFlight (c, b) \<Rightarrow> InFlight (f c, b) | Pending \<Rightarrow> Pending)\<rparr>\<rparr>"

definition on_wire :: "(chip_state \<Rightarrow> chip_state) \<Rightarrow> chip_driver \<Rightarrow> chip_driver" where
  "on_wire f w = w\<lparr>device := (device w)\<lparr>cell := (cell (device w))\<lparr>transport := bus_wire f (transport (cell (device w)))\<rparr>\<rparr>\<rparr>"

lemma bus_wire_simps:
  "on_chip L c t \<Longrightarrow> on_chip L (f c) (bus_wire f t)"
  "flying L c p t \<Longrightarrow> flying L (f c) p (bus_wire f t)"
  "idle L t \<Longrightarrow> idle L (bus_wire f t)"
  "in_flight chip L t \<Longrightarrow> in_flight chip L (bus_wire f t)"
  by (auto simp: on_chip_def flying_def idle_def in_flight_def bus_wire_def)

subsection \<open>The contract of a slot, and the driver that keeps it\<close>

locale slot_flow =
  fixes rest :: "nat \<Rightarrow> nat \<Rightarrow> 'g at_rest_pred" and flight :: "nat \<Rightarrow> nat \<Rightarrow> 'g in_flight_pred"
  assumes frame: "i < 8 \<Longrightarrow> j < 8 \<Longrightarrow> j \<noteq> i \<Longrightarrow> frame_for j (rest L i g b q)"
    and tick: "67 \<le> L \<Longrightarrow> i < 8 \<Longrightarrow> bk_block b = socket_block i \<Longrightarrow> rings_inv q \<Longrightarrow> on_chip L c t \<Longrightarrow> rest L i g b q c \<Longrightarrow>
      backend_run chip \<lparr>trans = t, rings = q, proto = b\<rparr> = (r, c') \<Longrightarrow>
      (case r of
         Ok (Started k ptr n) \<Rightarrow> \<exists>x p. flying L x p (trans c') \<and>
           flight L i g \<lparr>op_idx = i, op_kind = k, op_block = bk_block (proto c'), op_pointer = ptr, op_bytes = n\<rparr> (proto c') (rings c') p x
       | _ \<Rightarrow> bus_any L (rest L i g (proto c') (rings c')) (trans c'))"
    and finish: "67 \<le> L \<Longrightarrow> i < 8 \<Longrightarrow> op_idx op = i \<Longrightarrow> op_block op = socket_block i \<Longrightarrow> rings_inv q \<Longrightarrow> HEADER + op_bytes op \<le> L \<Longrightarrow>
      bulk_need (op_kind op) (op_bytes op) \<le> free_space (rx q) \<Longrightarrow> flying L c p t \<Longrightarrow> flight L i g op b q p c \<Longrightarrow>
      finish_bulk chip op (t, q) = (rf, (t', q')) \<Longrightarrow> bus_any L (rest L i g b q') t'"
begin

lemma tick_frame:
  assumes "j < 8" "i \<noteq> j" "sock_ok j s" "bus_any L (rest L i g b q) t"
    "backend_run chip \<lparr>trans = t, rings = sock_rings s, proto = cell (backend s)\<rparr> = (r, c')"
    and scratch: "67 \<le> L" and slot: "i < 8"
  shows "bus_any L (rest L i g b q) (trans c')"
  using backend_run_frame [OF scratch frame [OF slot assms(1)] _ _ assms(5)] assms(2-4)
  by (auto simp: at_bus_def sock_ok_def)

lemma run_loop_frame:
  assumes "k + length ss \<le> 8" "i < k \<or> k + length ss \<le> i" "idle L t" "socks_ok k ss"
    "bus_any L (rest L i g b q) t" "run_loop chip k ss t = (r, ss', t')"
    and scratch: "67 \<le> L" and slot: "i < 8"
  shows "bus_any L (rest L i g b q) t'"
  using assms(1-6)
proof (induction ss arbitrary: k t r ss' t')
  case (Cons s ss)
  show ?case
  proof (cases "busy (backend s)")
    case True
    obtain r2 ss2 t2 where rec: "run_loop chip (k + 1) ss t = (r2, ss2, t2)" by (metis prod_cases3)
    show ?thesis using Cons.IH [OF _ _ _ _ _ rec] Cons.prems rec True
      by (auto simp: lock_mut_def try_lock_internal_def)
  next
    case False
    let ?c = "\<lparr>trans = t, rings = sock_rings s, proto = cell (backend s)\<rparr>"
    have idle: "idle L (trans ?c)" "rings_inv (rings ?c)" "sock_ok k s" "k < 8" "i \<noteq> k"
      using Cons.prems by (auto simp: sock_ok_def)
    note keep = tick_frame [OF idle(4,5,3) Cons.prems(5) _ scratch slot]
    show ?thesis
    proof (cases rule: chip.slot.tick_cases [OF idle(1,2)])
      case (1 c')
      obtain r2 ss2 t2 where rec: "run_loop chip (k + 1) ss (trans c') = (r2, ss2, t2)" by (metis prod_cases3)
      show ?thesis using Cons.IH [OF _ _ _ _ _ rec] Cons.prems rec False 1 keep [OF 1(1)]
        by (auto simp: lock_mut_def try_lock_internal_def)
    next
      case (2 kd p n c')
      then show ?thesis using Cons.prems False keep [OF 2(1)]
        by (auto simp: lock_mut_def try_lock_internal_def Let_def)
    qed
  qed
qed auto

lemma own_tick:
  assumes "sock_ok i s" "idle L t" "bus_any L (rest L i g (cell (backend s)) (sock_rings s)) t"
    "backend_run chip \<lparr>trans = t, rings = sock_rings s, proto = cell (backend s)\<rparr> = (r, c')"
    and scratch: "67 \<le> L" and slot: "i < 8"
  shows "case r of
      Ok (Started k ptr n) \<Rightarrow> \<exists>x p. flying L x p (trans c') \<and>
        flight L i g \<lparr>op_idx = i, op_kind = k, op_block = bk_block (proto c'), op_pointer = ptr, op_bytes = n\<rparr> (proto c') (rings c') p x
    | _ \<Rightarrow> bus_any L (rest L i g (proto c') (rings c')) (trans c')"
proof -
  obtain c where "on_chip L c t" "rest L i g (cell (backend s)) (sock_rings s) c"
    using assms(2,3) flying_in_flight idle_not_in_flight by (fastforce simp: bus_any_def)
  from tick [OF scratch slot _ _ this assms(4)] assms(1) show ?thesis by (simp add: sock_ok_def)
qed

lemma run_loop_flow:
  assumes "k + length ss \<le> 8" "k \<le> i" "i < k + length ss" "idle L t" "socks_ok k ss"
    "bus_any L (rest L i g (cell (backend (ss ! (i - k)))) (sock_rings (ss ! (i - k)))) t"
    "run_loop chip k ss t = (Ok bo, ss', t')"
    and scratch: "67 \<le> L" and slot: "i < 8"
  shows "slot_bus L i (rest L i) (flight L i) g t' (cell (backend (ss' ! (i - k)))) (sock_rings (ss' ! (i - k))) bo"
  using assms(1-7)
proof (induction ss arbitrary: k t ss' t')
  case (Cons s ss)
  note spec = chip.run_loop_spec [OF Cons.prems(4,5,7)]
  show ?case
  proof (cases "busy (backend s)")
    case True
    obtain r2 ss2 t2 where rec: "run_loop chip (k + 1) ss t = (r2, ss2, t2)" by (metis prod_cases3)
    have eq: "r2 = Ok bo" "ss' = s # ss2" "t' = t2" using Cons.prems(7) rec True by (auto simp: lock_mut_def try_lock_internal_def)
    show ?thesis
    proof (cases "i = k")
      case True
      then show ?thesis using run_loop_frame [OF _ _ _ _ _ rec scratch slot] chip.run_loop_spec [OF _ _ rec] Cons.prems eq
        by (subst slot_bus_other) (auto split: option.splits)
    next
      case False
      then show ?thesis using Cons.IH [of "k + 1" t ss2 t2] Cons.prems eq rec by (auto simp: nth_Cons')
    qed
  next
    case False
    let ?c = "\<lparr>trans = t, rings = sock_rings s, proto = cell (backend s)\<rparr>"
    have idle: "idle L (trans ?c)" "rings_inv (rings ?c)" "sock_ok k s" "k < 8"
      using Cons.prems by (auto simp: sock_ok_def)
    show ?thesis
    proof (cases rule: chip.slot.tick_cases [OF idle(1,2)])
      case (1 c')
      obtain r2 ss2 t2 where rec: "run_loop chip (k + 1) ss (trans c') = (r2, ss2, t2)" by (metis prod_cases3)
      have eq: "r2 = Ok bo" "ss' = s\<lparr>backend := \<lparr>cell = proto c', busy = False\<rparr>, sock_rings := rings c'\<rparr> # ss2" "t' = t2"
        using Cons.prems(7) rec False 1 by (auto simp: lock_mut_def try_lock_internal_def drop_guard_def)
      show ?thesis
      proof (cases "i = k")
        case True
        have me: "sock_ok i s" "bus_any L (rest L i g (cell (backend s)) (sock_rings s)) t"
          using Cons.prems True by auto
        show ?thesis
          using own_tick [OF me(1) Cons.prems(4) me(2) 1(1) scratch slot] run_loop_frame [OF _ _ _ _ _ rec scratch slot]
            chip.run_loop_spec [OF _ _ rec] Cons.prems 1 eq True
          by (subst slot_bus_other) (auto split: option.splits)
      next
        case ne: False
        have "bus_any L (rest L i g (cell (backend (ss ! (i - (k + 1))))) (sock_rings (ss ! (i - (k + 1))))) (trans c')"
          using tick_frame [OF idle(4) ne idle(3) _ 1(1) scratch slot] Cons.prems ne by (auto simp: nth_Cons')
        then show ?thesis using Cons.IH [of "k + 1" "trans c'" ss2 t2] Cons.prems eq rec 1 ne by (auto simp: nth_Cons')
      qed
    next
      case (2 kd p n c')
      have eq: "bo = Some \<lparr>op_idx = k, op_kind = kd, op_block = bk_block (proto c'), op_pointer = p, op_bytes = n\<rparr>"
        "ss' = s\<lparr>backend := \<lparr>cell = proto c', busy = False\<rparr>, sock_rings := rings c'\<rparr> # ss" "t' = trans c'"
        using Cons.prems(7) False 2 by (auto simp: lock_mut_def try_lock_internal_def drop_guard_def Let_def)
      show ?thesis
      proof (cases "i = k")
        case True
        have me: "sock_ok i s" "bus_any L (rest L i g (cell (backend s)) (sock_rings s)) t" using Cons.prems True by auto
        show ?thesis using own_tick [OF me(1) Cons.prems(4) me(2) 2(1) scratch slot] eq True by (simp add: slot_bus_def)
      next
        case ne: False
        then show ?thesis using tick_frame [OF idle(4) ne idle(3) _ 2(1) scratch slot] Cons.prems eq
          by (subst slot_bus_other) (auto simp: nth_Cons')
      qed
    qed
  qed
qed simp

lemma run_flow:
  fixes w :: chip_driver
  assumes "chip.w_quiet L w" "flow L i (rest L i) (flight L i) g w" "w6100_run chip w = (r, w')"
    and scratch: "67 \<le> L" and slot: "i < 8"
  shows "flow L i (rest L i) (flight L i) g w'"
proof -
  have inv: "w_inv chip L w'" using wpD [OF chip.run_spec [OF assms(1)] assms(3)] by simp
  have w: "\<not> busy (device w)" "\<not> busy (bulk w)" "length (sockets w) = 8" "socks_ok 0 (sockets w)"
    "cell (bulk w) = None" "idle L (transport (cell (device w)))"
    using assms(1) by (auto simp: chip.w_quiet_iff rest_ok_def)
  obtain r1 ss t where rl: "run_loop chip 0 (sockets w) (transport (cell (device w))) = (r1, ss, t)" by (metis prod_cases3)
  obtain bo where r1: "r1 = Ok bo" using chip.run_loop_spec [OF w(6,4) rl] by (auto split: res.splits)
  have F: "bus_any L (rest L i g (cell (backend (sockets w ! i))) (sock_rings (sockets w ! i))) (transport (cell (device w)))"
    "length (mac w) = 6" using assms(2) by (auto simp: flow_quiet [OF assms(1)] bus_only_def)
  have "slot_bus L i (rest L i) (flight L i) g t (cell (backend (ss ! i))) (sock_rings (ss ! i)) bo"
    using run_loop_flow [of 0 "sockets w" i L "transport (cell (device w))" g bo ss t] w F rl r1 scratch slot by simp
  moreover have "sockets w' = ss" "transport (cell (device w')) = t" "cell (bulk w') = bo" "mac w' = mac w"
    using assms(3) rl r1 w
    by (auto simp: w6100_run_def with_device_def run_body_def lock_mut_def try_lock_internal_def drop_guard_def
        put_bulk_def Let_def split: option.splits)
  ultimately show ?thesis using inv F(2) by (simp add: flow_def)
qed

lemma service_flow:
  fixes w :: chip_driver
  assumes "flow L i (rest L i) (flight L i) g w" "w6100_service chip P w = (r, w')"
    and scratch: "67 \<le> L" and slot: "i < 8"
  shows "flow L i (rest L i) (flight L i) g w'"
proof (cases "cell (bulk w)")
  case (Some op)
  with assms show ?thesis
    by (simp add: w6100_service_def bnd_def gets_def ret_def bulk_in_flight_def flow_def w_inv_def rest_ok_def)
next
  case None
  then have q: "chip.w_quiet L w" using assms(1) by (simp add: chip.w_quiet_def flow_def)
  then have w: "\<not> bulk_in_flight w" "\<not> busy (device w)" "idle L (transport (cell (device w)))"
    by (auto simp: chip.w_quiet_iff rest_ok_def bulk_in_flight_def)
  let ?J = "rest L i g (cell (backend (sockets w ! i))) (sock_rings (sockets w ! i))"
  have F: "bus_only L ?J (sockets w) (bulk w) w" using assms(1) by (simp add: flow_quiet [OF q])
  have L: "7 \<le> L" using scratch by simp
  obtain w1 where up: "is_link_up chip w = (Ok True, w1)"
    using chip_link_up [OF L F w(3,2)] by (elim exE conjE)
  have q1: "chip.w_quiet L w1" using wpD [OF keepsD [OF chip.keeps_is_link_up q] up] by simp
  have c1: "flow L i (rest L i) (flight L i) g w1"
  proof (rule flow_quiet_step [OF q q1 assms(1)])
    fix J assume "bus_only L J (sockets w) (bulk w) w"
    from chip_link_up [OF L this w(3,2)] up show "bus_only L J (sockets w) (bulk w) w1" by simp
  qed
  define w2 where "w2 = w1\<lparr>link_up := True\<rparr>"
  have w2: "chip.w_quiet L w2" "flow L i (rest L i) (flight L i) g w2" using q1 c1 by (simp_all add: w2_def)
  note svc = service_up [OF w(1) up w2_def, of P]
  show ?thesis
  proof (cases "get_network_config w2 = None \<or> \<not> config_dirty w2")
    case True
    then have "w6100_service chip P w = w6100_run chip w2" unfolding svc by (auto split: option.split)
    then have "w6100_run chip w2 = (r, w')" using assms(2) by simp
    then show ?thesis by (rule run_flow [OF w2 _ scratch slot])
  next
    case False
    then obtain cfg where cfg: "get_network_config w2 = Some cfg" "config_dirty w2" by auto
    obtain r3 w3 where net: "setup_network chip (cfg_ip cfg) (cfg_gateway cfg) (cfg_subnet cfg) w2 = (r3, w3)"
      by (cases "setup_network chip (cfg_ip cfg) (cfg_gateway cfg) (cfg_subnet cfg) w2")
    have q3: "chip.w_quiet L w3" "r3 \<noteq> Panic" using wpD [OF keepsD [OF chip.keeps_setup_network w2(1)] net] by simp_all
    have "bus_only L J (sockets w2) (bulk w2) w3" if b: "bus_only L J (sockets w2) (bulk w2) w2" for J
      using presD [OF pres_setup_network [OF scratch] b net] .
    then have c3: "flow L i (rest L i) (flight L i) g w3" by (rule flow_quiet_step [OF w2(1) q3(1) w2(2)])
    have "w6100_service chip P w = (case r3 of Ok _ \<Rightarrow> w6100_run chip (w3\<lparr>config_dirty := False\<rparr>) | Err e \<Rightarrow> (Err e, w3) | Panic \<Rightarrow> (Panic, w3))"
      unfolding svc by (simp add: cfg net bnd_def modify_def split: res.split)
    then show ?thesis using assms(2) c3 q3 run_flow [of L "w3\<lparr>config_dirty := False\<rparr>" i g r w'] scratch slot by (cases r3) auto
  qed
qed

lemma complete_flow:
  fixes w :: chip_driver
  assumes "flow L i (rest L i) (flight L i) g w" "cell (bulk w) = Some op" "with_device (finish_body chip op) w = (r, w')"
    and scratch: "67 \<le> L" and slot: "i < 8"
  shows "flow L i (rest L i) (flight L i) g (put_bulk None w')"
proof -
  let ?j = "op_idx op" and ?t = "transport (cell (device w))" and ?s = "sockets w ! i"
  let ?q = "sock_rings (sockets w ! ?j)" and ?w = "put_bulk None w'"
  have inv: "w_inv chip L w" using assms(1) by (simp add: flow_def)
  have w: "\<not> busy (device w)" "\<not> busy (bulk w)" "length (sockets w) = 8" "op_ok L op (sockets w)" "sock_ok ?j (sockets w ! ?j)"
    using inv assms(2) by (auto simp: w_inv_def rest_ok_def socks_ok_nth op_ok_def)
  then have j: "?j < 8" "op_block op = socket_block ?j" "HEADER + op_bytes op \<le> L"
    "bulk_need (op_kind op) (op_bytes op) \<le> free_space (rx ?q)" "rings_inv ?q"
    by (auto simp: op_ok_def sock_ok_def)
  obtain r1 t q where fb: "finish_bulk chip op (?t, ?q) = (r1, (t, q))" by (metis prod_cases3)
  have eq: "transport (cell (device ?w)) = t" "cell (bulk ?w) = None"
    "sockets ?w = (sockets w)[?j := (sockets w ! ?j)\<lparr>sock_rings := q\<rparr>]" "mac ?w = mac w"
    using assms(3) fb w(1-3) j(1)
    by (auto simp: with_device_def finish_body_def lock_mut_def try_lock_internal_def drop_guard_def put_bulk_free)
  have quiet: "w_inv chip L ?w"
    using wpD [OF chip.finish_body_spec [OF inv assms(2)] assms(3)] by (simp add: chip.w_quiet_def)
  have F: "length (mac w) = 6" "slot_bus L i (rest L i) (flight L i) g ?t (cell (backend ?s)) (sock_rings ?s) (Some op)"
    using assms(1,2) by (auto simp: flow_def)
  have "bus_any L (rest L i g (cell (backend (sockets ?w ! i))) (sock_rings (sockets ?w ! i))) t"
  proof (cases "?j = i")
    case True
    then obtain c p where c: "flying L c p ?t" "flight L i g op (cell (backend ?s)) (sock_rings ?s) p c"
      using F(2) by (auto simp: slot_bus_def)
    from finish [OF scratch slot True _ j(5,3,4) c(1) _ fb, of g "cell (backend ?s)"] c(2) j(2) True
    show ?thesis using eq(3) w(3) slot by simp
  next
    case False
    have "frame_for ?j (rest L i g (cell (backend ?s)) (sock_rings ?s))" by (rule frame [OF slot j(1) False])
    from presD [OF finish_bulk_frame [OF scratch this j(2,3)] _ fb] F(2) False j(5)
    have "bus_any L (rest L i g (cell (backend ?s)) (sock_rings ?s)) t" by (auto simp: at_pair_def slot_bus_def)
    then show ?thesis using eq(3) False by auto
  qed
  then show ?thesis using quiet eq F(1) by (simp add: flow_def slot_bus_def)
qed

lemma dma_complete_flow:
  fixes w :: chip_driver
  assumes "flow L i (rest L i) (flight L i) g w" "dma_complete chip P w = (r, w')"
    and scratch: "67 \<le> L" and slot: "i < 8"
  shows "flow L i (rest L i) (flight L i) g w'"
proof (cases "cell (bulk w)")
  case None
  with assms show ?thesis by (auto simp: dma_complete_def flow_def w_inv_def rest_ok_def)
next
  case (Some op)
  have inv: "w_inv chip L w" using assms(1) by (simp add: flow_def)
  obtain r1 w1 where f: "with_device (finish_body chip op) w = (r1, w1)" by (cases "with_device (finish_body chip op) w")
  have post: "r1 \<noteq> Panic" "chip.w_quiet L (put_bulk None w1)" using wpD [OF chip.finish_body_spec [OF inv Some] f] by simp_all
  obtain r2 w2 where s: "w6100_service chip P (put_bulk None w1) = (r2, w2)" by (cases "w6100_service chip P (put_bulk None w1)")
  have "w' = w2" using chip.dma_complete_unfold [OF inv Some f post, of P] s assms(2) by simp
  then show ?thesis using service_flow [OF complete_flow [OF assms(1) Some f scratch slot] s scratch slot] by simp
qed

text \<open>A change of some slot that the owner of slot \<open>i\<close> accounts for.\<close>

lemma update_flow:
  fixes w :: chip_driver
  assumes "flow L i (rest L i) (flight L i) g w" "w_inv chip L (w\<lparr>sockets := ss\<rparr>)"
    "\<And>c. rest L i g (cell (backend (sockets w ! i))) (sock_rings (sockets w ! i)) c \<Longrightarrow>
       rest L i g' (cell (backend (ss ! i))) (sock_rings (ss ! i)) c"
    "\<And>op p c. flight L i g op (cell (backend (sockets w ! i))) (sock_rings (sockets w ! i)) p c \<Longrightarrow>
       flight L i g' op (cell (backend (ss ! i))) (sock_rings (ss ! i)) p c"
  shows "flow L i (rest L i) (flight L i) g' (w\<lparr>sockets := ss\<rparr>)"
  using assms by (fastforce simp: flow_def slot_bus_def bus_any_def split: option.splits if_splits)

lemma on_socket_flow:
  fixes w :: chip_driver
  assumes "j < 8" "flow L i (rest L i) (flight L i) g w" "sock_safe m" "m (sockets w ! j) = (r, s')" "j \<noteq> i \<Longrightarrow> g' = g"
    "\<And>c. j = i \<Longrightarrow> rest L i g (cell (backend (sockets w ! i))) (sock_rings (sockets w ! i)) c \<Longrightarrow>
       rest L i g' (cell (backend s')) (sock_rings s') c"
    "\<And>op p c. j = i \<Longrightarrow> flight L i g op (cell (backend (sockets w ! i))) (sock_rings (sockets w ! i)) p c \<Longrightarrow>
       flight L i g' op (cell (backend s')) (sock_rings s') p c"
    and slot: "i < 8"
  shows "on_socket j m w = (r, w\<lparr>sockets := (sockets w)[j := s']\<rparr>) \<and>
    flow L i (rest L i) (flight L i) g' (w\<lparr>sockets := (sockets w)[j := s']\<rparr>)"
proof -
  have inv: "w_inv chip L w" "length (sockets w) = 8" using assms(2) by (auto simp: flow_def w_inv_def rest_ok_def)
  have o: "on_socket j m w = (r, w\<lparr>sockets := (sockets w)[j := s']\<rparr>)" using assms(1,4) inv(2) by (simp add: on_socket_def)
  have inv': "w_inv chip L (w\<lparr>sockets := (sockets w)[j := s']\<rparr>)"
    using wpD [OF on_socket_keeps [OF assms(3) inv(1) assms(1)] o] by simp
  have "flow L i (rest L i) (flight L i) g' (w\<lparr>sockets := (sockets w)[j := s']\<rparr>)"
    by (rule update_flow [OF assms(2) inv']) (use assms inv(2) slot in \<open>cases "j = i"; auto\<close>)+
  with o show ?thesis by blast
qed

lemma config_flow:
  fixes w :: chip_driver
  assumes "flow L i (rest L i) (flight L i) g w"
  shows "flow L i (rest L i) (flight L i) g (snd (set_network_config cfg w))"
  using assms
  by (auto simp: set_network_config_def bnd_def modify_def zoom_def locked_def flow_def w_inv_def rest_ok_def
      lock_mut_def try_lock_internal_def drop_guard_def split: option.splits)

text \<open>Something happens on the wire.\<close>

lemma wire_flow:
  fixes w :: chip_driver
  assumes "flow L i (rest L i) (flight L i) g w"
    "\<And>c b q. chip_of w = Some c \<Longrightarrow> rest L i g b q c \<Longrightarrow> rest L i g' b q (f c)"
    "\<And>c op b q p. chip_of w = Some c \<Longrightarrow> flight L i g op b q p c \<Longrightarrow> flight L i g' op b q p (f c)"
  shows "flow L i (rest L i) (flight L i) g' (on_wire f w)"
proof -
  let ?t = "transport (cell (device w))"
  have co: "on_chip L c ?t \<Longrightarrow> chip_of w = Some c" "flying L c p ?t \<Longrightarrow> chip_of w = Some c" for c p
    by (auto simp: on_chip_def flying_def chip_of_def)
  have "bus_any L (rest L i g' b q) (bus_wire f ?t)" if "bus_any L (rest L i g b q) ?t" for b q
    using that assms(2) co bus_wire_simps(1) [of L _ ?t f] bus_wire_simps(2) [of L _ "[]" ?t f] unfolding bus_any_def by blast
  moreover have "\<exists>c p. flying L c p (bus_wire f ?t) \<and> flight L i g' op b q p c" if "flying L c p ?t" "flight L i g op b q p c" for c p op b q
    using that assms(3) co(2) bus_wire_simps(2) [OF that(1), of f] by blast
  ultimately have "slot_bus L i (rest L i) (flight L i) g' (bus_wire f ?t) b q bo" if "slot_bus L i (rest L i) (flight L i) g ?t b q bo" for b q bo
    using that by (auto simp: slot_bus_def split: option.splits)
  moreover have "w_inv chip L (on_wire f w)"
    using assms(1) bus_wire_simps(3,4) [of L ?t f]
    by (auto simp: flow_def w_inv_def rest_ok_def on_wire_def split: option.splits)
  ultimately show ?thesis using assms(1) by (simp add: flow_def on_wire_def)
qed

end

text \<open>
  A slot that is still free: the driver leaves its socket alone. \<open>Inl k\<close> is that stage, with what the
  chip holds of the socket, and \<open>Inr g\<close> the owner's.
\<close>

fun staged_rest ::
  "('k \<Rightarrow> nat \<Rightarrow> chip_state \<Rightarrow> bool) \<Rightarrow> (nat \<Rightarrow> nat \<Rightarrow> 'g at_rest_pred) \<Rightarrow> nat \<Rightarrow> nat \<Rightarrow> ('k + 'g) at_rest_pred" where
  "staged_rest K rest L i (Inl k) b q c \<longleftrightarrow> is_free b \<and> K k i c"
| "staged_rest K rest L i (Inr g) b q c \<longleftrightarrow> rest L i g b q c"

fun staged_flight :: "(nat \<Rightarrow> nat \<Rightarrow> 'g in_flight_pred) \<Rightarrow> nat \<Rightarrow> nat \<Rightarrow> ('k + 'g) in_flight_pred" where
  "staged_flight flight L i (Inl k) op b q p c \<longleftrightarrow> False"
| "staged_flight flight L i (Inr g) op b q p c \<longleftrightarrow> flight L i g op b q p c"

lemma slot_bus_staged:
  "slot_bus L i (staged_rest K rest L i) (staged_flight flight L i) (Inr g) t b q bo =
     slot_bus L i (rest L i) (flight L i) g t b q bo"
  by (simp add: slot_bus_def bus_any_def split: option.splits)

lemma flow_staged:
  "flow L i (staged_rest K rest L i) (staged_flight flight L i) (Inr g) w = flow L i (rest L i) (flight L i) g w"
  by (simp add: flow_def slot_bus_staged)

lemma backend_run_free:
  assumes "is_free b" "backend_run D \<lparr>trans = t, rings = q, proto = b\<rparr> = (r, c')"
  shows "r = Ok ActNone \<and> trans c' = t \<and> rings c' = q \<and> is_free (proto c')"
  using assms by (auto simp: backend_run_def drive_def is_free_def free_if_released_def)

context slot_flow
begin

lemma staged:
  fixes K :: "'k \<Rightarrow> nat \<Rightarrow> chip_state \<Rightarrow> bool"
  assumes K: "\<And>k i j. i < 8 \<Longrightarrow> j < 8 \<Longrightarrow> j \<noteq> i \<Longrightarrow> frame_for j (K k i)"
  shows "slot_flow (staged_rest K rest) (staged_flight flight)"
proof
  fix i j L :: nat and g :: "'k + 'g" and b q
  assume ij: "i < 8" "j < 8" "j \<noteq> i"
  show "frame_for j (staged_rest K rest L i g b q)"
    using frame [OF ij] K [OF ij] by (cases g) (simp_all add: frame_for_def)
next
  fix i L b q c t r and g :: "'k + 'g" and c' :: "(chip_state, chip_state \<times> dma_buffers, socket_backend) ctx"
  assume *: "67 \<le> L" "i < 8" "bk_block b = socket_block i" "rings_inv q" "on_chip L c t" "staged_rest K rest L i g b q c"
    "backend_run chip \<lparr>trans = t, rings = q, proto = b\<rparr> = (r, c')"
  let ?goal = "\<lambda>g. case r of
      Ok (Started k ptr n) \<Rightarrow> \<exists>x p. flying L x p (trans c') \<and> staged_flight flight L i g
        \<lparr>op_idx = i, op_kind = k, op_block = bk_block (proto c'), op_pointer = ptr, op_bytes = n\<rparr> (proto c') (rings c') p x
    | _ \<Rightarrow> bus_any L (staged_rest K rest L i g (proto c') (rings c')) (trans c')"
  show "?goal g"
  proof (cases g)
    case (Inl k)
    then have b: "is_free b" "K k i c" using *(6) by simp_all
    have "bus_any L (staged_rest K rest L i (Inl k) (proto c') (rings c')) (trans c')"
      by (rule bus_anyI(1) [of L c]) (use backend_run_free [OF b(1) *(7)] *(5) b(2) in simp_all)
    then show ?thesis using Inl backend_run_free [OF b(1) *(7)] by simp
  next
    case (Inr a)
    have eq: "staged_rest K rest L i (Inr a) b q = rest L i a b q" for b q by (rule ext) simp
    show ?thesis unfolding Inr eq staged_flight.simps by (rule tick [OF *(1-5) _ *(7)]) (use *(6) Inr in simp)
  qed
next
  fix L i op q c p t b r t' q' and g :: "'k + 'g"
  assume *: "67 \<le> L" "i < 8" "op_idx op = i" "op_block op = socket_block i" "rings_inv q" "HEADER + op_bytes op \<le> L"
    "bulk_need (op_kind op) (op_bytes op) \<le> free_space (rx q)" "flying L c p t" "staged_flight flight L i g op b q p c"
    "finish_bulk chip op (t, q) = (r, (t', q'))"
  obtain a where g: "g = Inr a" using *(9) by (cases g) simp_all
  have "staged_rest K rest L i (Inr a) b q' = rest L i a b q'" by (rule ext) simp
  then show "bus_any L (staged_rest K rest L i g b q') t'" using finish [OF *(1-8) _ *(10), of a] *(9) g by simp
qed

end

text \<open>The owner of a claimed slot keeps it when others are opened.\<close>

locale owned_flow = slot_flow rest flight
  for rest :: "nat \<Rightarrow> nat \<Rightarrow> 'g at_rest_pred" and flight :: "nat \<Rightarrow> nat \<Rightarrow> 'g in_flight_pred" +
  assumes live: "rest L i g b q c \<Longrightarrow> bk_state b \<noteq> BFree" "flight L i g op b q p c \<Longrightarrow> bk_state b \<noteq> BFree"
begin

lemma open_flow:
  fixes w :: chip_driver
  assumes "flow L i (rest L i) (flight L i) g w" "buffer_ok rxb" "buffer_ok txb" "\<And>b. bk_block (snd (claim b)) = bk_block b"
    and slot: "i < 8"
  shows "flow L i (rest L i) (flight L i) g (snd (quietly (on_sockets (open_loop claim rxb txb 0)) w))"
proof -
  obtain r ss where o: "open_loop claim rxb txb 0 (sockets w) = (r, ss)"
    by (cases "open_loop claim rxb txb 0 (sockets w)") auto
  have w: "socks_ok 0 (sockets w)" "length (sockets w) = 8" "w_inv chip L w"
    using assms(1) by (auto simp: flow_def w_inv_def rest_ok_def)
  have l: "bk_state (cell (backend (sockets w ! i))) \<noteq> BFree"
    using assms(1) live by (auto simp: flow_def slot_bus_def bus_any_def split: option.splits if_splits)
  note post = open_loop_spec [OF w(1) assms(2-4) o]
  have keep: "cell (backend (ss ! i)) = cell (backend (sockets w ! i))" "sock_rings (ss ! i) = sock_rings (sockets w ! i)"
    using post w(2) l slot by auto
  obtain r1 w1 where e: "quietly (on_sockets (open_loop claim rxb txb 0)) w = (r1, w1)"
    by (cases "quietly (on_sockets (open_loop claim rxb txb 0)) w")
  have w1: "w1 = w\<lparr>sockets := ss\<rparr>" using e o
    by (cases r) (auto simp: quietly_def on_sockets_def zoom_def bnd_def ret_def)
  have "w_inv chip L w1" using wpD [OF open_keeps [OF w(3) assms(2-4)] e] by simp
  then show ?thesis using e w1 update_flow [OF assms(1), of ss g] keep by simp
qed

end

end
