(* ===== verification/Tcp_Stream.thy ===== *)
theory Tcp_Stream
  imports Chip_Frame Driver_Safety
begin

text \<open>
  The two byte streams of a TCP socket, between the rings of its slot and the FIFOs of the
  chip model: no tick and no completion loses, repeats or reorders a byte of either.
\<close>

subsection \<open>The two streams of a socket\<close>

text \<open>
  Socket \<open>i\<close> of the chip between two transfers: \<open>F\<close> waits in the RX FIFO, \<open>S\<close> has gone out
  on the wire, and the TX FIFO is empty; and with \<open>data\<close> staged in the TX FIFO from \<open>p\<close> on,
  not yet committed.
\<close>

definition at_rest :: "nat \<Rightarrow> bytes \<Rightarrow> bytes \<Rightarrow> chip_state \<Rightarrow> bool" where
  "at_rest i S F c \<longleftrightarrow> length (csockets c) = 8 \<and> length (sent c) = 8 \<and>
     cb_ok (srx (csockets c ! i)) \<and> length (cb_data (stx (csockets c ! i))) = 2048 \<and>
     read_ptr (stx (csockets c ! i)) = write_ptr (stx (csockets c ! i)) \<and>
     fifo (srx (csockets c ! i)) = F \<and> sent c ! i = S"

definition tx_staged :: "nat \<Rightarrow> bytes \<Rightarrow> bytes \<Rightarrow> u16 \<Rightarrow> bytes \<Rightarrow> chip_state \<Rightarrow> bool" where
  "tx_staged i S F p data c \<longleftrightarrow> at_rest i S F c \<and> p = write_ptr (stx (csockets c ! i)) \<and>
     length data \<le> 2048 \<and> cb_peek p (length data) (stx (csockets c ! i)) = data"

lemma csockets_upd [simp]:
  "length (csockets (upd_socket j f c)) = length (csockets c)"
  "i < length (csockets c) \<Longrightarrow> csockets (upd_socket j f c) ! i = (if i = j then f (csockets c ! i) else csockets c ! i)"
  "sent (upd_socket j f c) = sent c" "sent_dgrams (upd_socket j f c) = sent_dgrams c"
  by (auto simp: upd_socket_def nth_list_update)

lemma at_rest_quiet: "i < 8 \<Longrightarrow> quiet_for i (at_rest i S F)"
  by (auto simp: quiet_for_def harmless_def sn_regs write_reg_def Let_def run_command_def at_rest_def)

text \<open>What socket \<open>i\<close> looks like is no business of another socket's driver.\<close>

definition sock_view :: "nat \<Rightarrow> socket_model \<Rightarrow> bytes \<Rightarrow> chip_state \<Rightarrow> bool" where
  "sock_view i s S c \<longleftrightarrow> length (csockets c) = 8 \<and> length (sent c) = 8 \<and> csockets c ! i = s \<and> sent c ! i = S"

lemma sock_view_frame: "i < 8 \<Longrightarrow> j < 8 \<Longrightarrow> i \<noteq> j \<Longrightarrow> frame_for j (sock_view i s S)"
  by (auto simp: frame_for_def sock_view_def write_reg_def Let_def run_command_def send_out_def)

lemma stage_more:
  assumes "tx_staged i S F p data c" "i < 8" "length data + length ys \<le> 2048"
  shows "tx_staged i S F p (data @ ys) (upd_socket i (\<lambda>s. s\<lparr>stx := cb_poke (p + of_nat (length data)) ys (stx s)\<rparr>) c)"
proof -
  let ?b = "stx (csockets c ! i)" and ?q = "p + of_nat (length data)"
  have r: "at_rest i S F c" "p = write_ptr ?b" "cb_peek p (length data) ?b = data" "length (cb_data ?b) = 2048"
    "length (csockets c) = 8"
    using assms(1) by (auto simp: tx_staged_def at_rest_def)
  have "cb_peek p (length data + length ys) (cb_poke ?q ys ?b) =
      cb_peek p (length data) (cb_poke ?q ys ?b) @ cb_peek ?q (length ys) (cb_poke ?q ys ?b)"
    using r(4) by (intro cb_peek_append) simp
  also have "\<dots> = data @ ys"
    using r assms(3) peek_poke_before [of ?b "length data" ys p] by (simp add: peek_poke_same)
  finally show ?thesis using r assms(2,3) by (simp add: tx_staged_def at_rest_def)
qed

lemma commit_staged:
  assumes "tx_staged i S F p data c" "i < 8"
  shows "at_rest i (S @ data) F (run_command i (command_code Send)
     (upd_socket i (\<lambda>s. s\<lparr>stx := (stx s)\<lparr>write_ptr := p + of_nat (length data)\<rparr>\<rparr>) c))"
proof -
  let ?b = "stx (csockets c ! i)"
  have r: "length (csockets c) = 8" "length (sent c) = 8" "p = write_ptr ?b" "read_ptr ?b = p" "length data \<le> 2048"
    "cb_peek p (length data) ?b = data" "sent c ! i = S" "cb_ok (srx (csockets c ! i))"
    "fifo (srx (csockets c ! i)) = F" "length (cb_data ?b) = 2048"
    using assms(1) by (auto simp: tx_staged_def at_rest_def)
  let ?w = "?b\<lparr>write_ptr := p + of_nat (length data)\<rparr>"
  have "unat (cb_used ?w) = length data" using r(4,5) by (simp add: cb_used_def unat_of_nat)
  moreover have "cb_peek p n ?w = cb_peek p n ?b" for n by (simp add: cb_peek_def)
  ultimately have out: "cb_peek (read_ptr ?w) (unat (cb_used ?w)) ?w = data" using r(4,6) by simp
  show ?thesis using r assms(2) out
    by (simp add: run_command_def send_out_def Let_def at_rest_def nth_list_update)
qed


subsection \<open>A tick of the TCP machine\<close>

type_synonym chip_tcp = "(chip_state, chip_state \<times> dma_buffers) tcp_ctx"

text \<open>
  What a tick leaves of the streams of socket \<open>i\<close>: nothing started, and the bytes that left
  the transmit ring are on the wire; or a receive of the oldest bytes of the FIFO; or a
  transmission of the oldest bytes of the ring, staged.
\<close>

definition settled :: "nat \<Rightarrow> nat \<Rightarrow> bytes \<Rightarrow> bytes \<Rightarrow> chip_tcp \<Rightarrow> chip_tcp \<Rightarrow> bool" where
  "settled L i S F c c' \<longleftrightarrow> rings_inv (rings c') \<and> rx (rings c') = rx (rings c) \<and>
     (\<exists>x S'. on_chip L x (trans c') \<and> at_rest i S' F x \<and>
        S' @ contents (tx (rings c')) = S @ contents (tx (rings c)))"

definition unmoved :: "nat \<Rightarrow> nat \<Rightarrow> bytes \<Rightarrow> bytes \<Rightarrow> chip_tcp \<Rightarrow> chip_tcp \<Rightarrow> bool" where
  "unmoved L i S F c c' \<longleftrightarrow> rings c' = rings c \<and> (\<exists>x. on_chip L x (trans c') \<and> at_rest i S F x)"

definition stream_post ::
  "nat \<Rightarrow> nat \<Rightarrow> bytes \<Rightarrow> bytes \<Rightarrow> chip_tcp \<Rightarrow> bulk_action res \<Rightarrow> chip_tcp \<Rightarrow> bool" where
  "stream_post L i S F c r c' = (case r of
     Ok (Started k p n) \<Rightarrow> rings_inv (rings c') \<and> (case k of
         BulkReceive \<Rightarrow> rings c' = rings c \<and> n \<le> length F \<and>
           (\<exists>x. flying L x (take n F) (trans c') \<and> at_rest i S F x \<and> p = read_ptr (srx (csockets x ! i)))
       | BulkTransmit \<Rightarrow> rx (rings c') = rx (rings c) \<and>
           (\<exists>x data. flying L x [] (trans c') \<and> tx_staged i S F p data x \<and> length data = n \<and>
              data @ contents (tx (rings c')) = contents (tx (rings c)))
       | BulkReceiveDatagram _ _ \<Rightarrow> False)
   | Panic \<Rightarrow> False
   | _ \<Rightarrow> settled L i S F c c')"

lemma stream_postI:
  "settled L i S F c c' \<Longrightarrow> stream_post L i S F c (Ok ActNone) c'"
  "settled L i S F c c' \<Longrightarrow> stream_post L i S F c (Err e) c'"
  "flying L x (take n F) (trans c') \<Longrightarrow> at_rest i S F x \<Longrightarrow> p = read_ptr (srx (csockets x ! i)) \<Longrightarrow>
     n \<le> length F \<Longrightarrow> rings c' = rings c \<Longrightarrow> rings_inv (rings c) \<Longrightarrow>
     stream_post L i S F c (Ok (Started BulkReceive p n)) c'"
  "flying L x [] (trans c') \<Longrightarrow> tx_staged i S F p (take n (contents (tx (rings c)))) x \<Longrightarrow>
     n \<le> ring_len (tx (rings c)) \<Longrightarrow> rings_inv (rings c') \<Longrightarrow> rx (rings c') = rx (rings c) \<Longrightarrow>
     contents (tx (rings c')) = drop n (contents (tx (rings c))) \<Longrightarrow>
     stream_post L i S F c (Ok (Started BulkTransmit p n)) c'"
proof -
  assume "flying L x [] (trans c')" "tx_staged i S F p (take n (contents (tx (rings c)))) x"
     "n \<le> ring_len (tx (rings c))" "rings_inv (rings c')" "rx (rings c') = rx (rings c)"
     "contents (tx (rings c')) = drop n (contents (tx (rings c)))"
  then show "stream_post L i S F c (Ok (Started BulkTransmit p n)) c'"
    by (auto simp: stream_post_def intro!: exI [of _ x] exI [of _ "take n (contents (tx (rings c)))"])
qed (auto simp: stream_post_def)

lemma wp_tr_eq: "wp (tr m) Q c = wp m (\<lambda>r t. Q r (c\<lparr>trans := t\<rparr>)) (trans c)"
  by (simp add: tr_def wp_zoom)

lemma settledI:
  "on_chip L x (trans c') \<Longrightarrow> at_rest i S F x \<Longrightarrow> rings c' = rings c \<Longrightarrow> rings_inv (rings c) \<Longrightarrow> settled L i S F c c'"
  by (auto simp: settled_def)

lemma unmovedI: "on_chip L x (trans c') \<Longrightarrow> at_rest i S F x \<Longrightarrow> rings c' = rings c \<Longrightarrow> unmoved L i S F c c'"
  by (auto simp: unmoved_def)

lemma settled_moved:
  assumes "on_chip L x (trans c')" "at_rest i (S @ ys) F x" "ys @ contents (tx (rings c')) = contents (tx (rings c))"
    "rx (rings c') = rx (rings c)" "rings_inv (rings c')"
  shows "settled L i S F c c'"
  using assms unfolding settled_def by (metis append.assoc)

lemma wp_chip_start_read:
  assumes "on_chip L x t" "i < 8"
    and "\<And>t'. HEADER + n \<le> L \<Longrightarrow> flying L x (cb_peek p n (srx (csockets x ! i))) t' \<Longrightarrow> Q (Ok ()) t'"
    and "\<And>t'. on_chip L x t' \<Longrightarrow> Q (Err (Other ScratchBufferOverrun)) t'"
  shows "wp (start_read_rx_buffer chip (socket_block i) p n) Q t"
proof (cases "HEADER + n \<le> L")
  case True
  let ?a = "\<lparr>addr = p, block = rx_block (socket_block i)\<rparr>"
  have "readable ?a n" "chip_read ?a n x = cb_peek p n (srx (csockets x ! i))"
    using assms(2) by (simp_all add: readable_def socket_block_def chip_read.simps sock_index)
  with chip_start_read [OF assms(1) True, of ?a] assms(3) True show ?thesis
    by (auto simp: wp_def start_read_rx_buffer_def)
next
  case False
  with chip_start_read_overrun [OF assms(1), of n "\<lparr>addr = p, block = rx_block (socket_block i)\<rparr>"] assms(4)
  show ?thesis by (auto simp: wp_def start_read_rx_buffer_def)
qed

lemma take_fifo: "n \<le> length (fifo b) \<Longrightarrow> cb_peek (read_ptr b) n b = take n (fifo b)"
  by (simp add: fifo_def take_cb_peek)

lemma tcp_receive_stream:
  assumes "67 \<le> L" "i < 8" "rings_inv (rings c)" "on_chip L x (trans c)" "at_rest i S F x"
  shows "wp (tcp_receive chip (socket_block i))
    (\<lambda>r c'. stream_post L i S F c r c' \<and> (r = Ok ActNone \<longrightarrow> unmoved L i S F c c')) c"
proof -
  have F: "length F = unat (cb_used (srx (csockets x ! i)))" "fifo (srx (csockets x ! i)) = F"
    using assms(5) by (auto simp: at_rest_def)
  have tk: "n \<le> length F \<Longrightarrow> cb_peek (read_ptr (srx (csockets x ! i))) n (srx (csockets x ! i)) = take n F" for n
    using take_fifo [of n "srx (csockets x ! i)"] F(2) by simp
  have ri: "ring_inv (rx (rings c))" using assms(3) by (simp add: rings_inv_def)
  show ?thesis
    using assms F tk ri unfolding tcp_receive_def Let_def
    by (auto simp: wp_rules wp_tr_eq wp_ring_free settledI
        intro!: unmovedI [of L x] chip_rules(1,2) [of L x] wp_chip_start_read [of L x] stream_postI(1,2) stream_postI(3) [of L x])
qed

lemma wp_chip_start_tx:
  assumes "on_chip L x (trans c)" "i < 8" "rings_inv (rings c)" "at_rest i S F x" "n \<le> ring_len (tx (rings c))" "n \<le> 2048"
    "p = write_ptr (stx (csockets x ! i))"
    and ok: "\<And>g t q. flying L (upd_socket i (\<lambda>s. s\<lparr>stx := g (stx s)\<rparr>) x) [] t \<Longrightarrow>
       tx_staged i S F p (take n (contents (tx (rings c)))) (upd_socket i (\<lambda>s. s\<lparr>stx := g (stx s)\<rparr>) x) \<Longrightarrow>
       contents q = drop n (contents (tx (rings c))) \<Longrightarrow> ring_inv q \<Longrightarrow> cap q = cap (tx (rings c)) \<Longrightarrow>
       ring_frames q = ring_frames (tx (rings c)) \<Longrightarrow> Q (Ok ()) (c\<lparr>trans := t, rings := (rings c)\<lparr>tx := q\<rparr>\<rparr>)"
    and err: "\<And>t. L < HEADER + n \<Longrightarrow> on_chip L x t \<Longrightarrow> Q (Err (Other ScratchBufferOverrun)) (c\<lparr>trans := t\<rparr>)"
  shows "wp (start_tx_from_ring chip (socket_block i) p n) Q c"
proof -
  let ?q = "tx (rings c)" and ?a = "\<lparr>addr = p, block = tx_block (socket_block i)\<rparr>"
  let ?data = "take n (contents ?q)"
  have run: "start_tx_from_ring chip (socket_block i) p n c =
      (case start_write chip ?a n drain_tx (trans c, ?q) of (r, t, q) \<Rightarrow> (r, c\<lparr>trans := t, rings := (rings c)\<lparr>tx := q\<rparr>\<rparr>))"
    by (simp add: start_tx_from_ring_def zoom_def start_write_tx_buffer_def split: prod.splits)
  show ?thesis
  proof (cases "HEADER + n \<le> L")
    case True
    let ?R = "\<lambda>w q1. w = ?data \<and> contents q1 = drop n (contents ?q) \<and> ring_inv q1 \<and> cap q1 = cap ?q \<and> ring_frames q1 = ring_frames ?q"
    have "\<exists>w q1. drain_tx v ?q = (Ok w, q1) \<and> length w = n \<and> ?R w q1" if "length v = n" for v
      using chip.drain_tx_spec [OF _ that, of ?q] assms(3,5) by (auto simp: rings_inv_def ring_frames_def)
    then obtain q t where
      sw: "start_write chip ?a n drain_tx (trans c, ?q) = (Ok (), (t, q))" "?R ?data q"
      "flying L (chip_write ?a ?data x) [] t"
      using chip_start_write [OF assms(1) True, of drain_tx ?q ?R ?a] by auto
    have "tx_staged i S F p [] x" using assms(4,7) by (simp add: tx_staged_def cb_peek_def)
    from stage_more [OF this assms(2), of ?data] assms(2,6)
    have "tx_staged i S F p ?data (upd_socket i (\<lambda>s. s\<lparr>stx := cb_poke p ?data (stx s)\<rparr>) x)" by simp
    moreover have "chip_write ?a ?data x = upd_socket i (\<lambda>s. s\<lparr>stx := cb_poke p ?data (stx s)\<rparr>) x"
      using assms(2) by (simp add: chip_write.simps socket_block_def sock_index)
    ultimately show ?thesis using ok [of "cb_poke p ?data" t q] sw run by (simp add: wp_def)
  next
    case False
    then have "start_write chip ?a n drain_tx (trans c, ?q) = (Err (Other ScratchBufferOverrun), (trans c, ?q))"
      by (intro chip_start_write_overrun [OF assms(1)]) simp
    with run err [of "trans c"] assms(1) False show ?thesis by (simp add: wp_def)
  qed
qed

lemma tcp_transmit_stream:
  assumes "67 \<le> L" "i < 8" "rings_inv (rings c)" "on_chip L x (trans c)" "at_rest i S F x"
  shows "wp (tcp_transmit chip (socket_block i))
    (\<lambda>r c'. stream_post L i S F c r c' \<and> (r = Ok ActNone \<longrightarrow> unmoved L i S F c c')) c"
proof -
  have r: "unat (cb_free (stx (csockets x ! i))) = 2048"
    using assms(5) by (simp add: at_rest_def cb_free_def cb_used_def BUF_SIZE_def)
  show ?thesis
    using assms r unfolding tcp_transmit_def Let_def
    by (auto simp: wp_rules wp_tr_eq settledI rings_inv_def
        intro!: unmovedI [of L x] chip_rules(3,4) [of L x] wp_chip_start_tx [of L x] stream_postI(1,2) stream_postI(4))
qed


lemma flush_loop_stream:
  assumes "67 \<le> L" "i < 8" "to_send \<le> 2048" "rings_inv (rings c)" "on_chip L x (trans c)" "tx_staged i S F p data x"
  shows "wp (tcp_flush_loop chip (socket_block i) to_send (length data) (p + of_nat (length data)))
    (\<lambda>r c'. \<exists>ys x'. r = Ok (p + of_nat (length (data @ ys))) \<and> on_chip L x' (trans c') \<and> tx_staged i S F p (data @ ys) x' \<and>
       ys @ contents (tx (rings c')) = contents (tx (rings c)) \<and> rx (rings c') = rx (rings c) \<and> rings_inv (rings c')) c"
  using assms(4-6)
proof (induction "to_send - length data" arbitrary: data c x rule: less_induct)
  case less
  let ?q = "tx (rings c)" and ?p = "p + of_nat (length data)"
  let ?post = "\<lambda>data c r c'. \<exists>ys x'. r = Ok (p + of_nat (length (data @ ys))) \<and> on_chip L x' (trans c') \<and>
       tx_staged i S F p (data @ ys) x' \<and> ys @ contents (tx (rings c')) = contents (tx (rings c)) \<and>
       rx (rings c') = rx (rings c) \<and> rings_inv (rings c')"
  have stop: "?post data c (Ok ?p) c" if "c' = c" for c'
    using less.prems by (intro exI [of _ "[]"] exI [of _ x]) simp
  show ?case
  proof (cases "length data < to_send")
    case False
    then show ?thesis using stop by (simp add: wp_def tcp_flush_loop.simps [of chip _ to_send])
  next
    case True
    let ?n = "min 64 (to_send - length data)"
    define ys where "ys = take ?n (contents ?q)"
    obtain q where q: "ring_read ?n ?q = (Ok ys, q)" "contents q = drop ?n (contents ?q)" "ring_inv q"
      using ring.fifo_read [of ?q ?n] less.prems(1) by (auto simp: ys_def rings_inv_def)
    let ?c1 = "c\<lparr>rings := (rings c)\<lparr>tx := q\<rparr>\<rparr>"
    have rd: "on_tx (ring_read ?n) c = (Ok ys, ?c1)" using q by (simp add: on_tx_def zoom_def)
    have cont: "ys @ contents q = contents ?q" using q(2) by (simp add: ys_def)
    show ?thesis
    proof (cases "ys = []")
      case True
      have "wp (tcp_flush_loop chip (socket_block i) to_send (length data) ?p) (?post data c) c =
          ?post data c (Ok ?p) ?c1"
        using \<open>length data < to_send\<close> rd True by (simp add: wp_def tcp_flush_loop.simps [of chip _ to_send])
      also have "\<dots>" using less.prems q(3) cont True
        by (intro exI [of _ "[]"] exI [of _ x]) (simp add: rings_inv_def)
      finally show ?thesis .
    next
      case False
      let ?a = "\<lparr>addr = ?p, block = tx_block (socket_block i)\<rparr>"
      let ?x2 = "upd_socket i (\<lambda>s. s\<lparr>stx := cb_poke ?p ys (stx s)\<rparr>) x"
      have len: "length ys \<le> 64" "length data + length ys \<le> to_send" using \<open>length data < to_send\<close> by (auto simp: ys_def)
      obtain t where t: "write_tx_buffer chip (socket_block i) ?p ys (trans c) = (Ok (), t)" "on_chip L ?x2 t"
        using chip_spi_write [OF less.prems(2), of ys ?a] len assms(1,2)
        by (auto simp: write_tx_buffer_def HEADER_def chip_write.simps socket_block_def sock_index)
      let ?c2 = "?c1\<lparr>trans := t\<rparr>"
      have st: "tx_staged i S F p (data @ ys) ?x2"
        using stage_more [OF less.prems(3) assms(2), of ys] len assms(3) by simp
      have "0 < length ys" using False by simp
      then have "to_send - length (data @ ys) < to_send - length data" using \<open>length data < to_send\<close>
        unfolding length_append by linarith
      from less.hyps [OF this, of ?c2 ?x2] st t(2) less.prems(1) q(3)
      have IH: "wp (tcp_flush_loop chip (socket_block i) to_send (length (data @ ys)) (p + of_nat (length (data @ ys))))
          (?post (data @ ys) ?c2) ?c2" by (simp add: rings_inv_def)
      have "wp (tcp_flush_loop chip (socket_block i) to_send (length data) ?p) Q c =
          wp (tcp_flush_loop chip (socket_block i) to_send (length (data @ ys)) (p + of_nat (length (data @ ys)))) Q ?c2" for Q
        using \<open>length data < to_send\<close> rd False t(1)
        by (subst wp_def, subst tcp_flush_loop.simps) (simp add: wp_def tr_def zoom_def add.assoc)
      moreover have "wp (tcp_flush_loop chip (socket_block i) to_send (length (data @ ys)) (p + of_nat (length (data @ ys))))
          (?post data c) ?c2"
      proof (rule wp_mono [OF IH], elim exE conjE)
        fix r c' zs x'
        assume "r = Ok (p + of_nat (length ((data @ ys) @ zs)))" "on_chip L x' (trans c')"
          "tx_staged i S F p ((data @ ys) @ zs) x'" "zs @ contents (tx (rings c')) = contents (tx (rings ?c2))"
          "rx (rings c') = rx (rings ?c2)" "rings_inv (rings c')"
        with cont show "?post data c r c'" by (intro exI [of _ "ys @ zs"] exI [of _ x']) simp
      qed
      ultimately show ?thesis by simp
    qed
  qed
qed


lemma flush_sync_stream:
  assumes "67 \<le> L" "i < 8" "rings_inv (rings c)" "on_chip L x (trans c)" "at_rest i S F x"
  shows "wp (tcp_flush_sync chip (socket_block i)) (\<lambda>r c'. r = Ok () \<and> settled L i S F c c') c"
proof -
  have r: "unat (cb_free (stx (csockets x ! i))) = 2048"
    using assms(5) by (simp add: at_rest_def cb_free_def cb_used_def BUF_SIZE_def)
  let ?w = "write_ptr (stx (csockets x ! i))"
  have st: "tx_staged i S F ?w [] x" using assms(5) by (simp add: tx_staged_def cb_peek_def)
  have loop: "wp (tcp_flush_loop chip (socket_block i) n 0 ?w)
    (\<lambda>r c'. \<exists>e. r = Ok e \<and> wp (bnd (tr (set_tx_write_pointer chip (socket_block i) e)) (\<lambda>_.
        tr (send_sock_command chip (socket_block i) Send))) (\<lambda>r c'. r = Ok () \<and> settled L i S F c c') c') (c\<lparr>trans := t\<rparr>)"
    if "n \<le> 2048" "on_chip L x t" for n t
  proof -
    from flush_loop_stream [OF assms(1,2) that(1), of "c\<lparr>trans := t\<rparr>" x S F ?w "[]"] assms(3) that(2) st
    have *: "wp (tcp_flush_loop chip (socket_block i) n 0 ?w)
      (\<lambda>r c'. \<exists>ys x'. r = Ok (?w + of_nat (length ys)) \<and> on_chip L x' (trans c') \<and> tx_staged i S F ?w ys x' \<and>
       ys @ contents (tx (rings c')) = contents (tx (rings c)) \<and> rx (rings c') = rx (rings c) \<and> rings_inv (rings c'))
      (c\<lparr>trans := t\<rparr>)" by simp
    show ?thesis
    proof (rule wp_mono [OF *], elim exE conjE)
      fix r ys x' and c' :: chip_tcp
      assume a: "r = Ok (?w + of_nat (length ys))" "on_chip L x' (trans c')" "tx_staged i S F ?w ys x'"
        "ys @ contents (tx (rings c')) = contents (tx (rings c))" "rx (rings c') = rx (rings c)" "rings_inv (rings c')"
      from commit_staged [OF a(3) assms(2)] a assms(1,2)
      show "\<exists>e. r = Ok e \<and> wp (bnd (tr (set_tx_write_pointer chip (socket_block i) e)) (\<lambda>_.
          tr (send_sock_command chip (socket_block i) Send))) (\<lambda>r c'. r = Ok () \<and> settled L i S F c c') c'"
        by (auto simp: wp_rules wp_tr_eq simp del: command_code.simps
            intro!: wp_chip_updates(2,3) [of L] settled_moved [where ys = ys])
    qed
  qed
  show ?thesis
    using assms r unfolding tcp_flush_sync_def Let_def
    by (auto simp: wp_rules wp_tr_eq settledI simp del: command_code.simps
        intro!: chip_rules(3,4) [of L x] wp_mono [OF loop])
qed


text \<open>The handlers that move no payload leave the streams where they are.\<close>

lemma quiet_stream:
  fixes c c' :: chip_tcp
  assumes "pres (at_bus L (at_rest i S F) (\<lambda>q. q = rings c)) m" "rings_inv (rings c)" "on_chip L x (trans c)"
    "at_rest i S F x" "m c = (r, c')" "idle L (trans c')"
  shows "settled L i S F c c'"
proof -
  have "at_bus L (at_rest i S F) (\<lambda>q. q = rings c) c" using assms(3,4) by (auto simp: at_bus_def intro: bus_anyI)
  from presD [OF assms(1) this assms(5)] obtain y where "on_chip L y (trans c') \<or> flying L y [] (trans c')"
    "at_rest i S F y" "rings c' = rings c" by (auto simp: at_bus_def bus_any_def)
  moreover from this(1) have "on_chip L y (trans c')"
    using assms(6) flying_in_flight idle_not_in_flight by blast
  ultimately show ?thesis using assms(2) by (auto intro!: settledI)
qed

lemma at_rest_command:
  "cmd \<noteq> Send \<Longrightarrow> i < 8 \<Longrightarrow> at_rest i S F x \<Longrightarrow> at_rest i S F (run_command i (command_code cmd) x)"
  by (cases cmd) (auto simp: run_command_def at_rest_def)

lemma settled_command:
  assumes "67 \<le> L" "i < 8" "cmd \<noteq> Send" "settled L i S F c c1"
    "\<And>t. settled L i S F c (c1\<lparr>trans := t\<rparr>) \<Longrightarrow> Q (Ok ()) (c1\<lparr>trans := t\<rparr>)"
  shows "wp (tr (send_sock_command chip (socket_block i) cmd)) Q c1"
proof -
  obtain x S' where x: "on_chip L x (trans c1)" "at_rest i S' F x" "rings_inv (rings c1)" "rx (rings c1) = rx (rings c)"
    "S' @ contents (tx (rings c1)) = S @ contents (tx (rings c))"
    using assms(4) by (auto simp: settled_def)
  show ?thesis unfolding wp_tr_eq
  proof (rule wp_chip_updates(3) [OF x(1) _ assms(2)])
    fix t assume "on_chip L (run_command i (command_code cmd) x) t"
    with at_rest_command [OF assms(3,2) x(2)] x have "settled L i S F c (c1\<lparr>trans := t\<rparr>)"
      by (auto simp: settled_def simp del: command_code.simps)
    then show "Q (Ok ()) (c1\<lparr>trans := t\<rparr>)" by (rule assms(5))
  qed (use assms(1) in simp)
qed

lemma settled_proto [simp]: "settled L i S F c (c'\<lparr>proto := p\<rparr>) = settled L i S F c c'"
  "settled L i S F c (c'\<lparr>proto := p, trans := t\<rparr>) = settled L i S F c (c'\<lparr>trans := t\<rparr>)"
  "settled L i S F (c\<lparr>proto := p\<rparr>) c' = settled L i S F c c'"
  by (simp_all add: settled_def)

lemma handle_close_stream:
  assumes "67 \<le> L" "i < 8" "rings_inv (rings c)" "on_chip L x (trans c)" "at_rest i S F x"
  shows "wp (tcp_handle_close chip (socket_block i)) (\<lambda>r c'. settled L i S F c c' \<and> r \<noteq> Panic) c"
proof -
  let ?c = "c\<lparr>proto := (proto c)\<lparr>tcp_close_requested := False\<rparr>\<rparr>"
  have fl: "wp (tcp_flush_sync chip (socket_block i)) (\<lambda>r c'. r = Ok () \<and> settled L i S F c c') ?c"
    using flush_sync_stream [OF assms(1,2), of ?c x S F] assms by simp
  have st: "settled L i S F c ?c" using assms by (auto intro: settledI)
  show ?thesis
    unfolding tcp_handle_close_def
    using assms(1,2) st
    by (auto simp: wp_rules set_tcp_status_def upd_proto_def intro!: wp_mono [OF fl] settled_command [OF assms(1,2)])
qed


lemma stream_post_cong: "rings c1 = rings c \<Longrightarrow> stream_post L i S F c1 = stream_post L i S F c"
proof -
  assume r: "rings c1 = rings c"
  then have "settled L i S F c1 = settled L i S F c" by (intro ext) (simp add: settled_def)
  with r show ?thesis by (intro ext) (simp only: stream_post_def)
qed

lemma unmoved_settled: "unmoved L i S F c c' \<Longrightarrow> rings_inv (rings c) \<Longrightarrow> settled L i S F c c'"
  by (auto simp: unmoved_def intro!: settledI)

lemma unmoved_trans: "unmoved L i S F c c1 \<Longrightarrow> unmoved L i S F c1 c2 \<Longrightarrow> unmoved L i S F c c2"
  by (auto simp: unmoved_def)

text \<open>Steps of a handler that keep everything unmoved.\<close>

lemma wp_unmoved:
  assumes "67 \<le> L" "i < 8" "unmoved L i S F c c1"
  shows "(\<And>t v. unmoved L i S F c (c1\<lparr>trans := t\<rparr>) \<Longrightarrow> Q (Ok v) (c1\<lparr>trans := t\<rparr>)) \<Longrightarrow>
      wp (tr (get_interrupts chip (socket_block i))) Q c1"
    "(\<And>t v. unmoved L i S F c (c1\<lparr>trans := t\<rparr>) \<Longrightarrow> R (Ok v) (c1\<lparr>trans := t\<rparr>)) \<Longrightarrow>
      wp (tr (read_status chip (socket_block i))) R c1"
    "(\<And>t v. unmoved L i S F c (c1\<lparr>trans := t\<rparr>) \<Longrightarrow> N (Ok v) (c1\<lparr>trans := t\<rparr>)) \<Longrightarrow>
      wp (tr (get_rx_received_size chip (socket_block i))) N c1"
    "(\<And>t. unmoved L i S F c (c1\<lparr>trans := t\<rparr>) \<Longrightarrow> P (Ok ()) (c1\<lparr>trans := t\<rparr>)) \<Longrightarrow>
      wp (tr (clear_interrupts chip (socket_block i) f)) P c1"
    "cmd \<noteq> Send \<Longrightarrow> (\<And>t. unmoved L i S F c (c1\<lparr>trans := t\<rparr>) \<Longrightarrow> P (Ok ()) (c1\<lparr>trans := t\<rparr>)) \<Longrightarrow>
      wp (tr (send_sock_command chip (socket_block i) cmd)) P c1"
proof -
  obtain x where x: "on_chip L x (trans c1)" "at_rest i S F x" "rings c1 = rings c"
    using assms(3) by (auto simp: unmoved_def)
  have ir: "at_rest i S F (upd_socket i (\<lambda>s. s\<lparr>ir := g s\<rparr>) x)" for g
    using x(2) assms(2) by (simp add: at_rest_def)
  have L: "11 \<le> L" using assms(1) by simp
  note rules = wp_chip_accessors [OF x(1) L assms(2)] wp_chip_updates [OF x(1) L assms(2)]
  show "(\<And>t v. unmoved L i S F c (c1\<lparr>trans := t\<rparr>) \<Longrightarrow> Q (Ok v) (c1\<lparr>trans := t\<rparr>)) \<Longrightarrow>
      wp (tr (get_interrupts chip (socket_block i))) Q c1"
    "(\<And>t v. unmoved L i S F c (c1\<lparr>trans := t\<rparr>) \<Longrightarrow> R (Ok v) (c1\<lparr>trans := t\<rparr>)) \<Longrightarrow>
      wp (tr (read_status chip (socket_block i))) R c1"
    "(\<And>t v. unmoved L i S F c (c1\<lparr>trans := t\<rparr>) \<Longrightarrow> N (Ok v) (c1\<lparr>trans := t\<rparr>)) \<Longrightarrow>
      wp (tr (get_rx_received_size chip (socket_block i))) N c1"
    unfolding wp_tr_eq using x by (auto simp: unmoved_def intro!: rules)
  show "wp (tr (clear_interrupts chip (socket_block i) f)) P c1"
    if P: "\<And>t. unmoved L i S F c (c1\<lparr>trans := t\<rparr>) \<Longrightarrow> P (Ok ()) (c1\<lparr>trans := t\<rparr>)"
    unfolding wp_tr_eq by (rule rules(11), rule P, rule unmovedI [OF _ ir]) (simp_all add: x(3))
  show "wp (tr (send_sock_command chip (socket_block i) cmd)) P c1"
    if "cmd \<noteq> Send" and P: "\<And>t. unmoved L i S F c (c1\<lparr>trans := t\<rparr>) \<Longrightarrow> P (Ok ()) (c1\<lparr>trans := t\<rparr>)"
    unfolding wp_tr_eq
    by (rule rules(10), rule P, rule unmovedI [OF _ at_rest_command [OF that(1) assms(2) x(2)]]) (simp_all add: x(3))
qed

lemma wp_streams:
  assumes "67 \<le> L" "i < 8" "rings_inv (rings c)" "unmoved L i S F c c1"
    and Q: "\<And>r c'. stream_post L i S F c r c' \<Longrightarrow> (r = Ok ActNone \<Longrightarrow> unmoved L i S F c c') \<Longrightarrow> Q r c'"
  shows "wp (tcp_receive chip (socket_block i)) Q c1" "wp (tcp_transmit chip (socket_block i)) Q c1"
proof -
  obtain x where x: "on_chip L x (trans c1)" "at_rest i S F x" and r: "rings c1 = rings c"
    using assms(4) by (auto simp: unmoved_def)
  have inv: "rings_inv (rings c1)" using assms(3) r by simp
  note cong = stream_post_cong [OF r] and un = unmoved_trans [OF assms(4)]
  show "wp (tcp_receive chip (socket_block i)) Q c1" "wp (tcp_transmit chip (socket_block i)) Q c1"
    by (rule wp_mono [OF tcp_receive_stream [OF assms(1,2) inv x]], use Q un in \<open>auto simp: cong\<close>)
      (rule wp_mono [OF tcp_transmit_stream [OF assms(1,2) inv x]], use Q un in \<open>auto simp: cong\<close>)
qed

lemma unmoved_proto [simp]: "unmoved L i S F c (c'\<lparr>proto := p\<rparr>) = unmoved L i S F c c'"
  "unmoved L i S F c (c'\<lparr>proto := p, trans := t\<rparr>) = unmoved L i S F c (c'\<lparr>trans := t\<rparr>)"
  by (simp_all add: unmoved_def)

lemma stream_post_unmoved:
  "unmoved L i S F c c' \<Longrightarrow> rings_inv (rings c) \<Longrightarrow> stream_post L i S F c (Ok ActNone) c'"
  "unmoved L i S F c c' \<Longrightarrow> rings_inv (rings c) \<Longrightarrow> stream_post L i S F c (Err e) c'"
  by (auto intro!: stream_postI unmoved_settled)

lemma established_stream:
  assumes "67 \<le> L" "i < 8" "rings_inv (rings c)" "on_chip L x (trans c)" "at_rest i S F x"
  shows "wp (tcp_handle_established chip (socket_block i)) (stream_post L i S F c) c"
proof -
  have 0: "unmoved L i S F c c" using assms(4,5) by (auto simp: unmoved_def)
  note rules = wp_unmoved [OF assms(1,2)] wp_streams [OF assms(1-3)] stream_post_unmoved
  have close: "wp (bnd (tr (clear_interrupts chip (socket_block i) TIMEOUT)) (\<lambda>_.
       bnd (tr (send_sock_command chip (socket_block i) Close)) (\<lambda>_.
       mapr ActNone (set_tcp_status ClosingDueToTimeout)))) (stream_post L i S F c) c1"
    if "unmoved L i S F c c1" for c1
    using that assms(3) by (auto simp: wp_rules set_tcp_status_def upd_proto_def intro!: rules)
  have unexp: "wp (tcp_unexpected chip (socket_block i)) (stream_post L i S F c) c1" if "unmoved L i S F c c1" for c1
    using that assms(3) by (auto simp: wp_rules tcp_unexpected_def set_tcp_status_def upd_proto_def intro!: rules)
  have wait: "wp (bnd (gets (\<lambda>c. (ring_len (tx (rings c)), ring_len (rx (rings c))))) (\<lambda>(ntx, nrx).
       if ntx = 0 \<and> nrx = 0 then
         bnd (tr (get_rx_received_size chip (socket_block i))) (\<lambda>received.
         if received = 0 then bnd (tr (send_sock_command chip (socket_block i) Disconnect)) (\<lambda>_.
             mapr ActNone (set_tcp_status Closing))
         else ret ActNone)
       else ret ActNone)) (stream_post L i S F c) c1" if "unmoved L i S F c c1" for c1
    using that assms(3) by (auto simp: wp_rules set_tcp_status_def upd_proto_def intro!: rules)
  have data: "wp (bnd (tcp_receive chip (socket_block i)) (\<lambda>action.
       case action of Started k p n \<Rightarrow> ret action | ActNone \<Rightarrow> m)) (stream_post L i S F c) c1"
    if "unmoved L i S F c c1" "\<And>c2. unmoved L i S F c c2 \<Longrightarrow> wp m (stream_post L i S F c) c2" for c1 m
    unfolding wp_bnd using that assms(3)
    by (intro wp_streams [OF assms(1-3) that(1)]) (auto simp: wp_ret stream_post_def split: res.splits bulk_action.splits)
  have data2: "wp (bnd (tcp_transmit chip (socket_block i)) (\<lambda>action.
       case action of Started k p n \<Rightarrow> ret action | ActNone \<Rightarrow> m)) (stream_post L i S F c) c1"
    if "unmoved L i S F c c1" "\<And>c2. unmoved L i S F c c2 \<Longrightarrow> wp m (stream_post L i S F c) c2" for c1 m
    unfolding wp_bnd using that assms(3)
    by (intro wp_streams [OF assms(1-3) that(1)]) (auto simp: wp_ret stream_post_def split: res.splits bulk_action.splits)
  have tx: "wp (tcp_transmit chip (socket_block i)) (stream_post L i S F c) c1" if "unmoved L i S F c c1" for c1
    by (rule wp_streams(2) [OF assms(1-3) that])
  have closed: "wp (mapr ActNone (set_tcp_status Closed)) (stream_post L i S F c) c1" if "unmoved L i S F c c1" for c1
    using that assms(3) by (auto simp: wp_rules set_tcp_status_def upd_proto_def intro!: rules)
  have status: "wp (bnd (tr (read_status chip (socket_block i))) k) (stream_post L i S F c) c1"
    if "unmoved L i S F c c1" "\<And>sr c2. unmoved L i S F c c2 \<Longrightarrow> wp (k sr) (stream_post L i S F c) c2" for c1 k
    unfolding wp_bnd by (rule wp_unmoved(2) [OF assms(1,2) that(1)]) (simp add: that(2))
  have clr: "wp (bnd (tr (clear_interrupts chip (socket_block i) DISCON)) k) (stream_post L i S F c) c1"
    if "unmoved L i S F c c1" "\<And>c2. unmoved L i S F c c2 \<Longrightarrow> wp (k ()) (stream_post L i S F c) c2" for c1 k
    unfolding wp_bnd by (rule wp_unmoved(4) [OF assms(1,2) that(1)]) (simp add: that(2))
  show ?thesis
    unfolding tcp_handle_established_def wp_bnd [of "tr (get_interrupts chip (socket_block i))"]
    by (rule wp_unmoved(1) [OF assms(1,2) 0])
      (auto intro!: close clr status data data2 tx wait closed unexp split: socket_status_register.split)
qed


lemma tcp_run_stream:
  assumes "67 \<le> L" "i < 8" "rings_inv (rings c)" "on_chip L x (trans c)" "at_rest i S F x"
    "tcp_run chip (socket_block i) c = (r, c')"
  shows "stream_post L i S F c r c'"
proof -
  obtain r1 c1 where d: "tcp_dispatch chip (socket_block i) c = (r1, c1)" by (cases "tcp_dispatch chip (socket_block i) c")
  have ready: "tcp_ready L c" using assms(3,4) by (simp add: tcp_ready_def on_chip_idle)
  have q: "quiet_for i (at_rest i S F)" by (rule at_rest_quiet [OF assms(2)])
  have quiet: "stream_post L i S F c r1 c1"
    if w: "wp m (tcp_quiet L c) c" and p: "pres (at_bus L (at_rest i S F) (\<lambda>q. q = rings c)) m"
      and run: "mapr ActNone m c = (r1, c1)" for m
  proof -
    obtain r2 where m: "m c = (r2, c1)" "r1 = (case r2 of Ok _ \<Rightarrow> Ok ActNone | Err e \<Rightarrow> Err e | Panic \<Rightarrow> Panic)"
      using run by (cases "m c") (auto simp: mapr_def bnd_def ret_def split: res.splits)
    have "idle L (trans c1)" "r2 \<noteq> Panic" using wpD [OF w m(1)] by (auto simp: tcp_quiet_def)
    with quiet_stream [OF p assms(3-5) m(1)] m(2) show ?thesis
      by (cases r2) (auto intro: stream_postI)
  qed
  have "stream_post L i S F c r1 c1"
  proof (cases "tcp_close_requested (proto c)")
    case True
    then have "mapr ActNone (tcp_handle_close chip (socket_block i)) c = (r1, c1)" using d by (simp add: tcp_dispatch_def)
    with handle_close_stream [OF assms(1-5)] show ?thesis
      by (cases "tcp_handle_close chip (socket_block i) c")
        (auto simp: wp_def mapr_def bnd_def ret_def intro: stream_postI split: res.splits)
  next
    case False
    then show ?thesis
    proof (cases "tcp_status (proto c)")
      case Established
      then show ?thesis using established_stream [OF assms(1-5)] d False by (simp add: tcp_dispatch_def wp_def)
    qed (use d False
        quiet [OF chip.tcp_handle_init_quiet [OF ready] pres_tcp_quiet(1) [OF assms(1) q]]
        quiet [OF chip.tcp_handle_opening_quiet [OF ready] pres_tcp_quiet(2) [OF assms(1) q]]
        quiet [OF chip.tcp_handle_connecting_quiet [OF ready] pres_tcp_quiet(3) [OF assms(1) q]]
        quiet [OF chip.tcp_handle_listening_quiet [OF ready] pres_tcp_quiet(4) [OF assms(1) q]]
        quiet [OF chip.tcp_handle_closing_quiet [OF ready] pres_tcp_quiet(5) [OF assms(1) q]]
        settledI [OF assms(4,5) refl assms(3)] in \<open>auto simp: tcp_dispatch_def ret_def intro: stream_postI\<close>)
  qed
  moreover have "settled L i S F c (c1\<lparr>proto := p\<rparr>) = settled L i S F c c1" for p by simp
  ultimately show ?thesis using assms(6) d
    by (auto simp: tcp_run_def stream_post_def split: res.splits error.splits bulk_action.splits)
qed


subsection \<open>Completion\<close>

lemma wp_bus_eq: "wp (bus m) Q (t, q) = wp m (\<lambda>r t'. Q r (t', q)) t"
  by (simp add: bus_def wp_zoom)

lemma at_rest_ir: "i < 8 \<Longrightarrow> at_rest i S F x \<Longrightarrow> at_rest i S F (upd_socket i (\<lambda>s. s\<lparr>ir := g s\<rparr>) x)"
  by (simp add: at_rest_def)

lemma at_rest_consume:
  assumes "at_rest i S F x" "i < 8" "n \<le> length F" "p = read_ptr (srx (csockets x ! i))"
  shows "at_rest i S (drop n F) (upd_socket i (\<lambda>s. s\<lparr>srx := (srx s)\<lparr>read_ptr := p + of_nat n\<rparr>\<rparr>) x)"
  using assms fifo_consume [of "srx (csockets x ! i)" n] by (auto simp: at_rest_def)

lemma finish_receive_stream:
  assumes "67 \<le> L" "i < 8" "op_kind op = BulkReceive" "op_block op = socket_block i" "op_bytes op = n"
    "flying L x (take n F) t" "at_rest i S F x" "op_pointer op = read_ptr (srx (csockets x ! i))"
    "n \<le> length F" "n \<le> free_space (rx q)" "rings_inv q" "HEADER + n \<le> L"
  shows "wp (finish_bulk chip op) (\<lambda>r (t', q'). r = Ok () \<and> rings_inv q' \<and> tx q' = tx q \<and>
     contents (rx q') = contents (rx q) @ take n F \<and>
     (\<exists>x'. on_chip L x' t' \<and> at_rest i S (drop n F) x')) (t, q)"
proof -
  let ?p = "take n F"
  have len: "length ?p = n" using assms(9) by simp
  obtain t1 where f: "finish_read chip n t = (Ok ?p, t1)" "on_chip L x t1"
    using chip_finish_read [OF assms(6)] len assms(12) by auto
  have rx: "ring_inv (rx q)" "length ?p \<le> free_space (rx q)" using assms(10,11) len by (simp_all add: rings_inv_def)
  let ?x1 = "upd_socket i (\<lambda>s. s\<lparr>srx := (srx s)\<lparr>read_ptr := op_pointer op + of_nat n\<rparr>\<rparr>) x"
  have 1: "at_rest i S (drop n F) ?x1" by (rule at_rest_consume [OF assms(7,2,9,8)])
  have 2: "at_rest i S (drop n F) (upd_socket i (\<lambda>s. s\<lparr>ir := ir s AND NOT RECV\<rparr>)
      (run_command i (command_code Receive) ?x1))"
    by (intro at_rest_ir at_rest_command 1) (use assms(2) in simp_all)
  have L: "11 \<le> L" using assms(1) by simp
  have e1: "wp (set_rx_read_pointer chip (socket_block i) (op_pointer op + of_nat n))
      (\<lambda>r t2. r = Ok () \<and> on_chip L ?x1 t2) t1"
    by (rule wp_chip_updates(1) [OF f(2) L assms(2)]) simp
  have e2: "wp (send_sock_command chip (socket_block i) Receive)
      (\<lambda>r t3. r = Ok () \<and> on_chip L (run_command i (command_code Receive) ?x1) t3) t2" if "on_chip L ?x1 t2" for t2
    by (rule wp_chip_updates(3) [OF that L assms(2)]) simp
  have e3: "wp (clear_interrupts chip (socket_block i) RECV)
      (\<lambda>r t4. r = Ok () \<and> (\<exists>x'. on_chip L x' t4 \<and> at_rest i S (drop n F) x')) t3"
    if "on_chip L (run_command i (command_code Receive) ?x1) t3" for t3
    by (rule wp_chip_updates(4) [OF that L assms(2)]) (use 2 in blast)
  have fin: "wp (finish_read chip n) Q t = Q (Ok ?p) t1" for Q using f(1) by (simp add: wp_def)
  let ?post = "\<lambda>r (t', q'). r = Ok () \<and> rings_inv q' \<and> tx q' = tx q \<and> contents (rx q') = contents (rx q) @ take n F \<and>
     (\<exists>x'. on_chip L x' t' \<and> at_rest i S (drop n F) x')"
  have epi: "wp (bnd (bus (set_rx_read_pointer chip (socket_block i) (op_pointer op + of_nat n))) (\<lambda>_.
      bnd (bus (send_sock_command chip (socket_block i) Receive)) (\<lambda>_.
      bus (clear_interrupts chip (socket_block i) RECV)))) ?post (t1, q1)"
    if "rings_inv q1" "tx q1 = tx q" "contents (rx q1) = contents (rx q) @ ?p" for q1
    unfolding wp_bnd wp_bus_eq
    using that by (auto simp del: command_code.simps intro!: wp_mono [OF e1] wp_mono [OF e2] wp_mono [OF e3])
  show ?thesis
    unfolding finish_bulk_def assms(3-5) bulk_kind.case Let_def wp_bnd [of "bus (finish_read D n)" for D] wp_bus_eq fin
      res.case wp_bnd [of "deliver xs" for xs]
    by (rule chip.wp_deliver [OF rx]) (simp only: res.case, rule epi, use assms(11) in \<open>simp_all add: rings_inv_def\<close>)
qed

lemma finish_transmit_stream:
  assumes "67 \<le> L" "i < 8" "op_kind op = BulkTransmit" "op_block op = socket_block i"
    "flying L x [] t" "tx_staged i S F (op_pointer op) data x" "op_bytes op = length data"
  shows "wp (finish_bulk chip op) (\<lambda>r (t', q'). r = Ok () \<and> q' = q \<and>
     (\<exists>x'. on_chip L x' t' \<and> at_rest i (S @ data) F x')) (t, q)"
proof -
  obtain t1 where f: "finish_write chip t = (Ok (), t1)" "on_chip L x t1" using chip_finish_write [OF assms(5)] by auto
  let ?x1 = "upd_socket i (\<lambda>s. s\<lparr>stx := (stx s)\<lparr>write_ptr := op_pointer op + of_nat (length data)\<rparr>\<rparr>) x"
  have post: "at_rest i (S @ data) F (run_command i (command_code Send) ?x1)" by (rule commit_staged [OF assms(6,2)])
  have epi: "wp (set_tx_write_pointer chip (socket_block i) (op_pointer op + of_nat (length data)))
      (\<lambda>r t2. r = Ok () \<and> on_chip L ?x1 t2) t1"
    by (rule wp_chip_updates(2) [OF f(2) _ assms(2)]) (use assms(1) in simp_all)
  have snd: "wp (send_sock_command chip (socket_block i) Send)
      (\<lambda>r t3. r = Ok () \<and> (\<exists>x'. on_chip L x' t3 \<and> at_rest i (S @ data) F x')) t2" if "on_chip L ?x1 t2" for t2
    by (rule wp_chip_updates(3) [OF that _ assms(2)]) (use assms(1) post in auto)
  have fin: "wp (finish_write chip) Q t = Q (Ok ()) t1" for Q using f(1) by (simp add: wp_def)
  show ?thesis
    unfolding finish_bulk_def assms(3,4,7) bulk_kind.case Let_def wp_bnd wp_bus_eq fin res.case
    by (rule wp_mono [OF epi]) (auto intro: wp_mono [OF snd])
qed

end
