(* ===== verification/Driver_Streams.thy ===== *)
theory Driver_Streams
  imports Slot_Flow Tcp_Stream
begin

text \<open>
  The two byte streams of a TCP slot through every pass of \<^verbatim>\<open>service\<close> and every \<^verbatim>\<open>dma_complete\<close>
  (\<^verbatim>\<open>wiznet-rs/src/lib.rs\<close>): they are an instance of the contract \<open>owned_flow\<close>.
\<close>

subsection \<open>The streams of a slot, seen from the driver\<close>

text \<open>
  \<open>A\<close> is everything the application has written and \<open>R\<close> what it has not read yet: the contents
  of the receive ring and what waits in the chip's RX FIFO. At rest, what was written is what
  went out followed by what the ring holds; with a transmission of the slot in flight its bytes
  are in between, and a reception in flight has captured the oldest bytes of the FIFO.
\<close>

definition out_rest :: "nat \<Rightarrow> bytes \<Rightarrow> bytes \<Rightarrow> bytes \<Rightarrow> chip_state \<Rightarrow> bool" where
  "out_rest i A X F c \<longleftrightarrow> (\<exists>S. at_rest i S F c \<and> A = S @ X)"

text \<open>The slot belongs to a TCP machine and its handle is alive.\<close>

definition tcp_backend :: "socket_backend \<Rightarrow> bool" where
  "tcp_backend b \<longleftrightarrow> (\<exists>p. bk_state b = BTcp p) \<and> \<not> release_requested b"

fun tcp_rest :: "nat \<Rightarrow> (bytes \<times> bytes) at_rest_pred" where
  "tcp_rest i (A, R) b q c \<longleftrightarrow> tcp_backend b \<and> (\<exists>F. R = contents (rx q) @ F \<and> out_rest i A (contents (tx q)) F c)"

fun tcp_flight :: "nat \<Rightarrow> (bytes \<times> bytes) in_flight_pred" where
  "tcp_flight i (A, R) op b q p c \<longleftrightarrow> tcp_backend b \<and> (\<exists>F. R = contents (rx q) @ F \<and>
     (case op_kind op of
        BulkReceive \<Rightarrow> op_bytes op \<le> length F \<and> p = take (op_bytes op) F \<and>
          out_rest i A (contents (tx q)) F c \<and> op_pointer op = read_ptr (srx (csockets c ! i))
      | BulkTransmit \<Rightarrow> (\<exists>S data. tx_staged i S F (op_pointer op) data c \<and>
          length data = op_bytes op \<and> A = S @ data @ contents (tx q))
      | BulkReceiveDatagram _ _ \<Rightarrow> False))"

lemma out_rest_frame: "i < 8 \<Longrightarrow> j < 8 \<Longrightarrow> j \<noteq> i \<Longrightarrow> frame_for j (out_rest i A X F)"
  by (auto simp: frame_for_def out_rest_def at_rest_def write_reg_def Let_def run_command_def send_out_def)

lemma tcp_restI:
  "on_chip L x t \<Longrightarrow> at_rest i S F x \<Longrightarrow> A = S @ contents (tx q) \<Longrightarrow> R = contents (rx q) @ F \<Longrightarrow> tcp_backend b \<Longrightarrow>
     bus_any L (tcp_rest i (A, R) b q) t"
  by (rule bus_anyI(1)) (auto simp: out_rest_def)

lemma slot_tick_stream:
  assumes "67 \<le> L" "i < 8" "bk_block b = socket_block i" "rings_inv q" "on_chip L x t" "tcp_rest i (A, R) b q x"
    "backend_run chip \<lparr>trans = t, rings = q, proto = b\<rparr> = (r, c')"
  shows "case r of
      Ok (Started k ptr n) \<Rightarrow> \<exists>x p. flying L x p (trans c') \<and>
        tcp_flight i (A, R) \<lparr>op_idx = i, op_kind = k, op_block = bk_block (proto c'), op_pointer = ptr, op_bytes = n\<rparr> (proto c') (rings c') p x
    | _ \<Rightarrow> bus_any L (tcp_rest i (A, R) (proto c') (rings c')) (trans c')"
proof -
  obtain p F S where p: "bk_state b = BTcp p" "\<not> release_requested b"
    and F: "R = contents (rx q) @ F" "at_rest i S F x" "A = S @ contents (tx q)"
    using assms(6) by (auto simp: tcp_backend_def out_rest_def)
  let ?c = "\<lparr>trans = t, rings = q, proto = p\<rparr>"
  obtain r1 c1 where run: "tcp_run chip (socket_block i) ?c = (r1, c1)" by (cases "tcp_run chip (socket_block i) ?c")
  have post: "stream_post L i S F ?c r1 c1"
    by (rule tcp_run_stream [OF assms(1,2) _ _ F(2) run]) (use assms(4,5) in simp_all)
  have eq: "r = r1" "trans c' = trans c1" "rings c' = rings c1" "tcp_backend (proto c')"
    using assms(3,7) p run
    by (auto simp: backend_run_def drive_def on_machine_def free_if_released_def tcp_backend_def)
  have rest: "bus_any L (tcp_rest i (A, R) (proto c') (rings c')) (trans c')" if "settled L i S F ?c c1"
    using that eq F by (auto simp: settled_def intro: tcp_restI)
  show ?thesis
  proof (cases r1)
    case (Ok a)
    show ?thesis
    proof (cases a)
      case (Started k ptr n)
      show ?thesis
      proof (cases k)
        case BulkReceive
        then show ?thesis using post eq F Ok Started by (fastforce simp: stream_post_def out_rest_def)
      next
        case BulkTransmit
        then show ?thesis using post eq F Ok Started by (fastforce simp: stream_post_def)
      qed (use post Ok Started in \<open>simp add: stream_post_def\<close>)
    qed (use post eq Ok rest in \<open>simp add: stream_post_def\<close>)
  qed (use post eq rest in \<open>simp_all add: stream_post_def\<close>)
qed

lemma complete_stream:
  assumes "67 \<le> L" "i < 8" "op_idx op = i" "op_block op = socket_block i" "rings_inv q" "HEADER + op_bytes op \<le> L"
    "bulk_need (op_kind op) (op_bytes op) \<le> free_space (rx q)" "flying L c p t" "tcp_flight i (A, R) op b q p c"
    "finish_bulk chip op (t, q) = (r, (t', q'))"
  shows "bus_any L (tcp_rest i (A, R) b q') t'"
proof -
  obtain F where b: "tcp_backend b" and F: "R = contents (rx q) @ F" and
    op: "case op_kind op of
        BulkReceive \<Rightarrow> op_bytes op \<le> length F \<and> p = take (op_bytes op) F \<and>
          out_rest i A (contents (tx q)) F c \<and> op_pointer op = read_ptr (srx (csockets c ! i))
      | BulkTransmit \<Rightarrow> (\<exists>S data. tx_staged i S F (op_pointer op) data c \<and>
          length data = op_bytes op \<and> A = S @ data @ contents (tx q))
      | BulkReceiveDatagram _ _ \<Rightarrow> False"
    using assms(9) by auto
  show ?thesis
  proof (cases "op_kind op")
    case BulkReceive
    then obtain S where c: "op_bytes op \<le> length F" "flying L c (take (op_bytes op) F) t" "at_rest i S F c"
      "A = S @ contents (tx q)" "op_pointer op = read_ptr (srx (csockets c ! i))"
      using op assms(8) by (auto simp: out_rest_def)
    have "op_bytes op \<le> free_space (rx q)" using assms(7) BulkReceive by simp
    from wpD [OF finish_receive_stream [OF assms(1,2) BulkReceive assms(4) refl c(2,3,5,1) this assms(5,6)] assms(10)]
    show ?thesis using c(4) b F by (auto intro: tcp_restI)
  next
    case BulkTransmit
    then obtain S data where c: "tx_staged i S F (op_pointer op) data c" "op_bytes op = length data"
      "A = S @ data @ contents (tx q)" using op by auto
    have "flying L c [] t" using assms(8) by (auto simp: flying_def)
    from wpD [OF finish_transmit_stream [OF assms(1,2) BulkTransmit assms(4) this c(1,2)] assms(10)]
    show ?thesis using c(3) b F by (auto intro: tcp_restI)
  qed (use op in simp)
qed

interpretation tcp_flow: owned_flow "\<lambda>_. tcp_rest" "\<lambda>_. tcp_flight"
proof
  fix i j :: nat and g :: "bytes \<times> bytes" and b q
  assume ij: "i < 8" "j < 8" "j \<noteq> i"
  obtain A R where g: "g = (A, R)" by (cases g)
  show "frame_for j (tcp_rest i g b q)"
    using out_rest_frame [OF ij] unfolding g frame_for_def by auto
next
  fix L i b q c t g r and c' :: "(chip_state, chip_state \<times> dma_buffers, socket_backend) ctx"
  assume *: "67 \<le> L" "i < 8" "bk_block b = socket_block i" "rings_inv q" "on_chip L c t" "tcp_rest i g b q c"
    "backend_run chip \<lparr>trans = t, rings = q, proto = b\<rparr> = (r, c')"
  obtain A R where g: "g = (A, R)" by (cases g)
  show "case r of
      Ok (Started k ptr n) \<Rightarrow> \<exists>x p. flying L x p (trans c') \<and>
        tcp_flight i g \<lparr>op_idx = i, op_kind = k, op_block = bk_block (proto c'), op_pointer = ptr, op_bytes = n\<rparr> (proto c') (rings c') p x
    | _ \<Rightarrow> bus_any L (tcp_rest i g (proto c') (rings c')) (trans c')"
    using slot_tick_stream [OF *(1-5) _ *(7)] *(6) unfolding g by simp
next
  fix L i op q c p t g b r t' q'
  assume *: "67 \<le> L" "i < 8" "op_idx op = i" "op_block op = socket_block i" "rings_inv q" "HEADER + op_bytes op \<le> L"
    "bulk_need (op_kind op) (op_bytes op) \<le> free_space (rx q)" "flying L c p t" "tcp_flight i g op b q p c"
    "finish_bulk chip op (t, q) = (r, (t', q'))"
  obtain A R where g: "g = (A, R)" by (cases g)
  show "bus_any L (tcp_rest i g b q') t'"
    using complete_stream [OF *(1-8) _ *(10)] *(9) unfolding g by simp
qed (auto simp: tcp_backend_def)

definition carried :: "nat \<Rightarrow> nat \<Rightarrow> bytes \<Rightarrow> bytes \<Rightarrow> chip_driver \<Rightarrow> bool" where
  "carried L i A R = flow L i (tcp_rest i) (tcp_flight i) (A, R)"

end
