(* ===== verification/Bring_Up.thy ===== *)
theory Bring_Up
  imports Driver_Streams
begin

text \<open>
  Construction on the chip model: \<^verbatim>\<open>W6100::new\<close> resets the chip, finds its identity and its
  version, clears the sockets and succeeds.
\<close>

subsection \<open>The driver comes up on the chip\<close>

text \<open>A step that succeeds and keeps \<open>I\<close>.\<close>

definition succeeds :: "('s \<Rightarrow> bool) \<Rightarrow> ('s, 'a) sm \<Rightarrow> bool" where
  "succeeds I m \<longleftrightarrow> (\<forall>s. I s \<longrightarrow> wp m (\<lambda>r s'. (\<exists>x. r = Ok x) \<and> I s') s)"

lemma succeeds_bnd: "succeeds I m \<Longrightarrow> (\<And>x. succeeds I (f x)) \<Longrightarrow> succeeds I (bnd m f)"
  unfolding succeeds_def
proof (intro allI impI)
  fix s assume m: "\<forall>s. I s \<longrightarrow> wp m (\<lambda>r s'. (\<exists>x. r = Ok x) \<and> I s') s"
    and f: "\<And>x. \<forall>s. I s \<longrightarrow> wp (f x) (\<lambda>r s'. (\<exists>x. r = Ok x) \<and> I s') s" and s: "I s"
  show "wp (bnd m f) (\<lambda>r s'. (\<exists>x. r = Ok x) \<and> I s') s"
    unfolding wp_bnd by (rule wp_mono [OF m [rule_format, OF s]]) (use f in auto)
qed

lemma succeeds_modify: "(\<And>s. I s \<Longrightarrow> I (f s)) \<Longrightarrow> succeeds I (modify f)"
  by (simp add: succeeds_def wp_modify)

definition fresh :: "socket \<Rightarrow> bool" where
  "fresh s \<longleftrightarrow> \<not> busy (backend s) \<and> bk_state (cell (backend s)) = BFree"

definition on_body :: "nat \<Rightarrow> (chip_state \<Rightarrow> bool) \<Rightarrow> (chip_state, chip_state \<times> dma_buffers, unit) device \<times> chip_driver \<Rightarrow> bool" where
  "on_body L J = (\<lambda>(d, w). (\<exists>c. on_chip L c (transport d) \<and> J c) \<and> \<not> busy (bulk w) \<and> length (mac w) = 6 \<and>
     length (sockets w) = 8 \<and> socks_ok 0 (sockets w) \<and>
     (\<forall>s \<in> set (sockets w). fresh s))"

lemma succeeds_spi:
  assumes "\<And>c t. on_chip L c t \<Longrightarrow> J c \<Longrightarrow> wp m (\<lambda>r t'. (\<exists>x. r = Ok x) \<and> (\<exists>c'. on_chip L c' t' \<and> J c')) t"
  shows "succeeds (on_body L J) (spi m)"
  unfolding succeeds_def on_body_def
  by (auto simp: wp_spi_eq intro!: wp_mono [OF assms])

lemma wp_common_write:
  assumes "HEADER + length data \<le> L" "block a = CommonRegister" "on_chip L c t" "J c"
  shows "wp (spi_write chip a data) (\<lambda>r t'. (\<exists>x. r = Ok x) \<and> (\<exists>c'. on_chip L c' t' \<and> J c')) t"
  by (rule wp_chip_write [OF assms(3,1)]) (use assms(2,4) in \<open>auto simp: chip_write.simps\<close>)

lemma wp_common_u16:
  assumes "5 \<le> L" "on_chip L c t" "a = 0x0000 \<and> v = 0x6100 \<or> a = 0x0002 \<and> v = 0x4661"
  shows "wp (read_u16 chip (common a)) (\<lambda>r t'. r = Ok v \<and> on_chip L c t') t"
proof -
  have "HEADER + length [0 :: u8, 0] \<le> L" "readable (common a) (length [0 :: u8, 0])"
    using assms(1) by (simp_all add: HEADER_def readable_def common_def)
  from chip_spi_read [OF assms(2) this] obtain t' where
    "spi_read chip (common a) [0, 0] t = (Ok (read_common a 2), t')" "on_chip L c t'"
    by (auto simp: chip_read.simps common_def numeral_2_eq_2)
  moreover have "from_be (read_common a 2) = v" using assms(3) by (elim disjE conjE; hypsubst) code_simp+
  moreover have "replicate 2 (0 :: u8) = [0, 0]" by (simp add: numeral_2_eq_2)
  ultimately show ?thesis by (simp add: wp_def read_u16_def bnd_def ret_def)
qed

lemma succeeds_delay: "succeeds (on_body L J) (delay_1ms chip)"
proof -
  have "wp (transaction chip [OpDelayNs n]) (\<lambda>r t'. (\<exists>x. r = Ok x) \<and> on_chip L c t') t" if "on_chip L c t" for c t n
    using that by (auto simp: wp_def on_chip_def transaction_def on_cell_def zoom_def locked_free transaction_body_def)
  then have "succeeds (on_body L J) (spi (transaction chip [OpDelayNs n]))" for n
    by (intro succeeds_spi) (auto intro: wp_mono)
  then show ?thesis
    unfolding succeeds_def delay_1ms_def wp_as_spi_error by (fastforce intro: wp_mono)
qed

lemma succeeds_wait: "5 \<le> L \<Longrightarrow> succeeds (on_body L J) (wait_chip_id chip k)"
  unfolding succeeds_def
proof (intro allI impI)
  fix s assume L: "5 \<le> L" and s: "on_body L J s"
  obtain d w where dw: "s = (d, w)" by (cases s)
  obtain c where c: "on_chip L c (transport d)" "J c" using s dw by (auto simp: on_body_def)
  obtain t' where t: "read_u16 chip CIDR (transport d) = (Ok 0x6100, t')" "on_chip L c t'"
    using wp_common_u16 [OF L c(1), of 0 "0x6100"] by (auto simp: wp_def CIDR_def split: prod.splits)
  then have "wait_chip_id chip k s = (Ok (), (d\<lparr>transport := t'\<rparr>, w))"
    by (subst wait_chip_id.simps) (simp add: dw spi_def zoom_def)
  with s dw t(2) c(2) show "wp (wait_chip_id chip k) (\<lambda>r s'. (\<exists>x. r = Ok x) \<and> on_body L J s') s"
    by (auto simp: wp_def on_body_def)
qed

lemma wp_init_socket:
  assumes "11 \<le> L" "quiet_for j J" "on_chip L c t" "J c"
  shows "wp (init_socket chip (socket_block j) m) (\<lambda>r t'. r = Ok () \<and> (\<exists>c'. on_chip L c' t' \<and> J c')) t"
proof -
  have j: "j < 8" using assms(2) by (simp add: quiet_for_def)
  have w: "wp (write_u8 chip (sn_addr (socket_block j) a) v) (\<lambda>r t'. r = Ok () \<and> (\<exists>c'. on_chip L c' t' \<and> J c')) t"
    if "a \<in> {SN_MR, SN_IRCLR, SN_IMR}" "on_chip L c t" "J c" for a v c t
    unfolding write_u8_def
    by (rule wp_chip_write_reg [OF that(2) _ j])
      (use that assms(1,2) in \<open>auto simp: HEADER_def quiet_for_def harmless_def\<close>)
  show ?thesis unfolding init_socket_def wp_bnd
    by (rule wp_mono [OF w [OF _ assms(3,4)]]) (auto intro!: wp_mono [OF w])
qed

lemma reset_sockets_succeed:
  assumes "11 \<le> L" "\<forall>j < 8. quiet_for j J" "on_chip L c t" "J c" "socks_ok k ss" "k + length ss \<le> 8"
    "\<forall>s \<in> set ss. fresh s" "reset_sockets chip ss t = (r, ss', t')"
  shows "r = Ok () \<and> (\<exists>c'. on_chip L c' t' \<and> J c') \<and> (\<forall>s \<in> set ss'. fresh s)"
  using assms(3-)
proof (induction ss arbitrary: k c t r ss' t')
  case (Cons s ss)
  have k: "k < 8" "bk_block (cell (backend s)) = socket_block k" "fresh s"
    using Cons.prems by (auto simp: sock_ok_def)
  obtain t1 c1 where i: "init_socket chip (socket_block k) MODE_CLOSED t = (Ok (), t1)" "on_chip L c1 t1" "J c1"
    using wp_init_socket [OF assms(1) assms(2)[rule_format, OF k(1)] Cons.prems(1,2), of MODE_CLOSED]
    by (auto simp: wp_def split: prod.splits)
  obtain r2 ss2 t2 where rec: "reset_sockets chip ss t1 = (r2, ss2, t2)" by (metis prod_cases3)
  have "r2 = Ok () \<and> (\<exists>c'. on_chip L c' t2 \<and> J c') \<and> (\<forall>s \<in> set ss2. fresh s)"
    by (rule Cons.IH [OF i(2,3) _ _ _ rec]) (use Cons.prems in auto)
  with Cons.prems(6) k i rec show ?case
    by (auto simp: lock_mut_def try_lock_internal_def drop_guard_def backend_reset_def fresh_def reset_state_def)
qed auto

lemma succeeds_reset_sockets:
  assumes "11 \<le> L" "\<forall>j < 8. quiet_for j J"
  shows "succeeds (on_body L J) (\<lambda>(d, w). case reset_sockets chip (sockets w) (transport d) of
     (r, ss, t) \<Rightarrow> (r, (d\<lparr>transport := t\<rparr>, w\<lparr>sockets := ss\<rparr>)))"
  unfolding succeeds_def
proof (intro allI impI)
  fix s assume s: "on_body L J s"
  obtain d w where dw: "s = (d, w)" by (cases s)
  obtain r ss t where rs: "reset_sockets chip (sockets w) (transport d) = (r, ss, t)" by (metis prod_cases3)
  obtain c where c: "on_chip L c (transport d)" "J c" using s dw by (auto simp: on_body_def)
  have w: "socks_ok 0 (sockets w)" "length (sockets w) = 8" "\<forall>s \<in> set (sockets w). fresh s"
    using s dw by (auto simp: on_body_def)
  have "r = Ok () \<and> (\<exists>c'. on_chip L c' t \<and> J c') \<and> (\<forall>s \<in> set ss. fresh s)"
    by (rule reset_sockets_succeed [OF assms c w(1) _ w(3) rs]) (use w in simp)
  with chip.reset_sockets_spec [OF on_chip_idle [OF c(1)] w(1) rs] rs s dw
  show "wp (\<lambda>(d, w). case reset_sockets chip (sockets w) (transport d) of
     (r, ss, t) \<Rightarrow> (r, (d\<lparr>transport := t\<rparr>, w\<lparr>sockets := ss\<rparr>))) (\<lambda>r s'. (\<exists>x. r = Ok x) \<and> on_body L J s') s"
    by (auto simp: wp_def on_body_def)
qed

lemma succeeds_pin: "succeeds (on_body L J) (drive_pin (set_low mock_pin))" "succeeds (on_body L J) (drive_pin (set_high mock_pin))"
  by (auto simp: succeeds_def on_body_def wp_drive_pin mock_pin_def)

lemma succeeds_version:
  assumes "5 \<le> L" "succeeds (on_body L J) m"
  shows "succeeds (on_body L J) (bnd (spi (read_u16 chip VER)) (\<lambda>ver. if ver \<noteq> 0x4661 then raise (Other UnexpectedResponse) else m))"
  unfolding succeeds_def
proof (intro allI impI)
  fix s assume s: "on_body L J s"
  obtain d w where dw: "s = (d, w)" by (cases s)
  obtain c where c: "on_chip L c (transport d)" "J c" using s dw by (auto simp: on_body_def)
  obtain t' where t: "read_u16 chip VER (transport d) = (Ok 0x4661, t')" "on_chip L c t'"
    using wp_common_u16 [OF assms(1) c(1), of 2 "0x4661"] by (auto simp: wp_def VER_def split: prod.splits)
  have "on_body L J (d\<lparr>transport := t'\<rparr>, w)" using s dw t(2) c(2) by (auto simp: on_body_def)
  with assms(2) t dw show "wp (bnd (spi (read_u16 chip VER)) (\<lambda>ver. if ver \<noteq> 0x4661 then raise (Other UnexpectedResponse) else m))
      (\<lambda>r s'. (\<exists>x. r = Ok x) \<and> on_body L J s') s"
    by (simp add: succeeds_def wp_bnd wp_spi_eq) (simp add: wp_def)
qed

lemma reset_body_succeeds:
  assumes "67 \<le> L" "\<forall>j < 8. quiet_for j J"
  shows "succeeds (on_body L J) (reset_body chip mock_pin)"
proof -
  have abort: "succeeds (on_body L J) (spi (abort chip))"
    by (rule succeeds_spi) (auto simp: wp_def abort_def on_chip_def)
  have put: "succeeds (on_body L J) (modify (\<lambda>(d, w). (d, put_bulk None w)))"
    by (rule succeeds_modify) (auto simp: on_body_def put_bulk_free)
  have wr: "succeeds (on_body L J) (spi (write_u8 chip a v))" if "block a = CommonRegister" for a v
    unfolding write_u8_def
    by (intro succeeds_spi wp_common_write) (use assms(1) that in \<open>simp_all add: HEADER_def\<close>)
  show ?thesis
    unfolding reset_body_def
    by (intro succeeds_version succeeds_bnd abort put succeeds_pin succeeds_delay succeeds_wait
        succeeds_reset_sockets [OF _ assms(2)] wr)
      (use assms(1) in \<open>simp_all add: CHPLCKR_def SYCR1_def SIMR_def common_def\<close>)
qed

lemma w6100_new_succeeds:
  fixes b :: dma_buffers
  assumes "67 \<le> L" "length (rx_buf b) = L" "length (tx_buf b) = L" "\<forall>j < 8. quiet_for j J" "J c" "length m = 6"
  shows "\<exists>w. w6100_new chip mock_pin c () b m = Ok w \<and> chip.w_quiet L w \<and>
    bus_only L J (sockets w) (bulk w) w \<and> (\<forall>s \<in> set (sockets w). fresh s)"
proof -
  let ?d = "\<lparr>transport = \<lparr>dev_cell = cell_new (Idle c b)\<rparr>, rst = ()\<rparr>"
  let ?w = "\<lparr>device = cell_new ?d, mac = m, config = cell_new None, config_dirty = False, link_up = False,
     sockets = map make_socket [0..<8], bulk = cell_new None\<rparr>"
  have "on_chip L c (transport ?d)" using assms(2,3) by (simp add: on_chip_def cell_new_def good_bufs_def)
  moreover have "fresh s" if "s \<in> set (map make_socket [0..<8])" for s
    using that by (auto simp: fresh_def make_socket_def cell_new_def backend_new_def)
  ultimately have start: "on_body L J (?d, ?w\<lparr>device := (device ?w)\<lparr>busy := True\<rparr>\<rparr>)"
    using assms socks_ok_new [of 0 8] by (auto simp: on_body_def cell_new_def simp del: upt_rec_numeral)
  obtain r d' w' where run: "reset_body chip mock_pin (?d, ?w\<lparr>device := (device ?w)\<lparr>busy := True\<rparr>\<rparr>) = (r, (d', w'))"
    by (metis prod_cases3)
  have post: "\<exists>x. r = Ok x" "on_body L J (d', w')"
    using reset_body_succeeds [OF assms(1,4)] start run unfolding succeeds_def wp_def by fastforce+
  have rst: "w6100_reset chip mock_pin ?w = (r, w'\<lparr>device := drop_guard d' (device w')\<rparr>)"
    using run by (simp add: w6100_reset_def with_device_def lock_mut_def try_lock_internal_def cell_new_def)
  have new: "w6100_new chip mock_pin c () b m = Ok (w'\<lparr>device := drop_guard d' (device w')\<rparr>)"
    using rst post(1) assms(2,3) by (auto simp: w6100_new_def transceiver_new_def)
  have "chip.w_quiet L (w'\<lparr>device := drop_guard d' (device w')\<rparr>)"
    using chip.new_spec [OF assms(2,3), of mock_pin c "()" m] new by simp
  with new post(2) show ?thesis
    by (auto simp: on_body_def bus_only_def drop_guard_def bus_any_def)
qed

text \<open>Every socket of a new chip is at rest, and stays so whatever its registers are set to.\<close>

definition all_rest :: "chip_state \<Rightarrow> bool" where
  "all_rest c \<longleftrightarrow> (\<forall>j < 8. at_rest j [] [] c) \<and> sent_dgrams c = replicate 8 []"

lemma all_rest_new: "all_rest chip_new"
  by (auto simp: all_rest_def chip_new_def at_rest_def socket_model_new_def cb_new_def cb_ok_def cb_used_def fifo_def
      BUF_SIZE_def cb_peek_def)

lemma all_rest_quiet: "j < 8 \<Longrightarrow> quiet_for j all_rest"
proof -
  assume j: "j < 8"
  have "quiet_for j (at_rest k [] [])" if "k < 8" for k
    using at_rest_quiet [of k "[]" "[]"] that j
    by (cases "k = j") (auto simp: quiet_for_def harmless_def sn_regs write_reg_def Let_def run_command_def at_rest_def)
  moreover have "quiet_for j (\<lambda>c. sent_dgrams c = D)" for D
    using j by (auto simp: quiet_for_def harmless_def sn_regs write_reg_def Let_def run_command_def)
  ultimately show ?thesis using j unfolding quiet_for_def all_rest_def by metis
qed

lemma new_on_chip:
  fixes b :: dma_buffers
  assumes "67 \<le> L" "length (rx_buf b) = L" "length (tx_buf b) = L" "length m = 6"
  shows "\<exists>w. w6100_new chip mock_pin chip_new () b m = Ok w \<and> chip.w_quiet L w \<and>
    bus_only L all_rest (sockets w) (bulk w) w \<and> (\<forall>s \<in> set (sockets w). fresh s)"
  by (rule w6100_new_succeeds [OF assms(1-3) _ _ assms(4)]) (simp_all add: all_rest_quiet all_rest_new)

text \<open>
  C13. The driver comes up. On a chip that answers as the model does, \<^verbatim>\<open>W6100::new\<close> returns a
  driver for every MAC address of six bytes and every pair of equal scratch buffers of at
  least 67 bytes: the bus is idle, no transfer is recorded and all eight slots are free.
\<close>

theorem driver_comes_up:
  assumes "67 \<le> L" "length (rx_buf b) = L" "length (tx_buf b) = L" "length m = 6"
  shows "\<exists>w. w6100_new chip mock_pin chip_new () b m = Ok w \<and> idle L (transport (cell (device w))) \<and>
    cell (bulk w) = None \<and> length (sockets w) = 8 \<and> (\<forall>s \<in> set (sockets w). is_free (cell (backend s)))"
  using new_on_chip [OF assms] by (auto simp: chip.w_quiet_iff rest_ok_def fresh_def is_free_def)

definition line_bufs :: dma_buffers where
  "line_bufs = \<lparr>rx_buf = replicate 67 0, tx_buf = replicate 67 0, dma_len = 0\<rparr>"

definition line_mac :: bytes where
  "line_mac = [0xfc, 0xd7, 0xfd, 0xab, 0x8b, 0xe4]"

theorem driver_comes_up_witness:
  "\<exists>w. w6100_new chip mock_pin chip_new () line_bufs line_mac = Ok w \<and> cell (bulk w) = None"
  using driver_comes_up [of 67 line_bufs line_mac] by (auto simp: line_bufs_def line_mac_def)

end
