(* ===== verification/End_To_End.thy ===== *)
theory End_To_End
  imports Bring_Up "HOL-Library.Sublist"
begin

text \<open>
  The whole system: the driver, the chip model, a peer on the wire and the application that
  holds the handles, in any interleaving. The bytes of a TCP session arrive in order, without
  loss and without repetition, in both directions.
\<close>

subsection \<open>The wire and the application\<close>

record session =
  drv :: chip_driver
  from_peer :: bytes
  to_app :: bytes
  from_app :: bytes

datatype sys_event =
    Call w_call
  | PeerConnect nat
  | PeerSend nat bytes
  | PeerSendUdp nat socket_addr bytes

fun sys_exec :: "nat \<Rightarrow> sys_event \<Rightarrow> session \<Rightarrow> session" where
  "sys_exec i (Call (CReadRx j n)) y =
     (case on_socket j (tcp_read n) (drv y) of
        (Ok xs, w) \<Rightarrow> y\<lparr>drv := w, to_app := to_app y @ (if j = i then xs else [])\<rparr>
      | (_, w) \<Rightarrow> y\<lparr>drv := w\<rparr>)"
| "sys_exec i (Call (CWriteTx j src)) y =
     (case on_socket j (tcp_write src) (drv y) of
        (Ok n, w) \<Rightarrow> y\<lparr>drv := w, from_app := from_app y @ (if j = i then take n src else [])\<rparr>
      | (_, w) \<Rightarrow> y\<lparr>drv := w\<rparr>)"
| "sys_exec i (Call c) y = y\<lparr>drv := snd (w_exec chip mock_pin c (drv y))\<rparr>"
| "sys_exec i (PeerConnect j) y = y\<lparr>drv := on_wire (peer_connect j) (drv y)\<rparr>"
| "sys_exec i (PeerSend j data) y =
     (case chip_of (drv y) of
        None \<Rightarrow> y
      | Some c \<Rightarrow> (case peer_send j data c of
          (n, c') \<Rightarrow> y\<lparr>drv := on_wire (\<lambda>_. c') (drv y), from_peer := from_peer y @ (if j = i then take n data else [])\<rparr>))"
| "sys_exec i (PeerSendUdp j a data) y = y\<lparr>drv := on_wire (\<lambda>c. snd (peer_send_udp j a data c)) (drv y)\<rparr>"

fun event_ok :: "nat \<Rightarrow> sys_event \<Rightarrow> bool" where
  "event_ok i (Call c) \<longleftrightarrow> call_ok c \<and> c \<notin> {CReset, CTcpReconnect i, CDrop i}"
| "event_ok i (PeerConnect j) \<longleftrightarrow> j < 8"
| "event_ok i (PeerSend j data) \<longleftrightarrow> j < 8"
| "event_ok i (PeerSendUdp j a data) \<longleftrightarrow> j < 8 \<and> j \<noteq> i"

fun sys_run :: "nat \<Rightarrow> sys_event list \<Rightarrow> session \<Rightarrow> session" where
  "sys_run i [] y = y"
| "sys_run i (e # es) y = sys_run i es (sys_exec i e y)"

subsection \<open>Handle operations\<close>

lemma carried_inv: "carried L i A R w \<Longrightarrow> w_inv chip L w"
  by (simp add: carried_def flow_def)

lemma carried_slot:
  assumes "carried L i A R w"
  shows "tcp_backend (cell (backend (sockets w ! i)))" "\<exists>F. R = contents (rx (sock_rings (sockets w ! i))) @ F"
  using assms by (auto simp: carried_def flow_def slot_bus_def bus_any_def split: option.splits if_splits)

lemma out_rest_written: "out_rest i A X F c \<Longrightarrow> out_rest i (A @ ys) (X @ ys) F c"
  by (auto simp: out_rest_def)

lemma tcp_moves:
  assumes "tcp_backend b \<Longrightarrow> tcp_backend b'" "contents (rx q) = xs @ contents (rx q')" "contents (tx q') = contents (tx q) @ ys"
  shows "tcp_rest i (A, R) b q c \<Longrightarrow> tcp_rest i (A @ ys, drop (length xs) R) b' q' c"
    "tcp_flight i (A, R) op b q p c \<Longrightarrow> tcp_flight i (A @ ys, drop (length xs) R) op b' q' p c"
proof -
  show "tcp_rest i (A, R) b q c \<Longrightarrow> tcp_rest i (A @ ys, drop (length xs) R) b' q' c"
    using assms by (auto simp: out_rest_written)
  show "tcp_flight i (A, R) op b q p c \<Longrightarrow> tcp_flight i (A @ ys, drop (length xs) R) op b' q' p c"
    using assms by (cases "op_kind op") (auto simp: out_rest_written, metis)
qed

lemma on_socket_carried:
  fixes w :: chip_driver
  assumes "i < 8" "j < 8" "carried L i A R w" "sock_safe m" "m (sockets w ! j) = (r, s')"
    "j = i \<Longrightarrow> tcp_backend (cell (backend (sockets w ! i))) \<Longrightarrow> tcp_backend (cell (backend s'))"
    "j = i \<Longrightarrow> contents (rx (sock_rings (sockets w ! i))) = xs @ contents (rx (sock_rings s'))"
    "j = i \<Longrightarrow> contents (tx (sock_rings s')) = contents (tx (sock_rings (sockets w ! i))) @ ys"
    "j \<noteq> i \<Longrightarrow> xs = [] \<and> ys = []"
  shows "\<exists>w' R'. on_socket j m w = (r, w') \<and> R = xs @ R' \<and> carried L i (A @ ys) R' w'"
proof -
  obtain F where F: "R = contents (rx (sock_rings (sockets w ! i))) @ F" using carried_slot(2) [OF assms(3)] by blast
  have R: "R = xs @ drop (length xs) R" using assms(7,9) F by (cases "j = i") auto
  have "on_socket j m w = (r, w\<lparr>sockets := (sockets w)[j := s']\<rparr>) \<and>
      flow L i (tcp_rest i) (tcp_flight i) (A @ ys, drop (length xs) R) (w\<lparr>sockets := (sockets w)[j := s']\<rparr>)"
    by (rule tcp_flow.on_socket_flow [OF assms(2) assms(3) [unfolded carried_def] assms(4,5) _ _ _ assms(1)])
      (use assms(6-9) in \<open>auto intro: tcp_moves simp del: tcp_rest.simps tcp_flight.simps\<close>)
  with R show ?thesis unfolding carried_def by blast
qed

text \<open>The control operations leave both rings and the machine of a live slot in place.\<close>

definition sock_still :: "(socket, 'a) sm \<Rightarrow> bool" where
  "sock_still m \<longleftrightarrow> (\<forall>s. tcp_backend (cell (backend s)) \<longrightarrow> tcp_backend (cell (backend (snd (m s)))) \<and>
     contents (rx (sock_rings (snd (m s)))) = contents (rx (sock_rings s)) \<and>
     contents (tx (sock_rings (snd (m s)))) = contents (tx (sock_rings s)))"

lemma contents_frames [simp]:
  "contents (release_frame r) = contents r" "contents (commit_frame r) = contents r"
  by (simp_all add: contents_def ring_len_def release_frame_def commit_frame_def)

lemma sock_still_control:
  "sock_still release_rx" "sock_still commit_tx" "sock_still (set_held b)"
  "sock_still (quietly tcp_handle_status)" "sock_still (quietly udp_handle_status)"
  "sock_still tcp_close" "sock_still udp_close" "sock_still udp_reconnect"
  by (auto simp: sock_still_def tcp_backend_def release_rx_def commit_tx_def set_held_def quietly_def bnd_def ret_def
      gets_def modify_def tcp_handle_status_def udp_handle_status_def tcp_close_def udp_close_def udp_reconnect_def
      on_backend_def zoom_def locked_def lock_mut_def try_lock_internal_def drop_guard_def
      split: backend_state.splits prod.splits sum.splits if_splits)

lemma still_carried:
  fixes w :: chip_driver
  assumes "i < 8" "j < 8" "carried L i A R w" "sock_safe m" "j = i \<Longrightarrow> sock_still m"
  shows "carried L i A R (snd (on_socket j m w))"
proof -
  obtain r s' where m: "m (sockets w ! j) = (r, s')" by (cases "m (sockets w ! j)")
  show ?thesis
    using on_socket_carried [OF assms(1-4) m, of "[]" "[]"] assms(5) m carried_slot(1) [OF assms(3)]
    by (force simp: sock_still_def)
qed

lemma quietly_snd: "snd (quietly m s) = snd (m s)" "fst (quietly m s) = Panic \<longleftrightarrow> fst (m s) = Panic"
  by (simp_all add: quietly_def bnd_def ret_def split: prod.split res.split)

lemma sock_safe_quietly: "sock_safe (quietly m) = sock_safe m"
  by (simp add: sock_safe_def wp_def case_prod_beta quietly_snd)

lemma read_carried:
  fixes w :: chip_driver
  assumes "i < 8" "j < 8" "carried L i A R w"
  shows "\<exists>xs w' R'. on_socket j (tcp_read n) w = (Ok xs, w') \<and> R = (if j = i then xs else []) @ R' \<and> carried L i A R' w'"
proof -
  let ?s = "sockets w ! j"
  have w: "rings_inv (sock_rings ?s)"
    using carried_inv [OF assms(3)] assms(2) by (auto simp: w_inv_def rest_ok_def socks_ok_nth sock_ok_def)
  obtain q where q: "ring_read n (rx (sock_rings ?s)) = (Ok (take n (contents (rx (sock_rings ?s)))), q)"
    "contents q = drop n (contents (rx (sock_rings ?s)))"
    using ring.fifo_read [of "rx (sock_rings ?s)" n] w by (auto simp: rings_inv_def)
  let ?xs = "take n (contents (rx (sock_rings ?s)))" and ?s' = "?s\<lparr>sock_rings := (sock_rings ?s)\<lparr>rx := q\<rparr>\<rparr>"
  have m: "tcp_read n ?s = (Ok ?xs, ?s')" using q(1) by (simp add: tcp_read_def zoom_def)
  have safe: "sock_safe (tcp_read n)" using sock_safe_read by (simp add: sock_safe_quietly)
  have "\<exists>w' R'. on_socket j (tcp_read n) w = (Ok ?xs, w') \<and> R = (if j = i then ?xs else []) @ R' \<and> carried L i (A @ []) R' w'"
    by (rule on_socket_carried [OF assms safe m]) (use q(2) in auto)
  then show ?thesis unfolding append_Nil2 by (elim exE) (intro exI)
qed

lemma write_carried:
  fixes w :: chip_driver
  assumes "i < 8" "j < 8" "carried L i A R w"
  shows "\<exists>n w'. on_socket j (tcp_write src) w = (Ok n, w') \<and> carried L i (A @ (if j = i then take n src else [])) R w'"
proof -
  let ?s = "sockets w ! j"
  have w: "rings_inv (sock_rings ?s)"
    using carried_inv [OF assms(3)] assms(2) by (auto simp: w_inv_def rest_ok_def socks_ok_nth sock_ok_def)
  obtain n q where q: "ring_write src (tx (sock_rings ?s)) = (Ok n, q)"
    "contents q = contents (tx (sock_rings ?s)) @ take n src"
    using ring.fifo_write [of "tx (sock_rings ?s)" src] w by (auto simp: rings_inv_def min_def)
  let ?s' = "?s\<lparr>sock_rings := (sock_rings ?s)\<lparr>tx := q\<rparr>\<rparr>"
  have m: "tcp_write src ?s = (Ok n, ?s')" using q(1) by (simp add: tcp_write_def zoom_def)
  have safe: "sock_safe (tcp_write src)" using sock_safe_write by (simp add: sock_safe_quietly)
  have "\<exists>w' R'. on_socket j (tcp_write src) w = (Ok n, w') \<and> R = [] @ R' \<and> carried L i (A @ (if j = i then take n src else [])) R' w'"
    by (rule on_socket_carried [OF assms safe m]) (use q(2) in auto)
  then show ?thesis by auto
qed

text \<open>A reconnect drops what the rings hold; what is on its way stays.\<close>

lemma tcp_cleared:
  assumes "tcp_backend b'" "contents (rx q') = []" "contents (tx q') = []"
  shows "tcp_rest i (A, R) b q c \<Longrightarrow> tcp_rest i (take (length A - length (contents (tx q))) A, drop (length (contents (rx q))) R) b' q' c"
    "tcp_flight i (A, R) op b q p c \<Longrightarrow> tcp_flight i (take (length A - length (contents (tx q))) A, drop (length (contents (rx q))) R) op b' q' p c"
proof -
  have o: "out_rest i A X F c \<Longrightarrow> out_rest i (take (length A - length X) A) [] F c" for X F by (auto simp: out_rest_def)
  show "tcp_rest i (A, R) b q c \<Longrightarrow> tcp_rest i (take (length A - length (contents (tx q))) A, drop (length (contents (rx q))) R) b' q' c"
    using assms by (auto simp: o simp del: length_contents contents_Nil_iff)
  show "tcp_flight i (A, R) op b q p c \<Longrightarrow> tcp_flight i (take (length A - length (contents (tx q))) A, drop (length (contents (rx q))) R) op b' q' p c"
    using assms by (cases "op_kind op") (auto simp: o simp del: length_contents contents_Nil_iff, blast)
qed

lemma tcp_reconnect_carried:
  fixes w :: chip_driver
  assumes "i < 8" "carried L i A R w"
  shows "\<exists>A R. carried L i A R (snd (on_socket i tcp_reconnect w))"
proof (cases "busy (backend (sockets w ! i))")
  case True
  then have "snd (on_socket i tcp_reconnect w) = w" by (simp add: on_socket_def tcp_reconnect_def)
  with assms(2) show ?thesis by metis
next
  case False
  let ?s = "sockets w ! i"
  obtain r s' where m: "tcp_reconnect ?s = (r, s')" by (cases "tcp_reconnect ?s")
  have safe: "sock_safe tcp_reconnect" by (simp add: sock_safe_reconnect)
  obtain p where "bk_state (cell (backend ?s)) = BTcp p" "\<not> release_requested (cell (backend ?s))"
    using carried_slot(1) [OF assms(2)] by (auto simp: tcp_backend_def)
  with m False have s': "tcp_backend (cell (backend s'))" "contents (rx (sock_rings s')) = []" "contents (tx (sock_rings s')) = []"
    by (auto simp: tcp_reconnect_def tcp_backend_def rings_clear_def contents_def ring_len_def ring_clear_def)
  have "\<exists>A R. on_socket i tcp_reconnect w = (r, w\<lparr>sockets := (sockets w)[i := s']\<rparr>) \<and>
      flow L i (tcp_rest i) (tcp_flight i) (A, R) (w\<lparr>sockets := (sockets w)[i := s']\<rparr>)"
    by (intro exI, rule tcp_flow.on_socket_flow [OF assms(1) assms(2) [unfolded carried_def] safe m _ _ _ assms(1)])
      (use tcp_cleared [OF s'] in \<open>simp_all del: tcp_rest.simps tcp_flight.simps\<close>)
  then show ?thesis unfolding carried_def by (elim exE conjE) (intro exI, simp)
qed

lemma open_carried:
  fixes w :: chip_driver
  assumes "i < 8" "carried L i A R w" "buffer_ok rxb" "buffer_ok txb" "\<And>b. bk_block (snd (claim b)) = bk_block b"
  shows "carried L i A R (snd (quietly (on_sockets (open_loop claim rxb txb 0)) w))"
  using tcp_flow.open_flow [OF assms(2) [unfolded carried_def] assms(3-5,1)] by (simp add: carried_def)

text \<open>Every call but a reset, and a reconnect or drop of the handle itself.\<close>

lemma exec_carried:
  fixes w :: chip_driver
  assumes "67 \<le> L" "i < 8" "carried L i A R w" "event_ok i (Call c)" "\<forall>j n. c \<noteq> CReadRx j n" "\<forall>j src. c \<noteq> CWriteTx j src"
  shows "carried L i A R (snd (w_exec chip P c w))"
proof (cases c)
  case CService
  then show ?thesis using tcp_flow.service_flow [OF assms(3) [unfolded carried_def] _ assms(1,2)]
    by (cases "w6100_service chip P w") (simp add: carried_def)
next
  case CDmaComplete
  then show ?thesis using tcp_flow.dma_complete_flow [OF assms(3) [unfolded carried_def] _ assms(1,2)]
    by (cases "dma_complete chip P w") (simp add: carried_def)
next
  case (CSetConfig cfg)
  then show ?thesis using tcp_flow.config_flow [OF assms(3) [unfolded carried_def]] by (simp add: carried_def)
qed (use assms in \<open>auto simp: claim_block sock_still_control sock_safe_control sock_safe_reconnect open_tcp_connect_def
    open_tcp_listen_def open_udp_def intro!: still_carried [OF assms(2) _ assms(3)] open_carried [OF assms(2,3)]\<close>)

subsection \<open>The peer\<close>

text \<open>From \<open>c\<close> to \<open>c'\<close>, exactly \<open>ys\<close> arrives for socket \<open>i\<close>.\<close>

definition arrives :: "nat \<Rightarrow> bytes \<Rightarrow> chip_state \<Rightarrow> chip_state \<Rightarrow> bool" where
  "arrives i ys c c' \<longleftrightarrow> length (csockets c') = length (csockets c) \<and> sent c' = sent c \<and>
     stx (csockets c' ! i) = stx (csockets c ! i) \<and> read_ptr (srx (csockets c' ! i)) = read_ptr (srx (csockets c ! i)) \<and>
     cb_ok (srx (csockets c' ! i)) \<and> fifo (srx (csockets c' ! i)) = fifo (srx (csockets c ! i)) @ ys"

lemma arrives_rest: "arrives i ys c c' \<Longrightarrow> at_rest i S F c \<Longrightarrow> at_rest i S (F @ ys) c'"
  by (auto simp: arrives_def at_rest_def)

lemma arrives_staged: "arrives i ys c c' \<Longrightarrow> tx_staged i S F p data c \<Longrightarrow> tx_staged i S (F @ ys) p data c'"
  using arrives_rest by (auto simp: tx_staged_def arrives_def)

lemma tcp_arrive:
  assumes "\<And>S F. at_rest i S F c \<Longrightarrow> arrives i ys c (f c)"
  shows "tcp_rest i (A, R) b q c \<Longrightarrow> tcp_rest i (A, R @ ys) b q (f c)"
    "tcp_flight i (A, R) op b q p c \<Longrightarrow> tcp_flight i (A, R @ ys) op b q p (f c)"
proof -
  have o: "out_rest i A X (F @ ys) (f c) \<and> read_ptr (srx (csockets (f c) ! i)) = read_ptr (srx (csockets c ! i))"
    if "out_rest i A X F c" for X F
    using that assms arrives_rest unfolding out_rest_def arrives_def by metis
  have s: "tx_staged i S (F @ ys) p data (f c)" if "tx_staged i S F p data c" for S F p data
    using arrives_staged [OF assms that] that by (auto simp: tx_staged_def)
  show "tcp_rest i (A, R) b q c \<Longrightarrow> tcp_rest i (A, R @ ys) b q (f c)" using o by auto
  show "tcp_flight i (A, R) op b q p c \<Longrightarrow> tcp_flight i (A, R @ ys) op b q p (f c)"
    by (cases "op_kind op") (use o s in \<open>auto, blast\<close>)
qed

lemma wire_carried:
  assumes "carried L i A R w" "\<And>c S F. chip_of w = Some c \<Longrightarrow> at_rest i S F c \<Longrightarrow> arrives i ys c (f c)"
  shows "carried L i A (R @ ys) (on_wire f w)"
  unfolding carried_def
  by (rule tcp_flow.wire_flow [OF assms(1) [unfolded carried_def]]) (use assms(2) in \<open>auto intro: tcp_arrive simp del: tcp_rest.simps tcp_flight.simps\<close>)

lemma arrives_other:
  "i < 8 \<Longrightarrow> j \<noteq> i \<Longrightarrow> at_rest i S F c \<Longrightarrow> arrives i [] c (upd_socket j g c)"
  by (auto simp: arrives_def at_rest_def)

lemma arrives_connect: "i < 8 \<Longrightarrow> at_rest i S F c \<Longrightarrow> arrives i [] c (peer_connect j c)"
  by (auto simp: arrives_def at_rest_def peer_connect_def)

lemma arrives_udp: "i < 8 \<Longrightarrow> j \<noteq> i \<Longrightarrow> at_rest i S F c \<Longrightarrow> arrives i [] c (snd (peer_send_udp j a data c))"
  using arrives_other by (auto simp: peer_send_udp_def Let_def) (auto simp: arrives_def at_rest_def)

lemma arrives_send:
  assumes "i < 8" "at_rest i S F c" "peer_send j data c = (n, c')"
  shows "arrives i (if j = i then take n data else []) c c'"
proof (cases "j = i")
  case True
  have r: "cb_ok (srx (csockets c ! i))" "length (csockets c) = 8" using assms(2) by (auto simp: at_rest_def)
  let ?n = "min (length data) (unat (cb_free (srx (csockets c ! i))))"
  have fit: "unat (cb_used (srx (csockets c ! i))) + length (take ?n data) \<le> 2048"
    using cb_free_unat [OF r(1)] r(1) by (auto simp: cb_ok_def)
  show ?thesis using assms(1,3) r fifo_arrive [OF r(1) fit] True
    by (auto simp: peer_send_def Let_def arrives_def split: if_splits)
next
  case False
  then show ?thesis using assms arrives_other [OF assms(1) False assms(2)]
    by (auto simp: peer_send_def Let_def split: if_splits) (auto simp: arrives_def at_rest_def)
qed


subsection \<open>Whole runs\<close>

lemma exec_event:
  assumes "67 \<le> L" "i < 8" "event_ok i e" "carried L i (from_app y) R (drv y)" "from_peer y = to_app y @ R"
  shows "\<exists>R'. carried L i (from_app (sys_exec i e y)) R' (drv (sys_exec i e y)) \<and>
    from_peer (sys_exec i e y) = to_app (sys_exec i e y) @ R'"
proof (cases e)
  case (Call c)
  show ?thesis
  proof (cases "(\<exists>j n. c = CReadRx j n) \<or> (\<exists>j src. c = CWriteTx j src)")
    case True
    then show ?thesis
    proof (elim disjE exE)
      fix j n assume c: "c = CReadRx j n"
      have "j < 8" using assms(3) Call c by simp
      from read_carried [OF assms(2) this assms(4), of n] obtain xs w' R' where
        "on_socket j (tcp_read n) (drv y) = (Ok xs, w')" "R = (if j = i then xs else []) @ R'" "carried L i (from_app y) R' w'"
        by blast
      then show ?thesis using Call c assms(5) by (intro exI [of _ R']) (simp split: if_splits)
    next
      fix j src assume c: "c = CWriteTx j src"
      have "j < 8" using assms(3) Call c by simp
      from write_carried [OF assms(2) this assms(4), of src] obtain n w' where
        "on_socket j (tcp_write src) (drv y) = (Ok n, w')" "carried L i (from_app y @ (if j = i then take n src else [])) R w'"
        by blast
      then show ?thesis using Call c assms(5) by (intro exI [of _ R]) simp
    qed
  next
    case False
    then have "sys_exec i e y = y\<lparr>drv := snd (w_exec chip mock_pin c (drv y))\<rparr>" using Call by (cases c) auto
    then show ?thesis
      using exec_carried [OF assms(1,2,4), of c mock_pin] assms(3,5) Call False by (intro exI [of _ R]) auto
  qed
next
  case (PeerConnect j)
  have "carried L i (from_app y) (R @ []) (on_wire (peer_connect j) (drv y))"
    by (rule wire_carried [OF assms(4)]) (rule arrives_connect [OF assms(2)])
  then show ?thesis using PeerConnect assms(5) by (intro exI [of _ R]) simp
next
  case (PeerSend j data)
  show ?thesis
  proof (cases "chip_of (drv y)")
    case None
    then show ?thesis using PeerSend assms(4,5) by (intro exI [of _ R]) simp
  next
    case (Some c)
    obtain n c' where p: "peer_send j data c = (n, c')" by (cases "peer_send j data c")
    have "carried L i (from_app y) (R @ (if j = i then take n data else [])) (on_wire (\<lambda>_. c') (drv y))"
      by (rule wire_carried [OF assms(4)]) (use Some arrives_send [OF assms(2) _ p] in auto)
    then show ?thesis using PeerSend Some p assms(5) by (intro exI) simp
  qed
next
  case (PeerSendUdp j a data)
  have "carried L i (from_app y) (R @ []) (on_wire (\<lambda>c. snd (peer_send_udp j a data c)) (drv y))"
    by (rule wire_carried [OF assms(4)]) (rule arrives_udp [OF assms(2)], use assms(3) PeerSendUdp in auto)
  then show ?thesis using PeerSendUdp assms(5) by (intro exI [of _ R]) simp
qed

lemma run_events:
  assumes "67 \<le> L" "i < 8" "\<forall>e \<in> set es. event_ok i e" "carried L i (from_app y) R (drv y)" "from_peer y = to_app y @ R"
  shows "\<exists>R'. carried L i (from_app (sys_run i es y)) R' (drv (sys_run i es y)) \<and>
    from_peer (sys_run i es y) = to_app (sys_run i es y) @ R'"
  using assms(3-)
proof (induction es arbitrary: y R)
  case (Cons e es)
  have "event_ok i e" using Cons.prems(1) by simp
  from exec_event [OF assms(1,2) this Cons.prems(2,3)] Cons.IH [of "sys_exec i e y"] Cons.prems(1)
  show ?case by auto
qed auto

definition session_start :: "chip_driver \<Rightarrow> session" where
  "session_start w = \<lparr>drv = w, from_peer = [], to_app = [], from_app = []\<rparr>"

text \<open>
  What a transmission of the slot that is in flight has left the ring with and not yet sent: the
  bytes behind the write pointer of the chip's transmit buffer.
\<close>

definition outgoing :: "nat \<Rightarrow> chip_driver \<Rightarrow> chip_state \<Rightarrow> bytes list" where
  "outgoing i w c =
     (case cell (bulk w) of
        None \<Rightarrow> []
      | Some op \<Rightarrow>
          if op_idx op = i \<and> op_kind op = BulkTransmit
          then [cb_peek (op_pointer op) (op_bytes op) (stx (csockets c ! i))] else [])"

text \<open>What the invariant says of the streams as they can be observed.\<close>

lemma carried_observed:
  assumes "i < 8" "carried L i A R w"
  shows "\<exists>c F. chip_of w = Some c \<and> prefix (sent c ! i) A \<and> R = contents (rx (sock_rings (sockets w ! i))) @ F \<and>
    F = fifo (srx (csockets c ! i)) \<and>
    A = sent c ! i @ concat (outgoing i w c) @ contents (tx (sock_rings (sockets w ! i)))"
proof -
  let ?t = "transport (cell (device w))" and ?b = "cell (backend (sockets w ! i))" and ?q = "sock_rings (sockets w ! i)"
  have co: "on_chip L c ?t \<or> flying L c p ?t \<Longrightarrow> chip_of w = Some c" for c p
    by (auto simp: on_chip_def flying_def chip_of_def)
  have any: ?thesis if "bus_any L (tcp_rest i (A, R) ?b ?q) ?t" "\<And>c. outgoing i w c = []"
    using that(1) co unfolding bus_any_def out_rest_def at_rest_def tcp_rest.simps that(2) concat.simps append_Nil
    by (metis prefix_def)
  show ?thesis
  proof (cases "\<exists>op. cell (bulk w) = Some op \<and> op_idx op = i")
    case True
    then obtain op c p where op: "cell (bulk w) = Some op" "flying L c p ?t" "tcp_flight i (A, R) op ?b ?q p c"
      using assms(2) by (auto simp: carried_def flow_def slot_bus_def simp del: tcp_flight.simps)
    then have "chip_of w = Some c" using co by blast
    moreover have "op_idx op = i" using True op(1) by auto
    ultimately show ?thesis using op
      by (cases "op_kind op") (auto simp: out_rest_def at_rest_def tx_staged_def outgoing_def)
  next
    case False
    then have "outgoing i w c = []" for c by (auto simp: outgoing_def split: option.split)
    with False show ?thesis using assms(2) any
      by (auto simp: carried_def flow_def slot_bus_def simp del: tcp_rest.simps split: option.splits)
  qed
qed

text \<open>The first socket that is opened on a new driver.\<close>

lemma open_first:
  fixes w0 :: chip_driver
  assumes "67 \<le> L" "length (rx_buf b) = L" "length (tx_buf b) = L" "length m = 6"
    "w6100_new chip mock_pin chip_new () b m = Ok w0" "buffer_ok rxb" "buffer_ok txb"
    "on_sockets (open_loop claim rxb txb 0) w0 = (Ok i, w)"
    "\<And>b. bk_block (snd (claim b)) = bk_block b" "\<And>b. is_free b \<Longrightarrow> fst (claim b)"
  shows "i = 0 \<and> w_inv chip L w \<and> length (mac w) = 6 \<and> cell (bulk w) = None \<and> bus_any L all_rest (transport (cell (device w))) \<and>
    (\<exists>b q. is_free b \<and> cell (backend (sockets w ! 0)) = snd (claim b) \<and> sock_rings (sockets w ! 0) = rings_install rxb txb q)"
proof -
  from new_on_chip [OF assms(1-4)] assms(5)
  have w0: "chip.w_quiet L w0" "bus_only L all_rest (sockets w0) (bulk w0) w0" "\<forall>s \<in> set (sockets w0). fresh s" by auto
  obtain s ss where ss: "sockets w0 = s # ss"
    using w0(1) by (cases "sockets w0") (auto simp: chip.w_quiet_iff rest_ok_def)
  have s: "\<not> busy (backend s)" "is_free (cell (backend s))" using w0(3) ss by (auto simp: fresh_def is_free_def)
  let ?s = "s\<lparr>backend := \<lparr>cell = snd (claim (cell (backend s))), busy = False\<rparr>, sock_rings := rings_install rxb txb (sock_rings s)\<rparr>"
  have w: "i = 0" "w = w0\<lparr>sockets := ?s # ss\<rparr>"
    using assms(8) ss s assms(10) [OF s(2)]
    by (auto simp: on_sockets_def zoom_def lock_mut_def try_lock_internal_def drop_guard_def split: prod.splits)
  have "quietly (on_sockets (open_loop claim rxb txb 0)) w0 = (Ok (), w)"
    using assms(8) by (simp add: quietly_def bnd_def ret_def)
  from wpD [OF open_keeps [OF _ assms(6,7,9)] this] w0(1) have "w_inv chip L w"
    by (simp add: chip.w_quiet_def)
  then show ?thesis using w w0(1,2) s(2) by (auto simp: bus_only_def chip.w_quiet_def)
qed

lemma tcp_opened:
  assumes "is_free b" "at_rest i S F c"
  shows "tcp_rest i (S, F) (snd (claim_tcp p b)) (rings_install rxb txb q) c"
  using assms by (auto simp: claim_tcp_def tcp_backend_def out_rest_def rings_install_def ring_install_def contents_def ring_len_def)

lemma open_starts:
  fixes w0 :: chip_driver
  assumes "67 \<le> L" "length (rx_buf b) = L" "length (tx_buf b) = L" "length m = 6"
    "w6100_new chip mock_pin chip_new () b m = Ok w0" "buffer_ok rxb" "buffer_ok txb"
    "on_sockets (open_loop (claim_tcp p) rxb txb 0) w0 = (Ok i, w)"
  shows "i < 8 \<and> carried L i [] [] w"
proof -
  obtain b0 q where w: "i = 0" "w_inv chip L w" "length (mac w) = 6" "cell (bulk w) = None"
    "bus_any L all_rest (transport (cell (device w)))" "is_free b0"
    "cell (backend (sockets w ! 0)) = snd (claim_tcp p b0)" "sock_rings (sockets w ! 0) = rings_install rxb txb q"
    using open_first [OF assms claim_block(1)] by (auto simp: claim_tcp_def)
  have "tcp_rest 0 ([], []) (cell (backend (sockets w ! 0))) (sock_rings (sockets w ! 0)) c" if "all_rest c" for c
    unfolding w(7,8) by (rule tcp_opened [OF w(6)]) (use that in \<open>simp add: all_rest_def\<close>)
  then show ?thesis using w by (auto simp: carried_def flow_def slot_bus_def bus_any_def simp del: tcp_rest.simps)
qed

text \<open>
  C2. A TCP session is two reliable byte streams. Open a socket on a new driver; let the
  interrupts, the application (on all handles) and the peers act in any order, short of a
  chip reset and of reconnecting or dropping this handle. At every moment the bytes the peer
  sent are exactly those the application has read, then those in the receive ring, then
  those in the chip's FIFO; and the bytes the application wrote are exactly those that went out
  on the wire, then those of a transmission in flight, then those in the transmit ring.
\<close>

theorem tcp_streams_end_to_end:
  assumes "67 \<le> L" "length (rx_buf b) = L" "length (tx_buf b) = L" "length m = 6"
    "w6100_new chip mock_pin chip_new () b m = Ok w0" "buffer_ok rxb" "buffer_ok txb"
    "open_tcp_listen p rxb txb w0 = (Ok i, w) \<or> open_tcp_connect a p q rxb txb w0 = (Ok i, w)"
    "\<forall>e \<in> set es. event_ok i e" "y = sys_run i es (session_start w)"
  shows "\<exists>c. chip_of (drv y) = Some c \<and>
    from_peer y = to_app y @ contents (rx (sock_rings (sockets (drv y) ! i))) @ fifo (srx (csockets c ! i)) \<and>
    prefix (sent c ! i) (from_app y) \<and>
    from_app y = sent c ! i @ concat (outgoing i (drv y) c) @ contents (tx (sock_rings (sockets (drv y) ! i)))"
proof -
  have start: "i < 8" "carried L i [] [] w"
    using assms(8) open_starts [OF assms(1-7)] by (auto simp: open_tcp_listen_def open_tcp_connect_def)
  have "\<exists>R. carried L i (from_app y) R (drv y) \<and> from_peer y = to_app y @ R"
    unfolding assms(10) by (rule run_events [OF assms(1) start(1) assms(9)]) (use start in \<open>auto simp: session_start_def\<close>)
  with carried_observed [OF start(1)] show ?thesis by (metis append.assoc)
qed

definition demo_events :: "sys_event list" where
  "demo_events = [Call CService, PeerConnect 0, PeerSend 0 [1, 2, 3], Call CService, Call CDmaComplete,
     Call (CReadRx 0 2), Call (CWriteTx 0 [9, 8]), PeerSend 0 [4], Call CService, Call CDmaComplete]"

text \<open>A new driver has a socket to open.\<close>

lemma open_loop_on_new:
  "\<exists>w0 w. w6100_new chip mock_pin chip_new () line_bufs line_mac = Ok w0 \<and> on_sockets (open_loop claim rxb txb 0) w0 = (Ok 0, w)"
proof -
  obtain w0 where w0: "w6100_new chip mock_pin chip_new () line_bufs line_mac = Ok w0" "chip.w_quiet 67 w0"
    "\<forall>s \<in> set (sockets w0). fresh s"
    using new_on_chip [of 67 line_bufs line_mac] by (auto simp: line_bufs_def line_mac_def)
  obtain s ss where ss: "sockets w0 = s # ss"
    using w0(2) by (cases "sockets w0") (auto simp: chip.w_quiet_iff rest_ok_def)
  then have "on_sockets (open_loop claim rxb txb 0) w0 = (Ok 0, snd (on_sockets (open_loop claim rxb txb 0) w0))"
    using w0(3) by (simp add: on_sockets_def zoom_def lock_mut_def try_lock_internal_def is_free_def
        fresh_def split: prod.split)
  with w0(1) show ?thesis by blast
qed

theorem tcp_streams_end_to_end_witness:
  "\<exists>w0 w c. w6100_new chip mock_pin chip_new () line_bufs line_mac = Ok w0 \<and>
     open_tcp_listen 80 (replicate 4 0) (replicate 4 0) w0 = (Ok 0, w) \<and>
     chip_of (drv (sys_run 0 demo_events (session_start w))) = Some c \<and>
     prefix (sent c ! 0) (from_app (sys_run 0 demo_events (session_start w)))"
proof -
  have b: "buffer_ok (replicate 4 0)" by (simp add: buffer_ok_def)
  obtain w0 w where w: "w6100_new chip mock_pin chip_new () line_bufs line_mac = Ok w0"
    "open_tcp_listen 80 (replicate 4 0) (replicate 4 0) w0 = (Ok 0, w)"
    using open_loop_on_new unfolding open_tcp_listen_def by blast
  have e: "\<forall>e \<in> set demo_events. event_ok 0 e" by (simp add: demo_events_def)
  have l: "(67 :: nat) \<le> 67" "length (rx_buf line_bufs) = 67" "length (tx_buf line_bufs) = 67" "length line_mac = 6"
    by (simp_all add: line_bufs_def line_mac_def)
  show ?thesis
    using tcp_streams_end_to_end [OF l w(1) b b disjI1 [OF w(2)] e refl] w by blast
qed

end
