(* ===== verification/Echo_App.thy ===== *)
theory Echo_App
  imports End_To_End
begin

text \<open>
  The two echo loops of the application (\<^verbatim>\<open>examples/echo/src/main.rs\<close>), run to their end; theory
  \<open>Firmware\<close> has \<^verbatim>\<open>main\<close> around them, preempted by the interrupts. The loops use the handles
  through two contracts, a pair of byte streams and a pair of datagram queues, which the handles
  of the driver provide.
\<close>

subsection \<open>Loops\<close>

text \<open>
  \<^verbatim>\<open>loop { ... }\<close> with \<^verbatim>\<open>break\<close>: a round returns whether to go on. \<open>None\<close> is a loop, or a loop
  inside a round, that never ends.
\<close>

partial_function (option) repeat_while ::
  "('s \<Rightarrow> (bool res \<times> 's) option) \<Rightarrow> 's \<Rightarrow> (unit res \<times> 's) option" where
  "repeat_while m s =
     (case m s of
        None \<Rightarrow> None
      | Some (r, s') \<Rightarrow>
          (case r of
             Ok go \<Rightarrow> if go then repeat_while m s' else Some (Ok (), s')
           | Err e \<Rightarrow> Some (Err e, s')
           | Panic \<Rightarrow> Some (Panic, s')))"

declare repeat_while.simps [code]

text \<open>\<^verbatim>\<open>result.unwrap_or(d)\<close>.\<close>

definition unwrap_or :: "'a \<Rightarrow> ('s, 'a) sm \<Rightarrow> ('s, 'a) sm" where
  "unwrap_or d m s = (case m s of (Err _, s') \<Rightarrow> (Ok d, s') | (r, s') \<Rightarrow> (r, s'))"

lemma repeat_while_ends:
  assumes "I s" "\<And>s. I s \<Longrightarrow> \<exists>b s'. m s = Some (Ok b, s') \<and> I s' \<and> (b \<longrightarrow> (f s' :: nat) < f s) \<and> (\<not> b \<longrightarrow> Q s')"
  shows "\<exists>s'. repeat_while m s = Some (Ok (), s') \<and> I s' \<and> Q s'"
  using assms(1)
proof (induction "f s" arbitrary: s rule: less_induct)
  case less
  obtain b s1 where m: "m s = Some (Ok b, s1)" "I s1" "b \<longrightarrow> f s1 < f s" "\<not> b \<longrightarrow> Q s1"
    using assms(2) [OF less.prems] by blast
  show ?case
  proof (cases b)
    case True
    from less.hyps [OF _ m(2)] m(3) True obtain s' where "repeat_while m s1 = Some (Ok (), s')" "I s'" "Q s'" by blast
    with m(1) True show ?thesis by (subst repeat_while.simps) simp
  next
    case False
    with m show ?thesis by (subst repeat_while.simps) simp
  qed
qed

text \<open>What every round keeps, a loop that ends keeps.\<close>

lemma repeat_while_keeps:
  assumes "repeat_while m s = Some y" "I s" "\<And>s r s'. I s \<Longrightarrow> m s = Some (r, s') \<Longrightarrow> I s'"
  shows "I (snd y)"
proof -
  have "(\<forall>s r s'. I s \<longrightarrow> m s = Some (r, s') \<longrightarrow> I s') \<longrightarrow> I s \<longrightarrow> I (snd y)"
  proof (rule repeat_while.raw_induct [where P = "\<lambda>m s y. (\<forall>s r s'. I s \<longrightarrow> m s = Some (r, s') \<longrightarrow> I s') \<longrightarrow> I s \<longrightarrow> I (snd y)", OF _ assms(1)])
    fix f m s y
    assume 1: "\<And>m s y. f m s = Some y \<Longrightarrow> (\<forall>s r s'. I s \<longrightarrow> m s = Some (r, s') \<longrightarrow> I s') \<longrightarrow> I s \<longrightarrow> I (snd y)"
      "(case m s of None \<Rightarrow> None | Some (r, s') \<Rightarrow> (case r of Ok go \<Rightarrow> if go then f m s' else Some (Ok (), s')
         | Err e \<Rightarrow> Some (Err e, s') | Panic \<Rightarrow> Some (Panic, s'))) = Some y"
    show "(\<forall>s r s'. I s \<longrightarrow> m s = Some (r, s') \<longrightarrow> I s') \<longrightarrow> I s \<longrightarrow> I (snd y)"
    proof (intro impI)
      assume step: "\<forall>s r s'. I s \<longrightarrow> m s = Some (r, s') \<longrightarrow> I s'" and s: "I s"
      obtain r s1 where m: "m s = Some (r, s1)" using 1(2) by (auto split: option.splits)
      then have "I s1" using step s by blast
      with 1(1) [of m s1 y] 1(2) m step show "I (snd y)" by (auto split: res.splits if_splits)
    qed
  qed
  with assms(2,3) show ?thesis by blast
qed

subsection \<open>The TCP echo\<close>

record carry_buf =
  app_buf :: bytes
  app_len :: nat
  app_off :: nat

definition echo_refill :: "(nat \<Rightarrow> ('w, bytes) sm) \<Rightarrow> ('x carry_buf_scheme \<times> 'w, bool) sm" where
  "echo_refill rd = (\<lambda>(a, w).
     if app_off a = app_len a then
       (case unwrap_or [] (rd (length (app_buf a))) w of
          (Ok xs, w') \<Rightarrow>
            (Ok (length xs \<noteq> 0), (a\<lparr>app_buf := copy_at 0 xs (app_buf a), app_len := length xs, app_off := 0\<rparr>, w'))
        | (Err e, w') \<Rightarrow> (Err e, (a, w'))
        | (Panic, w') \<Rightarrow> (Panic, (a, w')))
     else (Ok True, (a, w)))"

text \<open>The slice \<^verbatim>\<open>buf[off..len]\<close> panics outside the buffer.\<close>

definition echo_push :: "(bytes \<Rightarrow> ('w, nat) sm) \<Rightarrow> ('x carry_buf_scheme \<times> 'w, bool) sm" where
  "echo_push wr = (\<lambda>(a, w).
     if app_off a \<le> app_len a \<and> app_len a \<le> length (app_buf a) then
       (case unwrap_or 0 (wr (take (app_len a - app_off a) (drop (app_off a) (app_buf a)))) w of
          (Ok n, w') \<Rightarrow> (Ok (n \<noteq> 0), (a\<lparr>app_off := app_off a + n\<rparr>, w'))
        | (Err e, w') \<Rightarrow> (Err e, (a, w'))
        | (Panic, w') \<Rightarrow> (Panic, (a, w')))
     else (Panic, (a, w)))"

definition echo_round ::
  "(nat \<Rightarrow> ('w, bytes) sm) \<Rightarrow> (bytes \<Rightarrow> ('w, nat) sm) \<Rightarrow> ('x carry_buf_scheme \<times> 'w, bool) sm" where
  "echo_round rd wr = bnd (echo_refill rd) (\<lambda>go. if go then echo_push wr else ret False)"

definition echo_drain ::
  "(nat \<Rightarrow> ('w, bytes) sm) \<Rightarrow> (bytes \<Rightarrow> ('w, nat) sm) \<Rightarrow> 'x carry_buf_scheme \<times> 'w \<Rightarrow>
     (unit res \<times> 'x carry_buf_scheme \<times> 'w) option" where
  "echo_drain rd wr = repeat_while (\<lambda>s. Some (echo_round rd wr s))"

text \<open>The bytes read and not yet written back.\<close>

definition carry :: "'x carry_buf_scheme \<Rightarrow> bytes" where
  "carry a = take (app_len a - app_off a) (drop (app_off a) (app_buf a))"

definition carry_ok :: "'x carry_buf_scheme \<Rightarrow> bool" where
  "carry_ok a \<longleftrightarrow> app_off a \<le> app_len a \<and> app_len a \<le> length (app_buf a) \<and> app_buf a \<noteq> []"

lemma length_carry: "carry_ok a \<Longrightarrow> length (carry a) = app_len a - app_off a"
  by (auto simp: carry_def carry_ok_def min_def)

lemma carry_step:
  "carry_ok a \<Longrightarrow> n \<le> length (carry a) \<Longrightarrow> carry (a\<lparr>app_off := app_off a + n\<rparr>) = drop n (carry a) \<and>
     carry_ok (a\<lparr>app_off := app_off a + n\<rparr>)"
  by (simp add: length_carry) (simp add: carry_def carry_ok_def drop_take add.commute, linarith)

lemma carry_fill:
  "length xs \<le> length (app_buf a) \<Longrightarrow> app_buf a \<noteq> [] \<Longrightarrow>
     carry (a\<lparr>app_buf := copy_at 0 xs (app_buf a), app_len := length xs, app_off := 0\<rparr>) = xs \<and>
     carry_ok (a\<lparr>app_buf := copy_at 0 xs (app_buf a), app_len := length xs, app_off := 0\<rparr>)"
  by (auto simp: carry_def carry_ok_def copy_at_def)

text \<open>
  What a stream handle promises its user: reads take from the front of the incoming bytes,
  writes append as much as there is room for, and neither disturbs the other direction.
\<close>

locale stream_handle =
  fixes rd :: "nat \<Rightarrow> ('w, bytes) sm" and wr :: "bytes \<Rightarrow> ('w, nat) sm"
    and incoming :: "'w \<Rightarrow> bytes" and outgoing :: "'w \<Rightarrow> bytes" and room :: "'w \<Rightarrow> nat" and good :: "'w \<Rightarrow> bool"
  assumes handle_read: "good w \<Longrightarrow> \<exists>w'. rd n w = (Ok (take n (incoming w)), w') \<and> incoming w' = drop n (incoming w) \<and>
      outgoing w' = outgoing w \<and> room w' = room w \<and> good w'"
    and handle_write: "good w \<Longrightarrow> \<exists>w'. wr xs w = (Ok (min (length xs) (room w)), w') \<and> incoming w' = incoming w \<and>
      outgoing w' = outgoing w @ take (room w) xs \<and> room w' = room w - length xs \<and> good w'"
begin

lemma refill_ends:
  assumes "good w" "carry_ok a"
  shows "\<exists>a' w'. echo_refill rd (a, w) = (Ok (carry a' \<noteq> []), (a', w')) \<and> carry a' @ incoming w' = carry a @ incoming w \<and>
    outgoing w' = outgoing w \<and> room w' = room w \<and> good w' \<and> carry_ok a' \<and> (carry a' = [] \<longrightarrow> incoming w' = [])"
proof (cases "app_off a = app_len a")
  case True
  obtain w' where w': "rd (length (app_buf a)) w = (Ok (take (length (app_buf a)) (incoming w)), w')"
    "incoming w' = drop (length (app_buf a)) (incoming w)" "outgoing w' = outgoing w" "room w' = room w" "good w'"
    using handle_read [OF assms(1)] by blast
  let ?xs = "take (length (app_buf a)) (incoming w)"
  have e: "carry a = []" using True by (simp add: carry_def)
  have ne: "app_buf a \<noteq> []" using assms(2) by (simp add: carry_ok_def)
  have f: "carry (a\<lparr>app_buf := copy_at 0 ?xs (app_buf a), app_len := length ?xs, app_off := 0\<rparr>) = ?xs"
    "carry_ok (a\<lparr>app_buf := copy_at 0 ?xs (app_buf a), app_len := length ?xs, app_off := 0\<rparr>)"
    using carry_fill [of ?xs a] ne by simp_all
  show ?thesis
    by (intro exI [of _ "a\<lparr>app_buf := copy_at 0 ?xs (app_buf a), app_len := length ?xs, app_off := 0\<rparr>"] exI [of _ w'])
      (use w' True e f ne in \<open>simp add: echo_refill_def unwrap_or_def\<close>)
next
  case False
  then have "carry a \<noteq> []" using assms(2) length_carry [OF assms(2)] by (auto simp: carry_ok_def)
  with False assms show ?thesis by (simp add: echo_refill_def)
qed

lemma push_ends:
  assumes "good w" "carry_ok a" "carry a \<noteq> []"
  shows "\<exists>a' w'. echo_push wr (a, w) = (Ok (room w \<noteq> 0), (a', w')) \<and> carry a' = drop (room w) (carry a) \<and>
    incoming w' = incoming w \<and> outgoing w' = outgoing w @ take (room w) (carry a) \<and>
    room w' = room w - length (carry a) \<and> good w' \<and> carry_ok a'"
proof -
  obtain w' where w': "wr (carry a) w = (Ok (min (length (carry a)) (room w)), w')" "incoming w' = incoming w"
    "outgoing w' = outgoing w @ take (room w) (carry a)" "room w' = room w - length (carry a)" "good w'"
    using handle_write [OF assms(1)] by blast
  let ?n = "min (length (carry a)) (room w)"
  have "carry (a\<lparr>app_off := app_off a + ?n\<rparr>) = drop ?n (carry a)" "carry_ok (a\<lparr>app_off := app_off a + ?n\<rparr>)"
    using carry_step [OF assms(2), of ?n] by simp_all
  moreover have "drop ?n (carry a) = drop (room w) (carry a)" by (simp add: min_def)
  ultimately show ?thesis
    by (intro exI [of _ "a\<lparr>app_off := app_off a + ?n\<rparr>"] exI [of _ w'])
      (use w' assms(2,3) in \<open>auto simp: echo_push_def unwrap_or_def carry_ok_def carry_def [symmetric]\<close>)
qed

text \<open>
  One run of the loop moves as much as the outgoing side has room for, and only ends when
  everything has been moved or the room is used up.
\<close>

lemma drain_ends:
  assumes "good w" "carry_ok a"
  shows "\<exists>a' w'. echo_drain rd wr (a, w) = Some (Ok (), (a', w')) \<and> good w' \<and> carry_ok a' \<and>
    outgoing w' = outgoing w @ take (room w) (carry a @ incoming w) \<and>
    carry a' @ incoming w' = drop (room w) (carry a @ incoming w)"
proof -
  define all where "all = carry a @ incoming w"
  let ?I = "\<lambda>(a', w'). good w' \<and> carry_ok a' \<and> (\<exists>k \<le> length all. k \<le> room w \<and> room w' = room w - k \<and>
     outgoing w' = outgoing w @ take k all \<and> carry a' @ incoming w' = drop k all)"
  let ?Q = "\<lambda>(a', w'). carry a' @ incoming w' = [] \<or> room w' = 0"
  have "\<exists>s'. repeat_while (\<lambda>s. Some (echo_round rd wr s)) (a, w) = Some (Ok (), s') \<and> ?I s' \<and> ?Q s'"
  proof (rule repeat_while_ends [where f = "\<lambda>(a', w'). length (carry a' @ incoming w')"])
    show "?I (a, w)" using assms by (auto simp: all_def intro: exI [of _ 0])
  next
    fix s assume I: "?I s"
    obtain a1 w1 where s: "s = (a1, w1)" by (cases s)
    obtain k where k: "good w1" "carry_ok a1" "k \<le> length all" "k \<le> room w" "room w1 = room w - k"
      "outgoing w1 = outgoing w @ take k all" "carry a1 @ incoming w1 = drop k all"
      using I s by auto
    obtain a2 w2 where r: "echo_refill rd (a1, w1) = (Ok (carry a2 \<noteq> []), (a2, w2))"
      "carry a2 @ incoming w2 = carry a1 @ incoming w1" "outgoing w2 = outgoing w1" "room w2 = room w1" "good w2" "carry_ok a2"
      "carry a2 = [] \<longrightarrow> incoming w2 = []"
      using refill_ends [OF k(1,2)] by blast
    show "\<exists>b s'. Some (echo_round rd wr s) = Some (Ok b, s') \<and> ?I s' \<and>
        (b \<longrightarrow> (case s' of (a', w') \<Rightarrow> length (carry a' @ incoming w')) < (case s of (a', w') \<Rightarrow> length (carry a' @ incoming w'))) \<and>
        (\<not> b \<longrightarrow> ?Q s')"
    proof (cases "carry a2 = []")
      case True
      then show ?thesis using r k s
        by (intro exI [of _ False] exI [of _ "(a2, w2)"]) (auto simp: echo_round_def bnd_def ret_def intro!: exI [of _ k])
    next
      case False
      obtain a3 w3 where p: "echo_push wr (a2, w2) = (Ok (room w2 \<noteq> 0), (a3, w3))" "carry a3 = drop (room w2) (carry a2)"
        "incoming w3 = incoming w2" "outgoing w3 = outgoing w2 @ take (room w2) (carry a2)"
        "room w3 = room w2 - length (carry a2)" "good w3" "carry_ok a3"
        using push_ends [OF r(5,6) False] by blast
      let ?n = "min (room w2) (length (carry a2))"
      have rest: "drop k all = carry a2 @ incoming w2" using k(7) r(2) by simp
      have len: "length all = k + length (carry a2 @ incoming w2)" using rest k(3) by (metis length_drop le_add_diff_inverse)
      have t: "take (k + ?n) all = take k all @ take (room w2) (carry a2)"
        unfolding take_add rest by (simp add: min_def)
      have d: "drop (k + ?n) all = carry a3 @ incoming w3"
        unfolding drop_drop [symmetric, of ?n k all, simplified add.commute] rest p(2,3)
        by (simp add: min_def add.commute)
      have le: "length (carry a3 @ incoming w3) + ?n = length (carry a1 @ incoming w1)"
        using arg_cong [OF r(2), of length] p(2,3) by simp
      then have dec: "room w2 \<noteq> 0 \<Longrightarrow> length (carry a3) + length (incoming w3) < length (carry a1) + length (incoming w1)"
        using False by (cases "carry a2") (auto simp: min_def split: if_splits)
      show ?thesis
        using p(1,6,7) r(3,4) k s t d len dec False p(4,5)
        by (intro exI [of _ "room w2 \<noteq> 0"] exI [of _ "(a3, w3)"])
          (auto simp: echo_round_def bnd_def ret_def r(1) intro!: exI [of _ "k + ?n"])
    qed
  qed
  then obtain s' where s': "echo_drain rd wr (a, w) = Some (Ok (), s')" "?I s'" "?Q s'"
    unfolding echo_drain_def by blast
  obtain a' w' where p: "s' = (a', w')" by (cases s')
  obtain k where e: "echo_drain rd wr (a, w) = Some (Ok (), (a', w'))" "good w'" "carry_ok a'"
    "k \<le> length all" "k \<le> room w" "room w' = room w - k" "outgoing w' = outgoing w @ take k all"
    "carry a' @ incoming w' = drop k all" "carry a' @ incoming w' = [] \<or> room w' = 0"
    using s' unfolding p by blast
  have "k = room w \<or> k = length all" using e(4-6,8,9) by auto
  then have "take k all = take (room w) all" "drop k all = drop (room w) all" using e(5) by auto
  with e show ?thesis unfolding all_def [symmetric] by (intro exI [of _ a'] exI [of _ w']) simp
qed

end

subsection \<open>The UDP echo\<close>

record echo_app = carry_buf +
  led_on :: bool
  udp_buf :: bytes
  udp_pending :: "(nat \<times> socket_addr) option"

text \<open>The datagram carried over from an earlier wake goes first; \<open>Ok False\<close> is the \<^verbatim>\<open>break\<close>.\<close>

definition udp_flush :: "(bytes \<Rightarrow> socket_addr \<Rightarrow> ('w, nat) sm) \<Rightarrow> (echo_app \<times> 'w, bool) sm" where
  "udp_flush send = (\<lambda>(a, w).
     case udp_pending a of
       None \<Rightarrow> (Ok True, (a, w))
     | Some (n, peer) \<Rightarrow>
         if n \<le> length (udp_buf a) then
           (case unwrap_or 0 (send (take n (udp_buf a)) peer) w of
              (Ok m, w') \<Rightarrow> if m = 0 then (Ok False, (a, w')) else (Ok True, (a\<lparr>udp_pending := None\<rparr>, w'))
            | (Err e, w') \<Rightarrow> (Err e, (a, w'))
            | (Panic, w') \<Rightarrow> (Panic, (a, w')))
         else (Panic, (a, w)))"

definition udp_bounce ::
  "(nat \<Rightarrow> 'w \<Rightarrow> ((bytes \<times> socket_addr) option res \<times> 'w) option) \<Rightarrow> (bytes \<Rightarrow> socket_addr \<Rightarrow> ('w, nat) sm) \<Rightarrow>
     echo_app \<times> 'w \<Rightarrow> (bool res \<times> echo_app \<times> 'w) option" where
  "udp_bounce recv send = (\<lambda>(a, w).
     case recv (length (udp_buf a)) w of
       None \<Rightarrow> None
     | Some (Ok (Some (xs, peer)), w1) \<Rightarrow>
         (let a1 = a\<lparr>udp_buf := copy_at 0 xs (udp_buf a)\<rparr>; n = length xs in
          if n \<le> length (udp_buf a1) then
            (case unwrap_or 0 (send (take n (udp_buf a1)) peer) w1 of
               (Ok m, w2) \<Rightarrow>
                 if m = 0 then Some (Ok False, (a1\<lparr>udp_pending := Some (n, peer)\<rparr>, w2)) else Some (Ok True, (a1, w2))
             | (Err e, w2) \<Rightarrow> Some (Err e, (a1, w2))
             | (Panic, w2) \<Rightarrow> Some (Panic, (a1, w2)))
          else Some (Panic, (a1, w1)))
     | Some (Panic, w1) \<Rightarrow> Some (Panic, (a, w1))
     | Some (_, w1) \<Rightarrow> Some (Ok False, (a, w1)))"

definition udp_round ::
  "(nat \<Rightarrow> 'w \<Rightarrow> ((bytes \<times> socket_addr) option res \<times> 'w) option) \<Rightarrow> (bytes \<Rightarrow> socket_addr \<Rightarrow> ('w, nat) sm) \<Rightarrow>
     echo_app \<times> 'w \<Rightarrow> (bool res \<times> echo_app \<times> 'w) option" where
  "udp_round recv send s =
     (case udp_flush send s of
        (Ok go, s1) \<Rightarrow> if go then udp_bounce recv send s1 else Some (Ok False, s1)
      | (Err e, s1) \<Rightarrow> Some (Err e, s1)
      | (Panic, s1) \<Rightarrow> Some (Panic, s1))"

definition udp_drain ::
  "(nat \<Rightarrow> 'w \<Rightarrow> ((bytes \<times> socket_addr) option res \<times> 'w) option) \<Rightarrow> (bytes \<Rightarrow> socket_addr \<Rightarrow> ('w, nat) sm) \<Rightarrow>
     echo_app \<times> 'w \<Rightarrow> (unit res \<times> echo_app \<times> 'w) option" where
  "udp_drain recv send = repeat_while (udp_round recv send)"

text \<open>The reference: datagrams are moved in order as long as the next one fits.\<close>

fun dq_move :: "nat \<Rightarrow> datagram list \<Rightarrow> datagram list \<Rightarrow> datagram list \<times> datagram list" where
  "dq_move n es [] = (es, [])"
| "dq_move n es (d # ds) =
     (if length (framed es) + FRAME_HEADER + length (snd d) \<le> n then dq_move n (es @ [d]) ds else (es, d # ds))"

definition pend :: "echo_app \<Rightarrow> datagram list" where
  "pend a = (case udp_pending a of None \<Rightarrow> [] | Some (n, peer) \<Rightarrow> [(peer, take n (udp_buf a))])"

definition cut :: "echo_app \<Rightarrow> datagram list \<Rightarrow> datagram list" where
  "cut a = map (\<lambda>(peer, xs). (peer, take (length (udp_buf a)) xs))"

definition udp_app_ok :: "echo_app \<Rightarrow> bool" where
  "udp_app_ok a \<longleftrightarrow> udp_buf a \<noteq> [] \<and> length (udp_buf a) < 2 ^ 16 \<and>
     (\<forall>n peer. udp_pending a = Some (n, peer) \<longrightarrow> 0 < n \<and> n \<le> length (udp_buf a))"

text \<open>What a datagram handle promises: it is a pair of bounded queues of datagrams.\<close>

locale datagram_handle =
  fixes recv :: "nat \<Rightarrow> 'w \<Rightarrow> ((bytes \<times> socket_addr) option res \<times> 'w) option"
    and send :: "bytes \<Rightarrow> socket_addr \<Rightarrow> ('w, nat) sm"
    and queues :: "nat \<Rightarrow> datagram list \<Rightarrow> datagram list \<Rightarrow> 'w \<Rightarrow> bool"
  assumes handle_recv: "queues N ds es w \<Longrightarrow>
      \<exists>w'. recv k w = Some (Ok (fst (dq_recv k ds)), w') \<and> queues N (snd (dq_recv k ds)) es w'"
    and handle_send: "queues N ds es w \<Longrightarrow> length src < 2 ^ 16 \<Longrightarrow>
      \<exists>w'. send src peer w = (Ok (fst (dq_send N src peer es)), w') \<and> queues N ds (snd (dq_send N src peer es)) w'"
begin

lemma flush_ends:
  assumes "queues N ds es w" "udp_app_ok a"
  shows "\<exists>b a' w' es'. udp_flush send (a, w) = (Ok b, (a', w')) \<and> queues N ds es' w' \<and> udp_app_ok a' \<and>
    length (udp_buf a') = length (udp_buf a) \<and> dq_move N es (pend a @ X) = dq_move N es' (pend a' @ X) \<and>
    (b \<longrightarrow> udp_pending a' = None) \<and> (\<not> b \<longrightarrow> dq_move N es' (pend a' @ X) = (es', pend a' @ X)) \<and>
    length (pend a') \<le> length (pend a)"
proof (cases "udp_pending a")
  case None
  then show ?thesis using assms by (intro exI [of _ True] exI [of _ a] exI [of _ w] exI [of _ es]) (simp add: udp_flush_def)
next
  case (Some np)
  then obtain n peer where np: "udp_pending a = Some (n, peer)" by (cases np) auto
  have n: "0 < n" "n \<le> length (udp_buf a)" "length (udp_buf a) < 2 ^ 16" using assms(2) np by (auto simp: udp_app_ok_def)
  let ?x = "take n (udp_buf a)"
  have "length ?x < 2 ^ 16" using n by simp
  from handle_send [OF assms(1) this, of peer] obtain w' where
    w': "send ?x peer w = (Ok (fst (dq_send N ?x peer es)), w')" "queues N ds (snd (dq_send N ?x peer es)) w'" by blast
  have p: "pend a = [(peer, ?x)]" by (simp add: pend_def np)
  have ok: "udp_app_ok (a\<lparr>udp_pending := None\<rparr>)" using assms(2) by (simp add: udp_app_ok_def)
  show ?thesis
  proof (cases "length (framed es) + FRAME_HEADER + length ?x \<le> N")
    case True
    then show ?thesis using w' np n p ok
      by (intro exI [of _ True] exI [of _ "a\<lparr>udp_pending := None\<rparr>"] exI [of _ w'] exI [of _ "es @ [(peer, ?x)]"])
        (simp add: udp_flush_def unwrap_or_def dq_send_def, simp add: pend_def)
  next
    case False
    then show ?thesis using w' np n p assms(2)
      by (intro exI [of _ False] exI [of _ a] exI [of _ w'] exI [of _ es])
        (simp add: udp_flush_def unwrap_or_def dq_send_def)
  qed
qed

lemma bounce_ends:
  assumes "queues N ds es w" "udp_app_ok a" "udp_pending a = None" "\<forall>d \<in> set ds. snd d \<noteq> []"
  shows "\<exists>b a' w' es' ds'. udp_bounce recv send (a, w) = Some (Ok b, (a', w')) \<and> queues N ds' es' w' \<and> udp_app_ok a' \<and>
    length (udp_buf a') = length (udp_buf a) \<and> (\<forall>d \<in> set ds'. snd d \<noteq> []) \<and>
    dq_move N es (cut a ds) = dq_move N es' (pend a' @ cut a' ds') \<and>
    (b \<longrightarrow> length (pend a') + length ds' < length ds) \<and>
    (\<not> b \<longrightarrow> dq_move N es' (pend a' @ cut a' ds') = (es', pend a' @ cut a' ds'))"
proof (cases ds)
  case Nil
  from handle_recv [OF assms(1)] Nil obtain w' where "recv (length (udp_buf a)) w = Some (Ok None, w')" "queues N [] es w'"
    by auto
  then show ?thesis using Nil assms(2,3)
    by (intro exI [of _ False] exI [of _ a] exI [of _ w'] exI [of _ es] exI [of _ "[]"])
      (simp add: udp_bounce_def cut_def pend_def)
next
  case (Cons d rest)
  let ?k = "length (udp_buf a)" and ?peer = "fst d"
  let ?x = "take ?k (snd d)"
  obtain w1 where w1: "recv ?k w = Some (Ok (Some (?x, ?peer)), w1)" "queues N rest es w1"
    using handle_recv [OF assms(1), of ?k] Cons by auto
  have k: "0 < ?k" "?k < 2 ^ 16" using assms(2) by (auto simp: udp_app_ok_def)
  then have x: "0 < length ?x" "length ?x < 2 ^ 16" "length ?x \<le> ?k" using assms(4) Cons by auto
  from handle_send [OF w1(2) x(2), of ?peer] obtain w2 where
    w2: "send ?x ?peer w1 = (Ok (fst (dq_send N ?x ?peer es)), w2)" "queues N rest (snd (dq_send N ?x ?peer es)) w2" by blast
  let ?a1 = "a\<lparr>udp_buf := copy_at 0 ?x (udp_buf a)\<rparr>"
  have a1: "length (udp_buf ?a1) = ?k" "take (length ?x) (udp_buf ?a1) = ?x"
    using x(3) by (simp_all add: copy_at_def min_def)
  then have ne: "udp_buf ?a1 \<noteq> []" using k(1) by force
  have cut: "cut a ds = (?peer, ?x) # cut ?a1 rest" using Cons a1(1) by (simp add: cut_def case_prod_beta)
  have ok: "udp_app_ok ?a1" "udp_app_ok (?a1\<lparr>udp_pending := Some (length ?x, ?peer)\<rparr>)"
    using assms(2,3) a1(1) ne x(1,3) by (simp_all add: udp_app_ok_def)
  have rest: "\<forall>d \<in> set rest. snd d \<noteq> []" using assms(4) Cons by simp
  have run: "udp_bounce recv send (a, w) =
      (if fst (dq_send N ?x ?peer es) = 0 then Some (Ok False, (?a1\<lparr>udp_pending := Some (length ?x, ?peer)\<rparr>, w2))
       else Some (Ok True, (?a1, w2)))"
    using w1(1) w2(1) a1 x(3) unfolding udp_bounce_def unwrap_or_def Let_def by simp
  show ?thesis
  proof (cases "length (framed es) + FRAME_HEADER + length ?x \<le> N")
    case True
    then show ?thesis using run w2(2) x(1) ok(1) a1(1) rest cut Cons assms(3)
      by (intro exI [of _ True] exI [of _ ?a1] exI [of _ w2] exI [of _ "es @ [(?peer, ?x)]"] exI [of _ rest])
        (simp add: dq_send_def pend_def)
  next
    case False
    have "pend (?a1\<lparr>udp_pending := Some (length ?x, ?peer)\<rparr>) = [(?peer, ?x)]" using a1(2) by (simp add: pend_def)
    moreover have "cut (?a1\<lparr>udp_pending := Some (length ?x, ?peer)\<rparr>) rest = cut ?a1 rest" by (simp add: cut_def)
    ultimately show ?thesis using False run w2(2) ok(2) a1(1) rest cut
      by (intro exI [of _ False] exI [of _ "?a1\<lparr>udp_pending := Some (length ?x, ?peer)\<rparr>"] exI [of _ w2] exI [of _ es] exI [of _ rest])
        (simp add: dq_send_def)
  qed
qed

text \<open>The loop ends and moves exactly the datagrams the reference moves.\<close>

lemma udp_drain_ends:
  assumes "queues N ds es w" "udp_app_ok a" "\<forall>d \<in> set ds. snd d \<noteq> []"
  shows "\<exists>a' w' ds'. udp_drain recv send (a, w) = Some (Ok (), (a', w')) \<and> udp_app_ok a' \<and>
    queues N ds' (fst (dq_move N es (pend a @ cut a ds))) w' \<and>
    pend a' @ cut a' ds' = snd (dq_move N es (pend a @ cut a ds)) \<and> (\<forall>d \<in> set ds'. snd d \<noteq> [])"
proof -
  define goal where "goal = dq_move N es (pend a @ cut a ds)"
  let ?J = "\<lambda>s ds1 es1. queues N ds1 es1 (snd s) \<and> udp_app_ok (fst s) \<and> (\<forall>d \<in> set ds1. snd d \<noteq> []) \<and>
     dq_move N es1 (pend (fst s) @ cut (fst s) ds1) = goal"
  have run: "\<exists>s' ds' es'. repeat_while (udp_round recv send) s = Some (Ok (), s') \<and> ?J s' ds' es' \<and>
      goal = (es', pend (fst s') @ cut (fst s') ds')" if "?J s ds1 es1" for s ds1 es1
    using that
  proof (induction "length (pend (fst s)) + length ds1" arbitrary: s ds1 es1 rule: less_induct)
    case less
    obtain a1 w1 where s: "s = (a1, w1)" by (cases s)
    note J = less.prems [unfolded s fst_conv snd_conv]
    obtain b a2 w2 es2 where f: "udp_flush send (a1, w1) = (Ok b, (a2, w2))" "queues N ds1 es2 w2" "udp_app_ok a2"
      "length (udp_buf a2) = length (udp_buf a1)"
      "dq_move N es1 (pend a1 @ cut a1 ds1) = dq_move N es2 (pend a2 @ cut a1 ds1)" "b \<Longrightarrow> udp_pending a2 = None"
      "\<not> b \<Longrightarrow> dq_move N es2 (pend a2 @ cut a1 ds1) = (es2, pend a2 @ cut a1 ds1)" "length (pend a2) \<le> length (pend a1)"
      using flush_ends [of N ds1 es1 w1 a1 "cut a1 ds1"] J by blast
    have cut: "cut a2 = cut a1" using f(4) by (simp add: cut_def fun_eq_iff)
    show ?case
    proof (cases b)
      case False
      then show ?thesis using f J cut
        by (intro exI [of _ "(a2, w2)"] exI [of _ ds1] exI [of _ es2])
          (subst repeat_while.simps, simp add: s udp_round_def)
    next
      case True
      have p: "pend a2 = []" using f(6) True by (simp add: pend_def)
      obtain c a3 w3 es3 ds3 where g: "udp_bounce recv send (a2, w2) = Some (Ok c, (a3, w3))" "queues N ds3 es3 w3"
        "udp_app_ok a3" "\<forall>d \<in> set ds3. snd d \<noteq> []"
        "dq_move N es2 (cut a2 ds1) = dq_move N es3 (pend a3 @ cut a3 ds3)"
        "c \<Longrightarrow> length (pend a3) + length ds3 < length ds1"
        "\<not> c \<Longrightarrow> dq_move N es3 (pend a3 @ cut a3 ds3) = (es3, pend a3 @ cut a3 ds3)"
        using bounce_ends [OF f(2,3) f(6) [OF True]] J by blast
      have J3: "?J (a3, w3) ds3 es3" using g J f(5) p cut by simp
      have round: "udp_round recv send s = Some (Ok c, (a3, w3))" using f(1) g(1) True by (simp add: s udp_round_def)
      show ?thesis
      proof (cases c)
        case False
        then show ?thesis using J3 g(7) round
          by (intro exI [of _ "(a3, w3)"] exI [of _ ds3] exI [of _ es3]) (subst repeat_while.simps, simp)
      next
        case True
        with g(6) s have "length (pend (fst (a3, w3))) + length ds3 < length (pend (fst s)) + length ds1" by simp
        from less.hyps [OF this J3] True round show ?thesis by (subst repeat_while.simps) simp
      qed
    qed
  qed
  have start: "?J (a, w) ds es" using assms by (simp add: goal_def)
  from run [OF start] obtain s' ds' es' where
    r: "repeat_while (udp_round recv send) (a, w) = Some (Ok (), s')" "?J s' ds' es'" "goal = (es', pend (fst s') @ cut (fst s') ds')"
    by blast
  then show ?thesis unfolding goal_def [symmetric]
    by (intro exI [of _ "fst s'"] exI [of _ "snd s'"] exI [of _ ds']) (simp add: udp_drain_def)
qed

text \<open>With an empty datagram pending the loop sends it again and stops there.\<close>

lemma udp_drain_stuck:
  assumes "queues N ds es w" "udp_pending a = Some (0, peer)"
  shows "\<exists>w'. udp_drain recv send (a, w) = Some (Ok (), (a, w')) \<and>
    queues N ds (if length (framed es) + FRAME_HEADER \<le> N then es @ [(peer, [])] else es) w'"
proof -
  obtain w' where "send [] peer w = (Ok (fst (dq_send N [] peer es)), w')" "queues N ds (snd (dq_send N [] peer es)) w'"
    using handle_send [OF assms(1), of "[]" peer] by auto
  then show ?thesis using assms(2)
    by (intro exI [of _ w'])
      (auto simp: udp_drain_def repeat_while.simps [of "udp_round recv send"] udp_round_def udp_flush_def unwrap_or_def dq_send_def)
qed

lemma udp_drain_empty:
  assumes "queues N ((peer, []) # ds) es w" "udp_pending a = None"
  shows "\<exists>w'. udp_drain recv send (a, w) = Some (Ok (), (a\<lparr>udp_pending := Some (0, peer)\<rparr>, w')) \<and>
    queues N ds (if length (framed es) + FRAME_HEADER \<le> N then es @ [(peer, [])] else es) w'"
proof -
  obtain w1 where w1: "recv (length (udp_buf a)) w = Some (Ok (Some ([], peer)), w1)" "queues N ds es w1"
    using handle_recv [OF assms(1), of "length (udp_buf a)"] by auto
  obtain w2 where w2: "send [] peer w1 = (Ok (fst (dq_send N [] peer es)), w2)" "queues N ds (snd (dq_send N [] peer es)) w2"
    using handle_send [OF w1(2), of "[]" peer] by auto
  have "a\<lparr>udp_buf := copy_at 0 [] (udp_buf a)\<rparr> = a" by (simp add: copy_at_def)
  with w1(1) w2 assms(2) show ?thesis
    by (intro exI [of _ w2])
      (auto simp: udp_drain_def repeat_while.simps [of "udp_round recv send"] udp_round_def udp_flush_def udp_bounce_def
        unwrap_or_def dq_send_def Let_def)
qed

end

subsection \<open>The handles of the driver\<close>

definition udp_handle_recv ::
  "nat \<Rightarrow> nat \<Rightarrow> ('d, 't, 'p) w6100 \<Rightarrow> ((bytes \<times> socket_addr) option res \<times> ('d, 't, 'p) w6100) option" where
  "udp_handle_recv j k w =
     (if j < length (sockets w) then
        (let s = sockets w ! j in
         (case udp_recv_from k (rx (sock_rings s)) of
            None \<Rightarrow> None
          | Some (r, q) \<Rightarrow>
              Some (r, w\<lparr>sockets := (sockets w)[j := s\<lparr>sock_rings := (sock_rings s)\<lparr>rx := q\<rparr>\<rparr>]\<rparr>)))
      else Some (Panic, w))"

definition udp_handle_send :: "nat \<Rightarrow> bytes \<Rightarrow> socket_addr \<Rightarrow> (('d, 't, 'p) w6100, nat) sm" where
  "udp_handle_send j src peer = on_socket j
     (zoom (\<lambda>s. tx (sock_rings s)) (\<lambda>r s. s\<lparr>sock_rings := (sock_rings s)\<lparr>tx := r\<rparr>\<rparr>) (udp_send_to src peer))"

definition slot_rings :: "nat \<Rightarrow> ('d, 't, 'p) w6100 \<Rightarrow> socket_rings" where
  "slot_rings i w = sock_rings (sockets w ! i)"

lemma w_inv_update:
  assumes "w_inv D L w" "j < 8" "sock_step (sockets w ! j) s'"
  shows "w_inv D L (w\<lparr>sockets := (sockets w)[j := s']\<rparr>)"
proof -
  have w: "length (sockets w) = 8" "socks_ok 0 (sockets w)" using assms(1) by (auto simp: w_inv_def rest_ok_def)
  have "socks_ok 0 ((sockets w)[j := s'])"
    by (rule socks_ok_update [OF w(2)]) (use w assms(2,3) in \<open>simp add: sock_ok_def sock_step_def socks_ok_nth\<close>)
  moreover have "op_ok L op ((sockets w)[j := s'])" if "op_ok L op (sockets w)" for op
    using that assms(2,3) w(1) by (cases "op_idx op = j") (auto simp: op_ok_def sock_step_def)
  ultimately show ?thesis using assms(1) w(1) by (auto simp: w_inv_def rest_ok_def split: option.splits)
qed

lemma slot_inv: "w_inv D L w \<Longrightarrow> i < 8 \<Longrightarrow> rings_inv (slot_rings i w) \<and> i < length (sockets w)"
  by (auto simp: w_inv_def rest_ok_def socks_ok_nth sock_ok_def slot_rings_def)

interpretation tcp_handle: stream_handle "\<lambda>n. on_socket i (tcp_read n)" "\<lambda>xs. on_socket i (tcp_write xs)"
  "\<lambda>w. contents (rx (slot_rings i w))" "\<lambda>w. contents (tx (slot_rings i w))" "\<lambda>w. free_space (tx (slot_rings i w))"
  "\<lambda>w. w_inv D L w \<and> i < 8" for i L and D :: "('d, 't) spi_dma_device"
proof
  fix w :: "('d, 't, 'p) w6100" and n assume w: "w_inv D L w \<and> i < 8"
  have ri: "rings_inv (slot_rings i w)" "i < length (sockets w)" using slot_inv w by blast+
  obtain q where q: "ring_read n (rx (slot_rings i w)) = (Ok (take n (contents (rx (slot_rings i w)))), q)"
    "contents q = drop n (contents (rx (slot_rings i w)))" "ring_inv q" "cap q = cap (rx (slot_rings i w))"
    using ring.fifo_read [of "rx (slot_rings i w)" n] ri(1) by (auto simp: rings_inv_def)
  let ?s = "(sockets w ! i)\<lparr>sock_rings := (slot_rings i w)\<lparr>rx := q\<rparr>\<rparr>"
  have "free_space (rx (slot_rings i w)) \<le> free_space q" using free_space_read [OF _ q(2-4)] ri(1) by (simp add: rings_inv_def)
  then have "sock_step (sockets w ! i) ?s" using ri(1) q(3) by (simp add: sock_step_def rings_inv_def slot_rings_def)
  from w_inv_update [OF _ _ this] w q ri(2)
  show "\<exists>w'. on_socket i (tcp_read n) w = (Ok (take n (contents (rx (slot_rings i w)))), w') \<and>
      contents (rx (slot_rings i w')) = drop n (contents (rx (slot_rings i w))) \<and>
      contents (tx (slot_rings i w')) = contents (tx (slot_rings i w)) \<and>
      free_space (tx (slot_rings i w')) = free_space (tx (slot_rings i w)) \<and> w_inv D L w' \<and> i < 8"
    by (simp add: on_socket_def tcp_read_def zoom_def slot_rings_def)
next
  fix w :: "('d, 't, 'p) w6100" and xs assume w: "w_inv D L w \<and> i < 8"
  have ri: "rings_inv (slot_rings i w)" "i < length (sockets w)" using slot_inv w by blast+
  obtain q where q: "ring_write xs (tx (slot_rings i w)) = (Ok (min (length xs) (free_space (tx (slot_rings i w)))), q)"
    "contents q = contents (tx (slot_rings i w)) @ take (free_space (tx (slot_rings i w))) xs" "ring_inv q" "cap q = cap (tx (slot_rings i w))"
    using ring.fifo_write [of "tx (slot_rings i w)" xs] ri(1) by (auto simp: rings_inv_def)
  have room: "free_space q = free_space (tx (slot_rings i w)) - length xs"
    using ring.fifo_room [OF q(3)] ring.fifo_room [of "tx (slot_rings i w)"] ri(1) q(2,4) by (auto simp: rings_inv_def)
  let ?s = "(sockets w ! i)\<lparr>sock_rings := (slot_rings i w)\<lparr>tx := q\<rparr>\<rparr>"
  have "sock_step (sockets w ! i) ?s" using ri(1) q(3) by (simp add: sock_step_def rings_inv_def slot_rings_def)
  from w_inv_update [OF _ _ this] w q ri(2) room
  show "\<exists>w'. on_socket i (tcp_write xs) w = (Ok (min (length xs) (free_space (tx (slot_rings i w)))), w') \<and>
      contents (rx (slot_rings i w')) = contents (rx (slot_rings i w)) \<and>
      contents (tx (slot_rings i w')) = contents (tx (slot_rings i w)) @ take (free_space (tx (slot_rings i w))) xs \<and>
      free_space (tx (slot_rings i w')) = free_space (tx (slot_rings i w)) - length xs \<and> w_inv D L w' \<and> i < 8"
    by (simp add: on_socket_def tcp_write_def zoom_def slot_rings_def)
qed

definition udp_queues ::
  "('d, 't) spi_dma_device \<Rightarrow> nat \<Rightarrow> nat \<Rightarrow> nat \<Rightarrow> datagram list \<Rightarrow> datagram list \<Rightarrow> ('d, 't, 'p) w6100 \<Rightarrow> bool" where
  "udp_queues D L j N ds es w \<longleftrightarrow> w_inv D L w \<and> j < 8 \<and> udp_ring ds (rx (slot_rings j w)) \<and>
     udp_ring es (tx (slot_rings j w)) \<and> cap (tx (slot_rings j w)) = N"

lemma framed_shrinks: "length (framed (snd (dq_recv k ds))) \<le> length (framed ds)"
  by (cases ds) auto

interpretation udp_handle: datagram_handle "udp_handle_recv j" "udp_handle_send j" "udp_queues D L j"
  for j L and D :: "('d, 't) spi_dma_device"
proof
  fix N ds es k and w :: "('d, 't, 'p) w6100" assume q: "udp_queues D L j N ds es w"
  have ri: "rings_inv (slot_rings j w)" "j < length (sockets w)" "w_inv D L w" "j < 8"
    using q slot_inv [of D L w j] by (auto simp: udp_queues_def)
  have r0: "udp_ring ds (rx (slot_rings j w))" using q by (simp add: udp_queues_def)
  obtain r where r: "udp_recv_from k (rx (slot_rings j w)) = Some (Ok (fst (dq_recv k ds)), r)" "udp_ring (snd (dq_recv k ds)) r"
    "cap r = cap (rx (slot_rings j w))"
    using udp_recv_from_spec [OF r0, of k] by blast
  let ?s = "(sockets w ! j)\<lparr>sock_rings := (slot_rings j w)\<lparr>rx := r\<rparr>\<rparr>"
  have "free_space (rx (slot_rings j w)) \<le> free_space r"
    using ring.fifo_room [of r] ring.fifo_room [of "rx (slot_rings j w)"] r(2,3) r0 framed_shrinks [of k ds]
      udp_ring_len [OF r(2)] udp_ring_len [OF r0]
    by (auto simp: udp_ring_def)
  then have "sock_step (sockets w ! j) ?s" using ri(1) r(2) by (simp add: sock_step_def rings_inv_def slot_rings_def udp_ring_def)
  from w_inv_update [OF ri(3,4) this] q r ri(2)
  show "\<exists>w'. udp_handle_recv j k w = Some (Ok (fst (dq_recv k ds)), w') \<and> udp_queues D L j N (snd (dq_recv k ds)) es w'"
    by (simp add: udp_handle_recv_def Let_def udp_queues_def slot_rings_def)
next
  fix N ds es and w :: "('d, 't, 'p) w6100" and src :: bytes and peer
  assume q: "udp_queues D L j N ds es w" and l: "length src < 2 ^ 16"
  have ri: "rings_inv (slot_rings j w)" "j < length (sockets w)" "w_inv D L w" "j < 8"
    using q slot_inv [of D L w j] by (auto simp: udp_queues_def)
  have r0: "udp_ring es (tx (slot_rings j w))" "cap (tx (slot_rings j w)) = N" using q by (simp_all add: udp_queues_def)
  obtain r where r: "udp_send_to src peer (tx (slot_rings j w)) = (Ok (fst (dq_send N src peer es)), r)"
    "udp_ring (snd (dq_send N src peer es)) r" "cap r = N"
    using udp_send_to_spec [OF r0(1) l, of peer] r0(2) by auto
  let ?s = "(sockets w ! j)\<lparr>sock_rings := (slot_rings j w)\<lparr>tx := r\<rparr>\<rparr>"
  have "sock_step (sockets w ! j) ?s" using ri(1) r(2) by (simp add: sock_step_def rings_inv_def slot_rings_def udp_ring_def)
  from w_inv_update [OF ri(3,4) this] q r ri(2)
  show "\<exists>w'. udp_handle_send j src peer w = (Ok (fst (dq_send N src peer es)), w') \<and>
      udp_queues D L j N ds (snd (dq_send N src peer es)) w'"
    by (simp add: udp_handle_send_def on_socket_def zoom_def udp_queues_def slot_rings_def)
qed


definition tcp_drain ::
  "nat \<Rightarrow> 'x carry_buf_scheme \<times> ('d, 't, 'p) w6100 \<Rightarrow> (unit res \<times> 'x carry_buf_scheme \<times> ('d, 't, 'p) w6100) option" where
  "tcp_drain i = echo_drain (\<lambda>n. on_socket i (tcp_read n)) (\<lambda>xs. on_socket i (tcp_write xs))"

subsection \<open>Properties\<close>

text \<open>
  C15. The TCP echo loop of \<^verbatim>\<open>main\<close> ends and echoes exactly. Whatever the carry-over of the
  previous wake, one run of the loop appends to the transmit ring as many bytes as it has
  room for, taken in order from the carry-over followed by the receive ring, and keeps all
  the others; it never panics and disturbs no invariant of the driver.
\<close>

theorem tcp_echo_exact:
  assumes "w_inv D L w" "i < 8" "carry_ok a"
  shows "\<exists>a' w'. tcp_drain i (a, w) = Some (Ok (), (a', w')) \<and> w_inv D L w' \<and> carry_ok a' \<and>
    contents (tx (slot_rings i w')) = contents (tx (slot_rings i w)) @
      take (free_space (tx (slot_rings i w))) (carry a @ contents (rx (slot_rings i w))) \<and>
    carry a' @ contents (rx (slot_rings i w')) =
      drop (free_space (tx (slot_rings i w))) (carry a @ contents (rx (slot_rings i w)))"
  using tcp_handle.drain_ends [of D L w i a] assms unfolding tcp_drain_def by blast

definition tiny_carry :: carry_buf where
  "tiny_carry = \<lparr>app_buf = [4, 5, 6, 0], app_len = 3, app_off = 1\<rparr>"

theorem tcp_echo_exact_witness:
  "\<exists>a' w'. tcp_drain 0 (tiny_carry, tiny_w) = Some (Ok (), (a', w')) \<and> contents (tx (slot_rings 0 w')) = [5, 6] \<and>
     carry a' = []"
proof -
  have "carry_ok tiny_carry" "carry tiny_carry = [5, 6]" by (simp_all add: carry_ok_def carry_def tiny_carry_def)
  moreover have e: "contents (rx (slot_rings 0 tiny_w)) = []" "contents (tx (slot_rings 0 tiny_w)) = []"
    "free_space (tx (slot_rings 0 tiny_w)) = 4" by code_simp+
  ultimately show ?thesis using tcp_echo_exact [OF tiny_w_inv, of 0 tiny_carry] unfolding e by auto
qed


text \<open>A driver whose first slot holds one received datagram and room for it to go back.\<close>

definition dgram_rings :: "bytes \<Rightarrow> socket_rings" where
  "dgram_rings xs = \<lparr>rx = snd (udp_send_to xs \<lparr>ip = 7, port = 9\<rparr> (ring_install (replicate 16 0) ring_new)),
     tx = ring_install (replicate 16 0) ring_new\<rparr>"

definition dgram_w :: "bytes \<Rightarrow> (chip_state, chip_state \<times> dma_buffers, unit) w6100" where
  "dgram_w xs = \<lparr>device = cell_new \<lparr>transport = \<lparr>dev_cell = cell_new (Idle tiny_chip tiny_bufs)\<rparr>, rst = ()\<rparr>,
     mac = [1, 2, 3, 4, 5, 6], config = cell_new None, config_dirty = False, link_up = True,
     sockets = (make_socket 0)\<lparr>sock_rings := dgram_rings xs\<rparr> # map make_socket [1..<8], bulk = cell_new None\<rparr>"

lemma dgram_queues:
  assumes "length xs \<le> 8"
  shows "udp_queues chip 16 0 16 [(\<lparr>ip = 7, port = 9\<rparr>, xs)] [] (dgram_w xs)"
proof -
  let ?r = "ring_install (replicate 16 0) ring_new"
  have r: "udp_ring [] ?r" "cap ?r = 16" by (rule udp_ring_installed) (simp_all add: ring_install_def)
  have l: "length xs < 2 ^ 16" using assms by simp
  have rx: "udp_ring [(\<lparr>ip = 7, port = 9\<rparr>, xs)] (rx (dgram_rings xs))"
    using udp_send_to_spec [OF r(1) l, of "\<lparr>ip = 7, port = 9\<rparr>"] r(2) assms
    by (auto simp: dgram_rings_def dq_send_def FRAME_HEADER_def)
  have "rings_inv (dgram_rings xs)" using rx r(1) by (simp add: rings_inv_def udp_ring_def dgram_rings_def)
  moreover have "socks_ok 1 (map make_socket [1..<8])" by (rule socks_ok_new)
  ultimately have "w_inv chip 16 (dgram_w xs)"
    by (simp add: dgram_w_def w_inv_def rest_ok_def cell_new_def idle_def good_bufs_def tiny_bufs_def
        sock_ok_def make_socket_def backend_new_def del: upt_rec_numeral)
  then show ?thesis using rx r by (simp add: udp_queues_def slot_rings_def dgram_w_def dgram_rings_def)
qed

definition tiny_app :: echo_app where
  "tiny_app = \<lparr>app_buf = [0], app_len = 0, app_off = 0, led_on = False, udp_buf = [0, 0], udp_pending = None\<rparr>"


text \<open>
  C32. An empty datagram stops the UDP echo for good. \<^verbatim>\<open>send_to\<close> answers \<open>Ok 0\<close> for it even when it
  is queued, so \<^verbatim>\<open>main\<close> keeps it pending: from then on every wake queues one more copy whenever
  the ring has room, and receives nothing, whatever the driver delivers or sends in between.
\<close>

theorem udp_echo_stuck_on_empty:
  fixes w :: "('d, 't, 'p) w6100"
  assumes "udp_queues D L j N ((peer, []) # ds) es w" "udp_pending a = None"
  shows "\<exists>w1. udp_drain (udp_handle_recv j) (udp_handle_send j) (a, w) = Some (Ok (), (a\<lparr>udp_pending := Some (0, peer)\<rparr>, w1)) \<and>
    udp_queues D L j N ds (if length (framed es) + FRAME_HEADER \<le> N then es @ [(peer, [])] else es) w1 \<and>
    (\<forall>ds2 es2 (w2 :: ('d, 't, 'p) w6100). udp_queues D L j N ds2 es2 w2 \<longrightarrow>
       (\<exists>w3. udp_drain (udp_handle_recv j) (udp_handle_send j) (a\<lparr>udp_pending := Some (0, peer)\<rparr>, w2) =
            Some (Ok (), (a\<lparr>udp_pending := Some (0, peer)\<rparr>, w3)) \<and>
          udp_queues D L j N ds2 (if length (framed es2) + FRAME_HEADER \<le> N then es2 @ [(peer, [])] else es2) w3))"
proof -
  let ?a = "a\<lparr>udp_pending := Some (0, peer)\<rparr>"
  have "udp_pending ?a = Some (0, peer)" by simp
  with udp_handle.udp_drain_stuck [of D L j N _ _ _ ?a peer] udp_handle.udp_drain_empty [OF assms] show ?thesis by blast
qed

theorem udp_echo_stuck_on_empty_witness:
  "\<exists>w1 w2. udp_drain (udp_handle_recv 0) (udp_handle_send 0) (tiny_app, dgram_w []) =
       Some (Ok (), (tiny_app\<lparr>udp_pending := Some (0, \<lparr>ip = 7, port = 9\<rparr>)\<rparr>, w1)) \<and>
     udp_drain (udp_handle_recv 0) (udp_handle_send 0) (tiny_app\<lparr>udp_pending := Some (0, \<lparr>ip = 7, port = 9\<rparr>)\<rparr>, w1) =
       Some (Ok (), (tiny_app\<lparr>udp_pending := Some (0, \<lparr>ip = 7, port = 9\<rparr>)\<rparr>, w2)) \<and>
     udp_queues chip 16 0 16 [] [(\<lparr>ip = 7, port = 9\<rparr>, []), (\<lparr>ip = 7, port = 9\<rparr>, [])] w2"
proof -
  let ?p = "\<lparr>ip = 7, port = 9\<rparr>"
  have q: "udp_queues chip 16 0 16 [(?p, [])] [] (dgram_w [])" by (rule dgram_queues) simp
  have p: "udp_pending tiny_app = None" by (simp add: tiny_app_def)
  from udp_echo_stuck_on_empty [OF q p] obtain w1 where
    w1: "udp_drain (udp_handle_recv 0) (udp_handle_send 0) (tiny_app, dgram_w []) = Some (Ok (), (tiny_app\<lparr>udp_pending := Some (0, ?p)\<rparr>, w1))"
    "udp_queues chip 16 0 16 [] [(?p, [])] w1" and
    again: "\<And>ds2 es2 (w2 :: chip_driver). udp_queues chip 16 0 16 ds2 es2 w2 \<Longrightarrow>
      (\<exists>w3. udp_drain (udp_handle_recv 0) (udp_handle_send 0) (tiny_app\<lparr>udp_pending := Some (0, ?p)\<rparr>, w2) =
            Some (Ok (), (tiny_app\<lparr>udp_pending := Some (0, ?p)\<rparr>, w3)) \<and>
          udp_queues chip 16 0 16 ds2 (if length (framed es2) + FRAME_HEADER \<le> 16 then es2 @ [(?p, [])] else es2) w3)"
    by (auto simp: FRAME_HEADER_def)
  from again [OF w1(2)] w1(1) show ?thesis by (auto simp: FRAME_HEADER_def)
qed

end
