(* ===== verification/Echo_System.thy ===== *)
theory Echo_System
  imports Echo_App
begin

text \<open>
  The echo application on the driver on the chip model, in any interleaving, and the
  application loops that the integration tests run (\<^verbatim>\<open>wiznet-rs/tests/echo_harness.rs\<close>).
\<close>

subsection \<open>The echo server on the wire\<close>

text \<open>
  The steps of the whole system: what the driver, the peers and the other handles do, and the
  two halves of a round of the echo loop, so that interrupts may fall between any two ring
  operations; \<open>AppWake\<close> is an undisturbed run of the loop.
\<close>

datatype echo_event = Env sys_event | AppRefill | AppPush | AppWake

fun echo_exec :: "nat \<Rightarrow> echo_event \<Rightarrow> carry_buf \<times> session \<Rightarrow> carry_buf \<times> session" where
  "echo_exec i (Env e) (a, y) = (a, sys_exec i e y)"
| "echo_exec i AppRefill (a, y) =
     (case echo_refill (\<lambda>n. on_socket i (tcp_read n)) (a, drv y) of (_, (a', w)) \<Rightarrow> (a', y\<lparr>drv := w\<rparr>))"
| "echo_exec i AppPush (a, y) =
     (case echo_push (\<lambda>xs. on_socket i (tcp_write xs)) (a, drv y) of (_, (a', w)) \<Rightarrow> (a', y\<lparr>drv := w\<rparr>))"
| "echo_exec i AppWake (a, y) =
     (case tcp_drain i (a, drv y) of None \<Rightarrow> (a, y) | Some (_, (a', w)) \<Rightarrow> (a', y\<lparr>drv := w\<rparr>))"

text \<open>Nobody else reads or writes the echo socket.\<close>

fun echo_ok :: "nat \<Rightarrow> echo_event \<Rightarrow> bool" where
  "echo_ok i (Env e) \<longleftrightarrow> event_ok i e \<and> (\<forall>n. e \<noteq> Call (CReadRx i n)) \<and> (\<forall>xs. e \<noteq> Call (CWriteTx i xs))"
| "echo_ok i _ \<longleftrightarrow> True"

fun echo_run :: "nat \<Rightarrow> echo_event list \<Rightarrow> carry_buf \<times> session \<Rightarrow> carry_buf \<times> session" where
  "echo_run i [] s = s"
| "echo_run i (e # es) s = echo_run i es (echo_exec i e s)"

lemma sys_exec_logs:
  "drv (sys_exec i e (y\<lparr>to_app := T, from_app := A\<rparr>)) = drv (sys_exec i e y)"
  "from_peer (sys_exec i e (y\<lparr>to_app := T, from_app := A\<rparr>)) = from_peer (sys_exec i e y)"
  by (cases "(i, e, y)" rule: sys_exec.cases; simp split: prod.split res.split option.split)+

lemma sys_exec_log_only:
  assumes "\<forall>n. e \<noteq> Call (CReadRx i n)" "\<forall>xs. e \<noteq> Call (CWriteTx i xs)"
  shows "to_app (sys_exec i e y) = to_app y" "from_app (sys_exec i e y) = from_app y"
  using assms by (cases "(i, e, y)" rule: sys_exec.cases; auto split: prod.split res.split option.split)+

definition echoed :: "nat \<Rightarrow> nat \<Rightarrow> carry_buf \<times> session \<Rightarrow> bool" where
  "echoed L i s \<longleftrightarrow> carry_ok (fst s) \<and>
     (\<exists>A R. carried L i A R (drv (snd s)) \<and> from_peer (snd s) = A @ carry (fst s) @ R)"

lemma echo_env:
  assumes "67 \<le> L" "i < 8" "echo_ok i (Env e)" "echoed L i (a, y)"
  shows "echoed L i (a, sys_exec i e y)"
proof -
  obtain A R where c: "carried L i A R (drv y)" "from_peer y = A @ carry a @ R" "carry_ok a"
    using assms(4) by (auto simp: echoed_def)
  let ?y = "y\<lparr>to_app := A @ carry a, from_app := A\<rparr>"
  have "\<exists>R'. carried L i (from_app (sys_exec i e ?y)) R' (drv (sys_exec i e ?y)) \<and>
      from_peer (sys_exec i e ?y) = to_app (sys_exec i e ?y) @ R'"
    by (rule exec_event [OF assms(1,2)]) (use assms(3) c in simp_all)
  moreover have "to_app (sys_exec i e ?y) = A @ carry a" "from_app (sys_exec i e ?y) = A"
    using sys_exec_log_only [of e i ?y] assms(3) by auto
  ultimately show ?thesis using c(3) by (auto simp: echoed_def sys_exec_logs)
qed

lemma echo_fill:
  assumes "i < 8" "echoed L i (a, y)" "echo_refill (\<lambda>n. on_socket i (tcp_read n)) (a, drv y) = (r, (a', w))"
  shows "echoed L i (a', y\<lparr>drv := w\<rparr>)"
proof -
  obtain A R where c: "carried L i A R (drv y)" "from_peer y = A @ carry a @ R" "carry_ok a"
    using assms(2) by (auto simp: echoed_def)
  show ?thesis
  proof (cases "app_off a = app_len a")
    case True
    obtain xs w' R' where r: "on_socket i (tcp_read (length (app_buf a))) (drv y) = (Ok xs, w')" "R = xs @ R'" "carried L i A R' w'"
      using read_carried [OF assms(1,1) c(1), of "length (app_buf a)"] by auto
    have "length xs \<le> length (app_buf a)"
      using tcp_handle.handle_read [of chip L "drv y" i "length (app_buf a)"] r(1) carried_inv [OF c(1)] assms(1) by auto
    moreover have "app_buf a \<noteq> []" using c(3) by (simp add: carry_ok_def)
    ultimately have f: "carry (a\<lparr>app_buf := copy_at 0 xs (app_buf a), app_len := length xs, app_off := 0\<rparr>) = xs"
      "carry_ok (a\<lparr>app_buf := copy_at 0 xs (app_buf a), app_len := length xs, app_off := 0\<rparr>)"
      using carry_fill by blast+
    have e: "carry a = []" using True by (simp add: carry_def)
    have "a' = a\<lparr>app_buf := copy_at 0 xs (app_buf a), app_len := length xs, app_off := 0\<rparr>" "w = w'"
      using assms(3) r(1) True by (auto simp: echo_refill_def unwrap_or_def)
    then show ?thesis using f r(2,3) c(2) e by (auto simp: echoed_def)
  next
    case False
    then show ?thesis using assms(2,3) by (auto simp: echo_refill_def)
  qed
qed

lemma echo_drain_half:
  assumes "i < 8" "echoed L i (a, y)" "echo_push (\<lambda>xs. on_socket i (tcp_write xs)) (a, drv y) = (r, (a', w))"
  shows "echoed L i (a', y\<lparr>drv := w\<rparr>)"
proof -
  obtain A R where c: "carried L i A R (drv y)" "from_peer y = A @ carry a @ R" "carry_ok a"
    using assms(2) by (auto simp: echoed_def)
  obtain n w' where n: "on_socket i (tcp_write (carry a)) (drv y) = (Ok n, w')" "carried L i (A @ take n (carry a)) R w'"
    using write_carried [OF assms(1,1) c(1), of "carry a"] by auto
  have "n \<le> length (carry a)"
    using tcp_handle.handle_write [of chip L "drv y" i "carry a"] n(1) carried_inv [OF c(1)] assms(1) by auto
  note s = carry_step [OF c(3) this]
  have "a' = a\<lparr>app_off := app_off a + n\<rparr>" "w = w'"
    using assms(3) n(1) c(3) by (auto simp: echo_push_def unwrap_or_def carry_ok_def carry_def)
  moreover have "A @ carry a @ R = (A @ take n (carry a)) @ drop n (carry a) @ R" by simp
  ultimately show ?thesis using s n(2) c(2) unfolding echoed_def fst_conv snd_conv by fastforce
qed

text \<open>An undisturbed run of the loop is a sequence of rounds, each of them two such steps.\<close>

lemma echo_round_keeps:
  assumes "i < 8" "echoed L i (a, y)"
    "echo_round (\<lambda>n. on_socket i (tcp_read n)) (\<lambda>xs. on_socket i (tcp_write xs)) (a, drv y) = (r, (a', w))"
  shows "echoed L i (a', y\<lparr>drv := w\<rparr>)"
proof -
  obtain r1 a1 w1 where f: "echo_refill (\<lambda>n. on_socket i (tcp_read n)) (a, drv y) = (r1, (a1, w1))" by (metis prod_cases3)
  have 1: "echoed L i (a1, y\<lparr>drv := w1\<rparr>)" by (rule echo_fill [OF assms(1,2) f])
  obtain r2 a2 w2 where p: "echo_push (\<lambda>xs. on_socket i (tcp_write xs)) (a1, w1) = (r2, (a2, w2))" by (metis prod_cases3)
  have "echoed L i (a2, y\<lparr>drv := w1, drv := w2\<rparr>)" by (rule echo_drain_half [OF assms(1) 1]) (use p in simp)
  with 1 assms(3) f p show ?thesis by (auto simp: echo_round_def bnd_def ret_def split: res.splits if_splits)
qed

lemma echo_wake:
  assumes "i < 8" "echoed L i (a, y)" "tcp_drain i (a, drv y) = Some (r, (a', w))"
  shows "echoed L i (a', y\<lparr>drv := w\<rparr>)"
proof -
  let ?I = "\<lambda>(a, w). echoed L i (a, y\<lparr>drv := w\<rparr>)"
  have "?I (snd (r, (a', w)))"
    by (rule repeat_while_keeps [OF assms(3) [unfolded tcp_drain_def echo_drain_def]])
      (use assms(2) echo_round_keeps [OF assms(1), of L _ "y\<lparr>drv := _\<rparr>"] in auto)
  then show ?thesis by simp
qed

lemma echo_exec_keeps:
  assumes "67 \<le> L" "i < 8" "echo_ok i e" "echoed L i s"
  shows "echoed L i (echo_exec i e s)"
proof -
  obtain a y where s: "s = (a, y)" by (cases s)
  show ?thesis
    using assms echo_env [OF assms(1,2)] echo_fill [OF assms(2)] echo_drain_half [OF assms(2)] echo_wake [OF assms(2)]
    unfolding s by (cases e) (auto split: prod.split option.split)
qed

lemma echo_run_keeps:
  assumes "67 \<le> L" "i < 8" "\<forall>e \<in> set es. echo_ok i e" "echoed L i s"
  shows "echoed L i (echo_run i es s)"
  using assms(3,4) echo_exec_keeps [OF assms(1,2)] by (induction es arbitrary: s) (simp_all del: split_paired_All)

text \<open>
  C3. Within one session the echo server returns the peer's own bytes. Open a listener on a new
  driver; in every interleaving of the echo loop, the interrupts, the other handles and the peers,
  as long as the chip is not reset and the echo socket neither reconnected nor dropped (a
  reconnect begins a new session, and does not begin it clean: \<open>reconnect_keeps_stale_bytes\<close>),
  what the peer sent is exactly what has gone out on the wire, then a transmission in flight, the
  transmit ring, the carry-over of the application, the receive ring and the chip's FIFO, in this
  order. So what is on the wire is a prefix of what the peer sent.
\<close>

theorem echo_end_to_end:
  assumes "67 \<le> L" "length (rx_buf b) = L" "length (tx_buf b) = L" "length m = 6"
    "w6100_new chip mock_pin chip_new () b m = Ok w0" "buffer_ok rxb" "buffer_ok txb"
    "open_tcp_listen p rxb txb w0 = (Ok i, w)" "carry_ok a0" "carry a0 = []"
    "\<forall>e \<in> set es. echo_ok i e" "(a, y) = echo_run i es (a0, session_start w)"
  shows "\<exists>c. chip_of (drv y) = Some c \<and> prefix (sent c ! i) (from_peer y) \<and>
    from_peer y = sent c ! i @ concat (outgoing i (drv y) c) @ contents (tx (slot_rings i (drv y))) @ carry a @
      contents (rx (slot_rings i (drv y))) @ fifo (srx (csockets c ! i))"
proof -
  have start: "i < 8" "carried L i [] [] w"
    using open_starts [OF assms(1-7)] assms(8) by (auto simp: open_tcp_listen_def)
  have "echoed L i (echo_run i es (a0, session_start w))"
    by (rule echo_run_keeps [OF assms(1) start(1) assms(11)])
      (use start assms(9,10) in \<open>auto simp: echoed_def session_start_def\<close>)
  then have e: "echoed L i (a, y)" unfolding assms(12) .
  then obtain A R where c: "carried L i A R (drv y)" "from_peer y = A @ carry a @ R" by (auto simp: echoed_def)
  from carried_observed [OF start(1) c(1)] obtain c where o: "chip_of (drv y) = Some c" "prefix (sent c ! i) A"
    "R = contents (rx (slot_rings i (drv y))) @ fifo (srx (csockets c ! i))"
    "A = sent c ! i @ concat (outgoing i (drv y) c) @ contents (tx (slot_rings i (drv y)))"
    by (auto simp: slot_rings_def)
  have "prefix (sent c ! i) (from_peer y)" using o(2) c(2) by simp
  with o c(2) show ?thesis by auto
qed

definition echo_demo :: "echo_event list" where
  "echo_demo = [Env (Call CService), Env (PeerConnect 0), Env (PeerSend 0 [1, 2, 3]), Env (Call CService), AppRefill,
     Env (Call CDmaComplete), AppWake, Env (Call CService), Env (Call CDmaComplete), AppPush]"

theorem echo_end_to_end_witness:
  "\<exists>w0 w c. w6100_new chip mock_pin chip_new () line_bufs line_mac = Ok w0 \<and>
     open_tcp_listen 5555 (replicate 4 0) (replicate 4 0) w0 = (Ok 0, w) \<and>
     chip_of (drv (snd (echo_run 0 echo_demo (tiny_carry\<lparr>app_len := 0, app_off := 0\<rparr>, session_start w)))) = Some c \<and>
     prefix (sent c ! 0) (from_peer (snd (echo_run 0 echo_demo (tiny_carry\<lparr>app_len := 0, app_off := 0\<rparr>, session_start w))))"
proof -
  have b: "buffer_ok (replicate 4 0)" by (simp add: buffer_ok_def)
  obtain w0 w where w: "w6100_new chip mock_pin chip_new () line_bufs line_mac = Ok w0"
    "open_tcp_listen 5555 (replicate 4 0) (replicate 4 0) w0 = (Ok 0, w)"
    using open_loop_on_new unfolding open_tcp_listen_def by blast
  let ?a = "tiny_carry\<lparr>app_len := 0, app_off := 0\<rparr>"
  have a: "carry_ok ?a" "carry ?a = []" by (simp_all add: carry_ok_def carry_def tiny_carry_def)
  have e: "\<forall>e \<in> set echo_demo. echo_ok 0 e" by (simp add: echo_demo_def)
  have l: "(67 :: nat) \<le> 67" "length (rx_buf line_bufs) = 67" "length (tx_buf line_bufs) = 67" "length line_mac = 6"
    by (simp_all add: line_bufs_def line_mac_def)
  show ?thesis
    using echo_end_to_end [OF l w(1) b b w(2) a e, of "fst (echo_run 0 echo_demo (?a, session_start w))"
        "snd (echo_run 0 echo_demo (?a, session_start w))"] w by auto
qed

subsection \<open>The application loops of the integration tests\<close>

datatype app_loop = Lossless | FirmwareCarry | DropOnFull

record echo_cfg =
  cfg_chunk :: nat
  cfg_interleave :: bool
  cfg_app :: app_loop

definition cfg_transport :: "nat \<Rightarrow> echo_cfg" where
  "cfg_transport n = \<lparr>cfg_chunk = n, cfg_interleave = False, cfg_app = Lossless\<rparr>"

definition cfg_concurrent :: "nat \<Rightarrow> echo_cfg" where
  "cfg_concurrent n = \<lparr>cfg_chunk = n, cfg_interleave = True, cfg_app = Lossless\<rparr>"

definition cfg_firmware :: "nat \<Rightarrow> echo_cfg" where
  "cfg_firmware n = \<lparr>cfg_chunk = n, cfg_interleave = True, cfg_app = FirmwareCarry\<rparr>"

definition cfg_dropping :: "nat \<Rightarrow> echo_cfg" where
  "cfg_dropping n = \<lparr>cfg_chunk = n, cfg_interleave = True, cfg_app = DropOnFull\<rparr>"

record harness_app = carry_buf +
  pending :: bytes

definition drop_on_full ::
  "(nat \<Rightarrow> ('w, bytes) sm) \<Rightarrow> (bytes \<Rightarrow> ('w, nat) sm) \<Rightarrow> (harness_app \<times> 'w, unit) sm" where
  "drop_on_full rd wr = (\<lambda>(a, w).
     case unwrap_or [] (rd (length (app_buf a))) w of
       (Ok xs, w1) \<Rightarrow>
         (let a1 = a\<lparr>app_buf := copy_at 0 xs (app_buf a)\<rparr> in
          if length xs > 0 then
            (case ignore (wr (take (length xs) (app_buf a1))) w1 of (r, w2) \<Rightarrow> (r, (a1, w2)))
          else (Ok (), (a1, w1)))
     | (Err e, w1) \<Rightarrow> (Err e, (a, w1))
     | (Panic, w1) \<Rightarrow> (Panic, (a, w1)))"

definition firmware_carry ::
  "(nat \<Rightarrow> ('w, bytes) sm) \<Rightarrow> (bytes \<Rightarrow> ('w, nat) sm) \<Rightarrow> (harness_app \<times> 'w, unit) sm" where
  "firmware_carry rd wr =
     bnd (echo_refill rd) (\<lambda>_.
     bnd (gets (\<lambda>(a, w). app_off a < app_len a)) (\<lambda>more_left.
     if more_left then bnd (echo_push wr) (\<lambda>_. ret ()) else ret ()))"

definition lossless ::
  "(nat \<Rightarrow> ('w, bytes) sm) \<Rightarrow> (bytes \<Rightarrow> ('w, nat) sm) \<Rightarrow> (harness_app \<times> 'w, unit) sm" where
  "lossless rd wr = (\<lambda>(a, w).
     case unwrap_or [] (rd (length (app_buf a))) w of
       (Ok xs, w1) \<Rightarrow>
         (let a1 = a\<lparr>app_buf := copy_at 0 xs (app_buf a), pending := pending a @ xs\<rparr> in
          if pending a1 \<noteq> [] then
            (case unwrap_or 0 (wr (pending a1)) w1 of
               (Ok accepted, w2) \<Rightarrow> (Ok (), (a1\<lparr>pending := drop accepted (pending a1)\<rparr>, w2))
             | (Err e, w2) \<Rightarrow> (Err e, (a1, w2))
             | (Panic, w2) \<Rightarrow> (Panic, (a1, w2)))
          else (Ok (), (a1, w1)))
     | (Err e, w1) \<Rightarrow> (Err e, (a, w1))
     | (Panic, w1) \<Rightarrow> (Panic, (a, w1)))"

definition app_step ::
  "app_loop \<Rightarrow> (nat \<Rightarrow> ('w, bytes) sm) \<Rightarrow> (bytes \<Rightarrow> ('w, nat) sm) \<Rightarrow> (harness_app \<times> 'w, unit) sm" where
  "app_step l rd wr = (case l of DropOnFull \<Rightarrow> drop_on_full rd wr | FirmwareCarry \<Rightarrow> firmware_carry rd wr | Lossless \<Rightarrow> lossless rd wr)"

definition harness_step :: "nat \<Rightarrow> app_loop \<Rightarrow> (harness_app \<times> ('d, 't, 'p) w6100, unit) sm" where
  "harness_step i l = (\<lambda>(a, w).
     case on_socket i tcp_handle_status w of
       (Ok st, w1) \<Rightarrow>
         if st = Established then app_step l (\<lambda>n. on_socket i (tcp_read n)) (\<lambda>xs. on_socket i (tcp_write xs)) (a, w1)
         else (Ok (), (a, w1))
     | (Err _, w1) \<Rightarrow> (Ok (), (a, w1))
     | (Panic, w1) \<Rightarrow> (Panic, (a, w1)))"

text \<open>The bytes the application holds between two steps.\<close>

definition held :: "app_loop \<Rightarrow> harness_app \<Rightarrow> bytes" where
  "held l a = (case l of Lossless \<Rightarrow> pending a | FirmwareCarry \<Rightarrow> carry a | DropOnFull \<Rightarrow> [])"

context stream_handle
begin

lemma read_unwrapped:
  assumes "good w"
  obtains w' where "unwrap_or [] (rd n) w = (Ok (take n (incoming w)), w')" "incoming w' = drop n (incoming w)"
    "outgoing w' = outgoing w" "room w' = room w" "good w'"
  using handle_read [OF assms, of n] by (auto simp: unwrap_or_def)

lemma app_step_streams:
  assumes "good w" "carry_ok a"
  shows "\<exists>a' w'. app_step l rd wr (a, w) = (Ok (), (a', w')) \<and> good w' \<and>
    (let k = length (app_buf a) in
     case l of
       DropOnFull \<Rightarrow> outgoing w' = outgoing w @ take (room w) (take k (incoming w)) \<and> incoming w' = drop k (incoming w)
     | _ \<Rightarrow> outgoing w' @ held l a' @ incoming w' = outgoing w @ held l a @ incoming w \<and>
         (room w \<noteq> 0 \<and> held l a @ incoming w \<noteq> [] \<longrightarrow> outgoing w' \<noteq> outgoing w))"
proof -
  let ?k = "length (app_buf a)"
  have ne: "0 < ?k" using assms(2) by (simp add: carry_ok_def)
  show ?thesis
  proof (cases l)
    case DropOnFull
    obtain w1 where w1: "unwrap_or [] (rd ?k) w = (Ok (take ?k (incoming w)), w1)" "incoming w1 = drop ?k (incoming w)"
      "outgoing w1 = outgoing w" "room w1 = room w" "good w1"
      by (rule read_unwrapped [OF assms(1)])
    let ?xs = "take ?k (incoming w)"
    have buf: "take (length ?xs) (copy_at 0 ?xs (app_buf a)) = ?xs" by (simp add: copy_at_def min_def)
    obtain w2 where w2: "ignore (wr ?xs) w1 = (Ok (), w2)" "incoming w2 = incoming w1"
      "outgoing w2 = outgoing w1 @ take (room w1) ?xs" "good w2"
      using handle_write [OF w1(5), of ?xs] by (auto simp: ignore_def)
    show ?thesis
    proof (cases "incoming w = []")
      case True
      then show ?thesis using DropOnFull w1
        by (simp add: app_step_def drop_on_full_def)
    next
      case False
      then have "0 < length ?xs" using ne by simp
      then show ?thesis using DropOnFull w1 w2 buf
        unfolding app_step_def drop_on_full_def Let_def by simp
    qed
  next
    case Lossless
    obtain w1 where w1: "unwrap_or [] (rd ?k) w = (Ok (take ?k (incoming w)), w1)" "incoming w1 = drop ?k (incoming w)"
      "outgoing w1 = outgoing w" "room w1 = room w" "good w1"
      by (rule read_unwrapped [OF assms(1)])
    let ?p = "pending a @ take ?k (incoming w)"
    obtain w2 where w2: "unwrap_or 0 (wr ?p) w1 = (Ok (min (length ?p) (room w1)), w2)" "incoming w2 = incoming w1"
      "outgoing w2 = outgoing w1 @ take (room w1) ?p" "good w2"
      using handle_write [OF w1(5), of ?p] by (auto simp: unwrap_or_def)
    have d: "drop (min (length ?p) (room w1)) ?p = drop (room w1) ?p" by (simp add: min_def)
    show ?thesis
    proof (cases "?p = []")
      case True
      then show ?thesis using Lossless w1 ne by (auto simp: app_step_def lossless_def held_def)
    next
      case False
      have "take (room w1) ?p @ drop (room w1) ?p @ drop ?k (incoming w) = pending a @ incoming w"
        unfolding append.assoc [symmetric] append_take_drop_id by simp
      then show ?thesis using Lossless w1 w2 d False ne
        unfolding app_step_def lossless_def Let_def by (simp add: held_def)
    qed
  next
    case FirmwareCarry
    obtain a1 w1 where r: "echo_refill rd (a, w) = (Ok (carry a1 \<noteq> []), (a1, w1))" "carry a1 @ incoming w1 = carry a @ incoming w"
      "outgoing w1 = outgoing w" "room w1 = room w" "good w1" "carry_ok a1" "carry a1 = [] \<longrightarrow> incoming w1 = []"
      using refill_ends [OF assms] by blast
    have off: "app_off a1 < app_len a1 \<longleftrightarrow> carry a1 \<noteq> []" using length_carry [OF r(6)] by (cases "carry a1") auto
    show ?thesis
    proof (cases "carry a1 = []")
      case True
      then show ?thesis using FirmwareCarry r off
        by (simp add: app_step_def firmware_carry_def bnd_def gets_def ret_def held_def)
    next
      case False
      obtain a2 w2 where p: "echo_push wr (a1, w1) = (Ok (room w1 \<noteq> 0), (a2, w2))" "carry a2 = drop (room w1) (carry a1)"
        "incoming w2 = incoming w1" "outgoing w2 = outgoing w1 @ take (room w1) (carry a1)" "good w2"
        using push_ends [OF r(5,6) False] by blast
      have "take (room w1) (carry a1) @ drop (room w1) (carry a1) @ incoming w1 = carry a @ incoming w"
        using r(2) by (metis append.assoc append_take_drop_id)
      then show ?thesis using FirmwareCarry r(1,3,4) off False p
        by (simp add: app_step_def firmware_carry_def bnd_def gets_def ret_def held_def)
    qed
  qed
qed

end

text \<open>
  C33. The three application loops of the tests, on an established socket. The two that carry
  over what a full ring rejects lose nothing and always make progress while there is room
  and something to echo; the one that ignores the result of \<^verbatim>\<open>write\<close> drops exactly the bytes of
  its chunk that did not fit.
\<close>

theorem harness_step_streams:
  assumes "w_inv D L w" "i < 8" "carry_ok a" "on_socket i tcp_handle_status w = (Ok Established, w)"
  shows "\<exists>a' w'. harness_step i l (a, w) = (Ok (), (a', w')) \<and> w_inv D L w' \<and>
    (let k = length (app_buf a); q = slot_rings i w; q' = slot_rings i w' in
     case l of
       DropOnFull \<Rightarrow> contents (tx q') = contents (tx q) @ take (free_space (tx q)) (take k (contents (rx q))) \<and>
         contents (rx q') = drop k (contents (rx q))
     | _ \<Rightarrow> contents (tx q') @ held l a' @ contents (rx q') = contents (tx q) @ held l a @ contents (rx q) \<and>
         (free_space (tx q) \<noteq> 0 \<and> held l a @ contents (rx q) \<noteq> [] \<longrightarrow> contents (tx q') \<noteq> contents (tx q)))"
  using tcp_handle.app_step_streams [of D L w i a l] assms by (simp add: harness_step_def Let_def)

definition full_app :: harness_app where
  "full_app = \<lparr>app_buf = [1, 2, 3, 4, 5, 6], app_len = 6, app_off = 0, pending = []\<rparr>"

theorem harness_step_streams_witness:
  "\<exists>a' w'. harness_step 0 FirmwareCarry (full_app, tiny_w) = (Ok (), (a', w')) \<and>
     contents (tx (slot_rings 0 w')) @ carry a' @ contents (rx (slot_rings 0 w')) = [1, 2, 3, 4, 5, 6]"
proof -
  have "carry_ok full_app" "carry full_app = [1, 2, 3, 4, 5, 6]" by (simp_all add: carry_ok_def carry_def full_app_def)
  moreover have e: "contents (rx (slot_rings 0 tiny_w)) = []" "contents (tx (slot_rings 0 tiny_w)) = []" by code_simp+
  moreover have "on_socket 0 tcp_handle_status tiny_w = (Ok Established, tiny_w)"
    by (simp add: tiny_w_def on_socket_def tcp_handle_status_def on_backend_def zoom_def locked_def lock_mut_def
        try_lock_internal_def gets_def drop_guard_def tiny_slot_def cell_new_def claim_tcp_def backend_new_def is_free_def
        tiny_tcp_def tcp_reported_status_def tcp_listen_def)
  ultimately show ?thesis
    using harness_step_streams [OF tiny_w_inv, of 0 full_app FirmwareCarry] by (auto simp: held_def Let_def e)
qed

end
