(* ===== verification/Udp_Stream.thy ===== *)
theory Udp_Stream
  imports Tcp_Stream
begin

text \<open>
  The datagrams of a UDP socket, between the rings of its slot and the chip model: every tick
  and every completion of a started transfer keeps them whole, in order and addressed, drops only those that can never fit the
  receive ring, and sends each one once.
\<close>

subsection \<open>Datagrams on the chip\<close>

text \<open>The packet information that the chip puts before a datagram is our own frame header.\<close>

lemma short_len: "n < 2048 \<Longrightarrow> (of_nat n :: u16) AND 0x07FF = of_nat n"
proof -
  assume n: "n < 2048"
  have m: "(0x07FF :: u16) = mask 11" by (simp add: mask_eq_exp_minus_1)
  have "take_bit 11 (of_nat n :: u16) = of_nat (take_bit 11 n)" by (simp add: take_bit_of_nat)
  also have "take_bit 11 n = n" using n by (simp add: take_bit_nat_eq_self)
  finally show ?thesis unfolding m take_bit_eq_mask [symmetric] .
qed

lemma packet_frame:
  "length data < 2048 \<Longrightarrow>
     to_be 2 ((of_nat (length data) :: u16) AND 0x07FF) @ to_be 4 (ip a) @ to_be 2 (port a) = frame_header (of_nat (length data)) a"
  by (simp add: short_len frame_header_def)

lemma packet_parse:
  fixes a :: socket_addr
  assumes "length data < 2048"
  defines "h \<equiv> frame_header (of_nat (length data)) a"
  shows "unat ((from_be (take 2 h) :: u16) AND PACKINFO_LEN_MASK) = length data"
    "from_be (take 4 (drop 2 h)) = ip a" "from_be (take 2 (drop 6 h)) = port a"
proof -
  have p: "parse_frame_header h = (unat (of_nat (length data) :: u16), a)" unfolding h_def by (rule parse_frame)
  then have "(from_be (take 2 h) :: u16) = of_nat (length data)" by (simp add: parse_frame_header_def word_unat_eq_iff)
  then show "unat ((from_be (take 2 h) :: u16) AND PACKINFO_LEN_MASK) = length data"
    using assms(1) by (simp add: PACKINFO_LEN_MASK_def short_len unat_of_nat)
  have "\<lparr>ip = from_be (take 4 (drop 2 h)), port = from_be (take 2 (drop 6 h))\<rparr> = a"
    using p by (simp add: parse_frame_header_def)
  then show "from_be (take 4 (drop 2 h)) = ip a" "from_be (take 2 (drop 6 h)) = port a"
    by (metis socket_addr.select_convs)+
qed

text \<open>
  Socket \<open>i\<close> of the chip with the datagrams \<open>S\<close> sent, and \<open>P\<close> waiting in its RX FIFO; and the
  same with \<open>d\<close> staged in the TX FIFO from \<open>p\<close> on, its destination programmed.
\<close>

definition on_the_wire :: "datagram \<Rightarrow> u32 \<times> u16 \<times> bytes" where
  "on_the_wire d = (ip (fst d), port (fst d), snd d)"

definition udp_sent :: "nat \<Rightarrow> datagram list \<Rightarrow> chip_state \<Rightarrow> bool" where
  "udp_sent i S c \<longleftrightarrow> length (sent_dgrams c) = 8 \<and> sent_dgrams c ! i = map on_the_wire S"

definition udp_chip :: "nat \<Rightarrow> datagram list \<Rightarrow> datagram list \<Rightarrow> chip_state \<Rightarrow> bool" where
  "udp_chip i S P c \<longleftrightarrow> (\<exists>B. at_rest i B (framed P) c) \<and> (\<forall>d \<in> set P. length (snd d) < 2048) \<and> udp_sent i S c"

definition aimed :: "nat \<Rightarrow> socket_addr \<Rightarrow> chip_state \<Rightarrow> bool" where
  "aimed i a c \<longleftrightarrow> is_udp (csockets c ! i) \<and> dst_ip (csockets c ! i) = ip a \<and> dst_port (csockets c ! i) = port a"

definition dgram_staged :: "nat \<Rightarrow> datagram list \<Rightarrow> datagram list \<Rightarrow> u16 \<Rightarrow> datagram \<Rightarrow> chip_state \<Rightarrow> bool" where
  "dgram_staged i S P p d c \<longleftrightarrow> (\<exists>B. tx_staged i B (framed P) p (snd d) c) \<and> (\<forall>d \<in> set P. length (snd d) < 2048) \<and>
     udp_sent i S c \<and> aimed i (fst d) c"

lemma length_command [simp]:
  "length (csockets (run_command i cmd c)) = length (csockets c)"
  "length (sent_dgrams (run_command i cmd c)) = length (sent_dgrams c)"
  "cmd \<noteq> 0x20 \<Longrightarrow> sent_dgrams (run_command i cmd c) = sent_dgrams c"
  by (simp_all add: run_command_def send_out_def Let_def)

lemma udp_sent_upd [simp]: "udp_sent i S (upd_socket j f c) = udp_sent i S c"
  by (simp add: udp_sent_def)

lemma send_dgrams:
  assumes "is_udp (csockets c ! i)" "length (csockets c) = 8" "length (sent_dgrams c) = 8" "i < 8"
  shows "sent_dgrams (run_command i (command_code Send) c) ! i = sent_dgrams c ! i @
    [(dst_ip (csockets c ! i), dst_port (csockets c ! i), fifo (stx (csockets c ! i)))]"
  using assms by (simp add: run_command_def send_out_def Let_def fifo_def)

lemma staged_fifo:
  assumes "tx_staged i B F p data c" "i < 8"
  shows "fifo ((stx (csockets c ! i))\<lparr>write_ptr := p + of_nat (length data)\<rparr>) = data"
proof -
  let ?b = "stx (csockets c ! i)" and ?w = "(stx (csockets c ! i))\<lparr>write_ptr := p + of_nat (length data)\<rparr>"
  have r: "read_ptr ?b = p" "length data \<le> 2048" "cb_peek p (length data) ?b = data"
    using assms(1) by (auto simp: tx_staged_def at_rest_def)
  have "unat (cb_used ?w) = length data" using r by (simp add: cb_used_def unat_of_nat)
  moreover have "cb_peek p n ?w = cb_peek p n ?b" for n by (simp add: cb_peek_def)
  ultimately show ?thesis using r by (simp add: fifo_def)
qed

lemma commit_dgram:
  assumes "dgram_staged i S P p d c" "i < 8"
  shows "udp_chip i (S @ [d]) P (run_command i (command_code Send)
     (upd_socket i (\<lambda>s. s\<lparr>stx := (stx s)\<lparr>write_ptr := p + of_nat (length (snd d))\<rparr>\<rparr>) c))"
proof -
  obtain B where B: "tx_staged i B (framed P) p (snd d) c" using assms(1) by (auto simp: dgram_staged_def)
  let ?c = "upd_socket i (\<lambda>s. s\<lparr>stx := (stx s)\<lparr>write_ptr := p + of_nat (length (snd d))\<rparr>\<rparr>) c"
  have l: "length (csockets c) = 8" using B by (simp add: tx_staged_def at_rest_def)
  have u: "is_udp (csockets ?c ! i)" "dst_ip (csockets ?c ! i) = ip (fst d)" "dst_port (csockets ?c ! i) = port (fst d)"
    using assms l by (simp_all add: dgram_staged_def aimed_def is_udp_def)
  have "sent_dgrams (run_command i (command_code Send) ?c) ! i = sent_dgrams c ! i @ [on_the_wire d]"
    using send_dgrams [OF u(1)] u(2,3) staged_fifo [OF B assms(2)] assms l
    by (simp add: dgram_staged_def udp_sent_def on_the_wire_def del: command_code.simps)
  with commit_staged [OF B assms(2)] assms(1) show ?thesis
    by (auto simp: udp_chip_def dgram_staged_def udp_sent_def simp del: command_code.simps)
qed

lemma send_empty:
  assumes "udp_chip i S P c" "aimed i a c" "i < 8"
  shows "udp_chip i (S @ [(a, [])]) P (run_command i (command_code Send) c)"
proof -
  obtain B where B: "at_rest i B (framed P) c" using assms(1) by (auto simp: udp_chip_def)
  let ?p = "write_ptr (stx (csockets c ! i))"
  have st: "dgram_staged i S P ?p (a, []) c"
    using assms B by (auto simp: dgram_staged_def udp_chip_def tx_staged_def cb_peek_def)
  have "upd_socket i (\<lambda>s. s\<lparr>stx := (stx s)\<lparr>write_ptr := ?p\<rparr>\<rparr>) c = c"
    by (simp add: upd_socket_def)
  with commit_dgram [OF st assms(3)] show ?thesis by simp
qed

lemma udp_chip_upd:
  assumes "udp_chip i S P c" "i < 8"
    "\<And>s. srx (f s) = srx s" "\<And>s. stx (f s) = stx s"
  shows "udp_chip i S P (upd_socket i f c)"
  using assms by (auto simp: udp_chip_def at_rest_def)

lemma udp_chip_command: "udp_chip i S P c \<Longrightarrow> i < 8 \<Longrightarrow> cmd \<noteq> Send \<Longrightarrow> udp_chip i S P (run_command i (command_code cmd) c)"
  by (cases cmd) (auto simp: run_command_def udp_chip_def at_rest_def)

lemma udp_chip_consume:
  assumes "udp_chip i S (d # P) c" "i < 8" "p = read_ptr (srx (csockets c ! i)) + of_nat (8 + length (snd d))"
  shows "udp_chip i S P (upd_socket i (\<lambda>s. s\<lparr>srx := (srx s)\<lparr>read_ptr := p\<rparr>\<rparr>) c)"
proof -
  obtain B where B: "at_rest i B (framed (d # P)) c" using assms(1) by (auto simp: udp_chip_def)
  have F: "drop (8 + length (snd d)) (framed (d # P)) = framed P" "8 + length (snd d) \<le> length (framed (d # P))"
    by (simp_all add: FRAME_HEADER_def)
  have "at_rest i B (framed P) (upd_socket i (\<lambda>s. s\<lparr>srx := (srx s)\<lparr>read_ptr := p\<rparr>\<rparr>) c)"
    unfolding assms(3) using at_rest_consume [OF B assms(2) F(2) refl] unfolding F(1) .
  then show ?thesis using assms(1) by (auto simp: udp_chip_def)
qed

text \<open>What the bytes at the front of the RX FIFO are.\<close>

lemma udp_chip_front:
  assumes "udp_chip i S (d # P) c"
  defines "b \<equiv> srx (csockets c ! i)"
  shows "unat (cb_used b) = length (framed (d # P))"
    "cb_peek (read_ptr b) 8 b = frame_header (of_nat (length (snd d))) (fst d)"
    "cb_peek (read_ptr b + 8) (length (snd d)) b = snd d"
proof -
  have F: "fifo b = framed (d # P)" "cb_ok b" using assms(1) by (auto simp: udp_chip_def at_rest_def b_def)
  show "unat (cb_used b) = length (framed (d # P))" using F(1) length_fifo [of b] by simp
  let ?h = "frame_header (of_nat (length (snd d))) (fst d)"
  have fr: "fifo b = ?h @ snd d @ framed P" "length ?h = 8" using F(1) by (simp_all add: frame_def FRAME_HEADER_def)
  have le: "8 + length (snd d) \<le> length (fifo b)" using fr by simp
  have "cb_peek (read_ptr b) 8 b = take 8 (fifo b)" using take_fifo [of 8 b] le by simp
  also have "\<dots> = ?h" using fr by simp
  finally show "cb_peek (read_ptr b) 8 b = ?h" .
  have "cb_peek (read_ptr b) (8 + length (snd d)) b = take (8 + length (snd d)) (fifo b)" using take_fifo [OF le] .
  also have "\<dots> = ?h @ snd d" using fr by simp
  finally have "cb_peek (read_ptr b) 8 b @ cb_peek (read_ptr b + of_nat 8) (length (snd d)) b = ?h @ snd d"
    using cb_peek_append [of b "read_ptr b" 8 "length (snd d)"] F(2) by (simp add: cb_ok_def)
  then show "cb_peek (read_ptr b + 8) (length (snd d)) b = snd d"
    using fr(2) by (simp add: append_eq_append_conv)
qed

subsection \<open>More accessors on the chip model\<close>

lemma wp_chip_read_rx:
  assumes "on_chip L c t" "HEADER + n \<le> L" "i < 8" "\<And>t'. on_chip L c t' \<Longrightarrow> Q (Ok (cb_peek p n (srx (csockets c ! i)))) t'"
  shows "wp (read_rx_buffer chip (socket_block i) p (replicate n 0)) Q t"
  using chip_spi_read [OF assms(1), of "replicate n 0" "\<lparr>addr = p, block = rx_block (socket_block i)\<rparr>"] assms(2-4)
  by (auto simp: wp_def bus_ops readable_def socket_block_def chip_read.simps sock_index)

lemma from_be_u32: "(from_be (to_be 4 (w :: u32)) :: u32) = w"
  by simp

lemma wp_chip_targets:
  assumes "on_chip L c t" "11 \<le> L" "i < 8"
  shows "(\<And>t'. on_chip L (upd_socket i (\<lambda>s. s\<lparr>dst_ip := w\<rparr>) c) t' \<Longrightarrow> Q (Ok ()) t') \<Longrightarrow>
      wp (set_ipv4_dst_addr chip (socket_block i) w) Q t"
    "(\<And>t'. on_chip L (upd_socket i (\<lambda>s. s\<lparr>dst_port := p\<rparr>) c) t' \<Longrightarrow> Q (Ok ()) t') \<Longrightarrow>
      wp (set_dst_port chip (socket_block i) p) Q t"
    "(\<And>t'. on_chip L c t' \<Longrightarrow> Q (Ok ()) t') \<Longrightarrow> wp (set_src_port chip (socket_block i) p) Q t"
  using assms
  by (auto simp: bus_ops write_u16_def write_u32_def sn_regs write_reg_def Let_def from_be_wide HEADER_def
      intro!: wp_chip_write_reg [of L c])

lemma wp_chip_init:
  assumes "on_chip L c t" "11 \<le> L" "i < 8"
    "\<And>t'. on_chip L (upd_socket i (\<lambda>s. s\<lparr>ir := ir s AND NOT 0xFF\<rparr>) (upd_socket i (\<lambda>s. s\<lparr>mr := mode\<rparr>) c)) t' \<Longrightarrow> Q (Ok ()) t'"
  shows "wp (init_socket chip (socket_block i) mode) Q t"
proof -
  have w: "write_reg i SN_MR (to_be (Suc 0) mode) c = upd_socket i (\<lambda>s. s\<lparr>mr := mode\<rparr>) c"
    "write_reg i SN_IRCLR (to_be (Suc 0) m) x = upd_socket i (\<lambda>s. s\<lparr>ir := ir s AND NOT m\<rparr>) x"
    "write_reg i SN_IMR (to_be (Suc 0) m) x = x" for m x
    by (simp_all add: write_reg_def sn_regs Let_def from_be_byte)
  show ?thesis using assms unfolding init_socket_def write_u8_def
    by (auto simp: wp_rules HEADER_def w intro!: wp_chip_write_reg [of L])
qed


subsection \<open>Datagrams in transit\<close>

text \<open>
  \<open>A\<close> is every datagram the application has queued, \<open>R\<close> those it has still to receive: the ones
  in the receive ring and those on the chip that the ring can ever hold.
\<close>

definition fits :: "nat \<Rightarrow> datagram \<Rightarrow> bool" where
  "fits n d \<longleftrightarrow> FRAME_HEADER + length (snd d) \<le> n"

definition udp_held :: "nat \<Rightarrow> datagram list \<Rightarrow> datagram list \<Rightarrow> socket_rings \<Rightarrow> chip_state \<Rightarrow> bool" where
  "udp_held i A R q x \<longleftrightarrow> (\<exists>S P rds tds. udp_chip i S P x \<and> udp_ring rds (rx q) \<and> udp_ring tds (tx q) \<and>
     A = S @ tds \<and> R = rds @ filter (fits (cap (rx q))) P)"

definition udp_moving ::
  "nat \<Rightarrow> datagram list \<Rightarrow> datagram list \<Rightarrow> bulk_kind \<Rightarrow> u16 \<Rightarrow> nat \<Rightarrow> socket_rings \<Rightarrow> bytes \<Rightarrow> chip_state \<Rightarrow> bool" where
  "udp_moving i A R k ptr n q p x \<longleftrightarrow> (\<exists>S P rds tds. udp_ring rds (rx q) \<and> udp_ring tds (tx q) \<and>
     R = rds @ filter (fits (cap (rx q))) P \<and>
     (case k of
        BulkReceive \<Rightarrow> False
      | BulkReceiveDatagram a pt \<Rightarrow> udp_chip i S P x \<and> A = S @ tds \<and> n = length p \<and>
          (\<exists>P'. P = (\<lparr>ip = a, port = pt\<rparr>, p) # P') \<and> ptr = read_ptr (srx (csockets x ! i)) + 8
      | BulkTransmit \<Rightarrow> (\<exists>d. dgram_staged i S P ptr d x \<and> n = length (snd d) \<and> A = S @ d # tds)))"

text \<open>An open socket is in UDP mode on the chip.\<close>

definition udp_open :: "nat \<Rightarrow> socket_status \<Rightarrow> chip_state \<Rightarrow> bool" where
  "udp_open i st x \<longleftrightarrow> (st \<in> {Opening, Established} \<longrightarrow> is_udp (csockets x ! i))"

type_synonym chip_udp = "(chip_state, chip_state \<times> dma_buffers) udp_ctx"

definition udp_settled :: "nat \<Rightarrow> nat \<Rightarrow> datagram list \<Rightarrow> datagram list \<Rightarrow> chip_udp \<Rightarrow> bool" where
  "udp_settled L i A R c \<longleftrightarrow> (\<exists>x. on_chip L x (trans c) \<and> udp_open i (udp_status (proto c)) x \<and> udp_held i A R (rings c) x)"

definition udp_post :: "nat \<Rightarrow> nat \<Rightarrow> datagram list \<Rightarrow> datagram list \<Rightarrow> chip_udp \<Rightarrow> bulk_action res \<Rightarrow> chip_udp \<Rightarrow> bool" where
  "udp_post L i A R c r c' \<longleftrightarrow> cap (rx (rings c')) = cap (rx (rings c)) \<and> cap (tx (rings c')) = cap (tx (rings c)) \<and>
     (case r of
        Ok (Started k ptr n) \<Rightarrow> (\<exists>x p. flying L x p (trans c') \<and> udp_open i (udp_status (proto c')) x \<and>
          udp_moving i A R k ptr n (rings c') p x)
      | Panic \<Rightarrow> False
      | _ \<Rightarrow> udp_settled L i A R c')"

lemma udp_heldI:
  "udp_chip i S P x \<Longrightarrow> udp_ring rds (rx q) \<Longrightarrow> udp_ring tds (tx q) \<Longrightarrow> A = S @ tds \<Longrightarrow>
     R = rds @ filter (fits (cap (rx q))) P \<Longrightarrow> udp_held i A R q x"
  by (auto simp: udp_held_def)

lemma udp_moving_txI:
  "dgram_staged i S P p d x \<Longrightarrow> udp_ring rds (rx q) \<Longrightarrow> udp_ring ds (tx q) \<Longrightarrow> A = S @ d # ds \<Longrightarrow>
     R = rds @ filter (fits (cap (rx q))) P \<Longrightarrow> n = length (snd d) \<Longrightarrow> udp_moving i A R BulkTransmit p n q y x"
  unfolding udp_moving_def bulk_kind.case by blast

lemma wp_chip_start_read_at:
  assumes "on_chip L x t" "i < 8" "cb_peek p n (srx (csockets x ! i)) = ys"
    and "\<And>t'. flying L x ys t' \<Longrightarrow> Q (Ok ()) t'" and "\<And>t'. on_chip L x t' \<Longrightarrow> Q (Err (Other ScratchBufferOverrun)) t'"
  shows "wp (start_read_rx_buffer chip (socket_block i) p n) Q t"
  using assms by (intro wp_chip_start_read [OF assms(1,2)]) auto

text \<open>The pointer over the oldest datagram, the command and the acknowledgement.\<close>

lemma chip_advance:
  assumes "67 \<le> L" "i < 8" "on_chip L x t" "udp_chip i S (d # P) x"
    "p = read_ptr (srx (csockets x ! i)) + of_nat (8 + length (snd d))"
  shows "wp (set_rx_read_pointer chip (socket_block i) p) (\<lambda>r t1. r = Ok () \<and>
    wp (send_sock_command chip (socket_block i) Receive) (\<lambda>r t2. r = Ok () \<and>
      wp (clear_interrupts chip (socket_block i) RECV) (\<lambda>r t3. r = Ok () \<and>
        (\<exists>x'. on_chip L x' t3 \<and> udp_chip i S P x' \<and> is_udp (csockets x' ! i) = is_udp (csockets x ! i))) t2) t1) t"
proof -
  let ?x1 = "upd_socket i (\<lambda>s. s\<lparr>srx := (srx s)\<lparr>read_ptr := p\<rparr>\<rparr>) x"
  let ?x2 = "run_command i (command_code Receive) ?x1"
  let ?x3 = "upd_socket i (\<lambda>s. s\<lparr>ir := ir s AND NOT RECV\<rparr>) ?x2"
  have l: "length (csockets x) = 8" using assms(4) by (auto simp: udp_chip_def at_rest_def)
  have 1: "udp_chip i S P ?x1" by (rule udp_chip_consume [OF assms(4,2,5)])
  have 3: "udp_chip i S P ?x3" by (intro udp_chip_upd udp_chip_command 1) (use assms(2) in simp_all)
  have m: "is_udp (csockets ?x3 ! i) = is_udp (csockets x ! i)"
    using l assms(2) by (simp add: is_udp_def run_command_def)
  have L: "11 \<le> L" using assms(1) by simp
  show ?thesis
    by (rule wp_chip_updates(1) [OF assms(3) L assms(2)], rule conjI [OF refl],
        rule wp_chip_updates(3) [OF _ L assms(2)], assumption, rule conjI [OF refl],
        rule wp_chip_updates(4) [OF _ L assms(2)], assumption, rule conjI [OF refl])
      (use 3 m in blast)
qed

lemma wp_udp_advance_chip:
  assumes "67 \<le> L" "i < 8" "on_chip L x (trans c)" "udp_chip i S (d # P) x"
    "p = read_ptr (srx (csockets x ! i)) + of_nat (8 + length (snd d))"
    and "\<And>t x'. on_chip L x' t \<Longrightarrow> udp_chip i S P x' \<Longrightarrow> is_udp (csockets x' ! i) = is_udp (csockets x ! i) \<Longrightarrow>
       Q (Ok ()) (c\<lparr>trans := t\<rparr>)"
  shows "wp (udp_advance chip (socket_block i) p) Q (c :: chip_udp)"
  unfolding udp_advance_def wp_bnd wp_tr_eq
  by (rule wp_mono [OF chip_advance [OF assms(1-5)]]) (auto simp: wp_bnd wp_tr_eq intro!: assms(6) elim!: wp_mono)

text \<open>An established socket with an idle bus, with what chip and rings hold.\<close>

definition udp_ready ::
  "nat \<Rightarrow> nat \<Rightarrow> datagram list \<Rightarrow> datagram list \<Rightarrow> chip_udp \<Rightarrow> chip_state \<Rightarrow> datagram list \<Rightarrow> datagram list \<Rightarrow>
     datagram list \<Rightarrow> datagram list \<Rightarrow> bool" where
  "udp_ready L i A R c x S P rds tds \<longleftrightarrow> udp_status (proto c) = Established \<and> on_chip L x (trans c) \<and>
     is_udp (csockets x ! i) \<and> udp_chip i S P x \<and> udp_ring rds (rx (rings c)) \<and> udp_ring tds (tx (rings c)) \<and>
     A = S @ tds \<and> R = rds @ filter (fits (cap (rx (rings c)))) P"

lemma udp_settled_ready:
  assumes "udp_settled L i A R c" "udp_status (proto c) = Established"
  obtains x S P rds tds where "udp_ready L i A R c x S P rds tds"
  using assms by (auto simp: udp_settled_def udp_held_def udp_open_def udp_ready_def)

definition udp_outcome :: "nat \<Rightarrow> nat \<Rightarrow> datagram list \<Rightarrow> datagram list \<Rightarrow> chip_udp \<Rightarrow> bulk_action res \<Rightarrow> chip_udp \<Rightarrow> bool" where
  "udp_outcome L i A R c r c' \<longleftrightarrow> proto c' = proto c \<and> udp_post L i A R c r c'"

text \<open>A tick that ends with an idle bus, or refused by it, leaves chip and rings as \<open>udp_held\<close> has them.\<close>

lemma udp_outcome_settled:
  assumes "udp_status (proto c) = Established" "proto c' = proto c" "on_chip L x (trans c')" "is_udp (csockets x ! i)"
    "udp_held i A R (rings c') x" "cap (rx (rings c')) = cap (rx (rings c))" "cap (tx (rings c')) = cap (tx (rings c))"
    "r = Ok ActNone \<or> r = Err e"
  shows "udp_outcome L i A R c r c'"
  using assms by (auto simp: udp_outcome_def udp_post_def udp_settled_def udp_open_def)

lemma udp_outcome_moving:
  assumes "udp_status (proto c) = Established" "proto c' = proto c" "flying L x p (trans c')" "is_udp (csockets x ! i)"
    "udp_moving i A R k ptr n (rings c') p x" "cap (rx (rings c')) = cap (rx (rings c))" "cap (tx (rings c')) = cap (tx (rings c))"
  shows "udp_outcome L i A R c (Ok (Started k ptr n)) c'"
  using assms by (auto simp: udp_outcome_def udp_post_def udp_open_def)

lemma udp_stays:
  assumes "udp_ready L i A R c x S P rds tds" "on_chip L x t" "r = Ok ActNone \<or> r = Err e"
  shows "udp_outcome L i A R c r (c\<lparr>trans := t\<rparr>)"
  by (rule udp_outcome_settled [where x = x and e = e]) (use assms in \<open>auto simp: udp_ready_def intro!: udp_heldI\<close>)

text \<open>What \<^verbatim>\<open>receive\<close> does with a packet once it has read its head.\<close>

definition udp_packet :: "block_address \<Rightarrow> u16 \<Rightarrow> nat \<Rightarrow> socket_addr \<Rightarrow> (chip_udp, bulk_action) sm" where
  "udp_packet blk start n a =
     bnd (gets (\<lambda>c. cap (rx (rings c)))) (\<lambda>capacity.
     if FRAME_HEADER + n > capacity then
       bnd (udp_advance chip blk (start + of_nat (PACKINFO + n))) (\<lambda>_. ret ActNone)
     else bnd (on_rx ring_free) (\<lambda>free.
     if free < FRAME_HEADER + n then ret ActNone
     else if n = 0 then
       bnd (on_rx (ring_write (frame_header 0 a))) (\<lambda>_.
       bnd (on_rx (modify commit_frame)) (\<lambda>_.
       bnd (udp_advance chip blk (start + of_nat PACKINFO)) (\<lambda>_. ret ActNone)))
     else
       bnd (tr (start_read_rx_buffer chip blk (start + of_nat PACKINFO) n)) (\<lambda>_.
       ret (Started (BulkReceiveDatagram (ip a) (port a)) (start + of_nat PACKINFO) n))))"

lemma udp_receive_none:
  assumes "67 \<le> L" "i < 8" "udp_ready L i A R c x S [] rds tds"
  shows "wp (udp_receive chip (socket_block i)) (udp_outcome L i A R c) c"
proof -
  have x: "on_chip L x (trans c)" "udp_chip i S [] x" using assms(3) by (simp_all add: udp_ready_def)
  then have "unat (cb_used (srx (csockets x ! i))) = 0"
    using length_fifo [of "srx (csockets x ! i)"] by (auto simp: udp_chip_def at_rest_def)
  moreover have "11 \<le> L" using assms(1) by simp
  ultimately show ?thesis unfolding udp_receive_def Let_def
    using udp_stays [OF assms(3)] assms(2) x(1) by (auto simp: wp_rules wp_tr_eq PACKINFO_def intro!: wp_chip_accessors(1) [of L x])
qed

text \<open>The head of the oldest datagram gives its length and its sender.\<close>

lemma udp_receive_head:
  assumes "67 \<le> L" "i < 8" "on_chip L x (trans c)" "udp_chip i S ((a, data) # P) x"
    and "\<And>t. on_chip L x t \<Longrightarrow> wp (udp_packet (socket_block i) (read_ptr (srx (csockets x ! i))) (length data) a) Q (c\<lparr>trans := t\<rparr>)"
  shows "wp (udp_receive chip (socket_block i)) Q c"
proof -
  have L: "11 \<le> L" using assms(1) by simp
  note front = udp_chip_front [OF assms(4)]
  have dl: "length data < 2048" using assms(4) by (auto simp: udp_chip_def)
  note parse = packet_parse [OF dl, of a]
  have "unat (cb_used (srx (csockets x ! i))) = 8 + length data + length (framed P)"
    using front(1) by (simp add: FRAME_HEADER_def)
  then have n0: "(unat (cb_used (srx (csockets x ! i))) < PACKINFO) = False"
    "(unat (cb_used (srx (csockets x ! i))) < 8 + length data) = False"
    by (simp_all add: PACKINFO_def)
  have hd: "cb_peek (read_ptr (srx (csockets x ! i))) 8 (srx (csockets x ! i)) = frame_header (of_nat (length data)) a"
    using front(2) by simp
  have tt: "c\<lparr>trans := t, trans := t'\<rparr> = c\<lparr>trans := t'\<rparr>" for t t' by simp
  have a: "\<lparr>ip = ip a, port = port a\<rparr> = a" by simp
  show ?thesis
    unfolding udp_receive_def Let_def
    apply (simp only: wp_bnd wp_tr_eq)
    apply (rule wp_chip_accessors(1) [OF assms(3) L assms(2)])
    apply (simp only: n0 if_False res.case wp_bnd wp_tr_eq)
    apply (rule wp_chip_accessors(2) [OF _ L assms(2)], simp)
    apply (simp only: res.case wp_bnd wp_tr_eq)
    apply (rule wp_chip_read_rx [OF _ _ assms(2)], simp)
    using L apply (simp add: HEADER_def PACKINFO_def)
    apply (simp only: PACKINFO_def hd parse res.case tt n0 if_False)
    subgoal for t1 t2 t3 using assms(5) [of t3] by (simp only: udp_packet_def PACKINFO_def a)
    done
qed

lemma udp_packet_skipped:
  assumes "67 \<le> L" "i < 8" "udp_ready L i A R c x S (d # P) rds tds" "on_chip L x t"
    "cap (rx (rings c)) < FRAME_HEADER + length (snd d)"
  shows "wp (udp_packet (socket_block i) (read_ptr (srx (csockets x ! i))) (length (snd d)) (fst d)) (udp_outcome L i A R c) (c\<lparr>trans := t\<rparr>)"
proof -
  note r = assms(3) [unfolded udp_ready_def]
  have "udp_outcome L i A R c (Ok ActNone) (c\<lparr>trans := t'\<rparr>)"
    if "on_chip L x' t'" "udp_chip i S P x'" "is_udp (csockets x' ! i)" for t' x'
    by (rule udp_outcome_settled [OF _ _ _ that(3), where e = WouldBlock])
      (use r that assms(5) in \<open>auto simp: fits_def intro!: udp_heldI\<close>)
  note skip = this
  have n: "(cap (rx (rings c)) < FRAME_HEADER + length (snd d)) = True" "rings (c\<lparr>trans := t\<rparr>) = rings c" using assms(5) by simp_all
  show ?thesis
    unfolding udp_packet_def
    by (simp only: n wp_bnd wp_gets res.case if_True PACKINFO_def) (rule wp_udp_advance_chip [OF assms(1,2), of x _ S d P],
      use r assms(4) skip in \<open>auto simp: wp_ret\<close>)
qed

lemma udp_packet_empty:
  assumes "67 \<le> L" "i < 8" "udp_ready L i A R c x S ((a, []) # P) rds tds" "on_chip L x t" "FRAME_HEADER \<le> free_space (rx (rings c))"
  shows "wp (udp_packet (socket_block i) (read_ptr (srx (csockets x ! i))) 0 a) (udp_outcome L i A R c) (c\<lparr>trans := t\<rparr>)"
proof -
  note r = assms(3) [unfolded udp_ready_def]
  have inv: "udp_ring rds (rx (rings c))" "ring_inv (rx (rings c))" using r by (simp_all add: udp_ring_def)
  have room: "FRAME_HEADER \<le> cap (rx (rings c))" using assms(5) by (simp add: free_space_def)
  have "udp_outcome L i A R c (Ok ActNone) (c\<lparr>rings := (rings c)\<lparr>rx := q'\<rparr>, trans := t'\<rparr>)"
    if "on_chip L x' t'" "udp_chip i S P x'" "is_udp (csockets x' ! i)" "udp_ring (rds @ [(a, [])]) q'" "cap q' = cap (rx (rings c))" for t' x' q'
    by (rule udp_outcome_settled [OF _ _ _ that(3), where e = WouldBlock])
      (use r that room in \<open>auto simp: fits_def intro!: udp_heldI\<close>)
  then have step: "wp (udp_advance chip (socket_block i) (read_ptr (srx (csockets x ! i)) + of_nat 8))
      (\<lambda>r c'. case r of Ok _ \<Rightarrow> udp_outcome L i A R c (Ok ActNone) c' | Err e \<Rightarrow> udp_outcome L i A R c (Err e) c'
         | Panic \<Rightarrow> udp_outcome L i A R c Panic c') (c\<lparr>trans := t, rings := (rings c)\<lparr>rx := q'\<rparr>\<rparr>)"
    if "udp_ring (rds @ [(a, [])]) q'" "cap q' = cap (rx (rings c))" for q'
    using r assms(4) that by (intro wp_udp_advance_chip [OF assms(1,2), of x _ S "(a, [])" P]) auto
  have n: "(cap (rx (rings c)) < FRAME_HEADER + 0) = False" "(free_space (rx (rings c)) < FRAME_HEADER + 0) = False"
    "rings (c\<lparr>trans := t\<rparr>) = rings c" "c\<lparr>trans := t, rings := (rings c)\<lparr>rx := rx (rings c)\<rparr>\<rparr> = c\<lparr>trans := t\<rparr>"
    using assms(5) room by auto
  show ?thesis
    unfolding udp_packet_def
    apply (simp only: n wp_bnd wp_gets wp_ret wp_modify wp_tr_eq wp_on_rx chip.wp_free [OF inv(2)] res.case if_True if_False simp_thms)
    apply (rule wp_mono [OF chip.udp_commit_empty [OF inv(1) assms(5)]])
    using step apply (auto simp: wp_rules wp_on_rx wp_tr_eq PACKINFO_def)
    done
qed

lemma udp_packet_payload:
  assumes "67 \<le> L" "i < 8" "udp_ready L i A R c x S (d # P) rds tds" "on_chip L x t"
    "FRAME_HEADER + length (snd d) \<le> free_space (rx (rings c))" "snd d \<noteq> []"
  shows "wp (udp_packet (socket_block i) (read_ptr (srx (csockets x ! i))) (length (snd d)) (fst d)) (udp_outcome L i A R c) (c\<lparr>trans := t\<rparr>)"
proof -
  note r = assms(3) [unfolded udp_ready_def]
  have inv: "ring_inv (rx (rings c))" using r by (simp add: udp_ring_def)
  let ?p = "read_ptr (srx (csockets x ! i)) + 8"
  have hd: "cb_peek ?p (length (snd d)) (srx (csockets x ! i)) = snd d"
    using udp_chip_front(3) [of i S d P x] r by simp
  have m: "udp_moving i A R (BulkReceiveDatagram (ip (fst d)) (port (fst d))) ?p (length (snd d)) (rings c) (snd d) x"
    unfolding udp_moving_def by (rule exI [of _ S], rule exI [of _ "d # P"], rule exI [of _ rds], rule exI [of _ tds]) (use r in \<open>simp add: prod_eq_iff\<close>)
  have flown: "udp_outcome L i A R c (Ok (Started (BulkReceiveDatagram (ip (fst d)) (port (fst d))) ?p (length (snd d)))) (c\<lparr>trans := t'\<rparr>)"
    if "flying L x (snd d) t'" for t'
    by (rule udp_outcome_moving [of _ _ _ x "snd d"]) (use that r m in simp_all)
  have n: "(cap (rx (rings c)) < FRAME_HEADER + length (snd d)) = False" "(free_space (rx (rings c)) < FRAME_HEADER + length (snd d)) = False"
    "(length (snd d) = 0) = False" "rings (c\<lparr>trans := t\<rparr>) = rings c" "c\<lparr>trans := t, rings := (rings c)\<lparr>rx := rx (rings c)\<rparr>\<rparr> = c\<lparr>trans := t\<rparr>"
    using assms(5,6) by (auto simp: free_space_def)
  show ?thesis
    unfolding udp_packet_def
    apply (simp only: n wp_bnd wp_gets wp_ret wp_modify wp_tr_eq wp_on_rx chip.wp_free [OF inv] res.case if_True if_False PACKINFO_def)
    apply (rule wp_chip_start_read_at [OF _ assms(2)])
    using assms(4) apply simp
    using hd apply simp
    using flown udp_stays [OF assms(3)] apply simp_all
    done
qed

text \<open>
  Receiving: nothing moved, or a datagram that cannot fit was skipped, or an empty one was
  delivered; or the payload of the oldest datagram is being read.
\<close>

lemma udp_receive_post:
  assumes "67 \<le> L" "i < 8" "udp_settled L i A R c" "udp_status (proto c) = Established"
  shows "wp (udp_receive chip (socket_block i)) (udp_outcome L i A R c) c"
proof -
  obtain x S P rds tds where r: "udp_ready L i A R c x S P rds tds" by (rule udp_settled_ready [OF assms(3,4)])
  show ?thesis
  proof (cases P)
    case Nil
    then show ?thesis using udp_receive_none [OF assms(1,2)] r by simp
  next
    case (Cons d P')
    note r = r [unfolded Cons]
    have on: "on_chip L x (trans c)" "udp_chip i S ((fst d, snd d) # P') x" and inv: "ring_inv (rx (rings c))"
      using r by (simp_all add: udp_ready_def udp_ring_def)
    show ?thesis
    proof (rule udp_receive_head [OF assms(1,2) on])
      fix t assume t: "on_chip L x t"
      consider (skip) "cap (rx (rings c)) < FRAME_HEADER + length (snd d)"
        | (full) "\<not> cap (rx (rings c)) < FRAME_HEADER + length (snd d)" "free_space (rx (rings c)) < FRAME_HEADER + length (snd d)"
        | (empty) "FRAME_HEADER + length (snd d) \<le> free_space (rx (rings c))" "snd d = []"
        | (payload) "FRAME_HEADER + length (snd d) \<le> free_space (rx (rings c))" "snd d \<noteq> []" by linarith
      then show "wp (udp_packet (socket_block i) (read_ptr (srx (csockets x ! i))) (length (snd d)) (fst d)) (udp_outcome L i A R c) (c\<lparr>trans := t\<rparr>)"
      proof cases
        case full
        have "rings (c\<lparr>trans := t\<rparr>) = rings c" "c\<lparr>trans := t, rings := (rings c)\<lparr>rx := rx (rings c)\<rparr>\<rparr> = c\<lparr>trans := t\<rparr>" by simp_all
        then show ?thesis using full udp_stays [OF r t]
          by (simp only: udp_packet_def wp_bnd wp_gets wp_ret wp_on_rx chip.wp_free [OF inv] res.case if_True if_False) simp
      next
        case empty
        have "udp_ready L i A R c x S ((fst d, []) # P') rds tds" using r empty(2) by (metis prod.collapse)
        from udp_packet_empty [OF assms(1,2) this t] empty show ?thesis by simp
      qed (use udp_packet_skipped [OF assms(1,2) r t] udp_packet_payload [OF assms(1,2) r t] in simp_all)
    qed
  qed
qed


text \<open>Sending: nothing to send or no room, or the oldest datagram is staged, or it was empty and has gone.\<close>

lemma wp_send_payload:
  assumes "67 \<le> L" "i < 8" "on_chip L x (trans c)" "udp_chip i S P x" "aimed i (fst d) x" "rings_inv (rings c)"
    "contents (tx (rings c)) = snd d @ ys" "HEADER + length (snd d) \<le> L" "length (snd d) \<le> 2048"
    and "\<And>y t q. flying L y [] t \<Longrightarrow> dgram_staged i S P (write_ptr (stx (csockets x ! i))) d y \<Longrightarrow> contents q = ys \<Longrightarrow>
       ring_inv q \<Longrightarrow> cap q = cap (tx (rings c)) \<Longrightarrow> ring_frames q = ring_frames (tx (rings c)) \<Longrightarrow>
       Q (Ok ()) (c\<lparr>trans := t, rings := (rings c)\<lparr>tx := q\<rparr>\<rparr>)"
  shows "wp (start_tx_from_ring chip (socket_block i) (write_ptr (stx (csockets x ! i))) (length (snd d))) Q c"
proof -
  obtain B where B: "at_rest i B (framed P) x" using assms(4) by (auto simp: udp_chip_def)
  have le: "length (snd d) \<le> ring_len (tx (rings c))" using length_contents [of "tx (rings c)"] assms(7) by simp
  show ?thesis
  proof (rule wp_chip_start_tx [OF assms(3,2,6) B le assms(9) refl])
    fix g t q
    let ?y = "upd_socket i (\<lambda>s. s\<lparr>stx := g (stx s)\<rparr>) x"
    assume y: "flying L ?y [] t" "tx_staged i B (framed P) (write_ptr (stx (csockets x ! i))) (take (length (snd d)) (contents (tx (rings c)))) ?y"
      "contents q = drop (length (snd d)) (contents (tx (rings c)))" "ring_inv q" "cap q = cap (tx (rings c))"
      "ring_frames q = ring_frames (tx (rings c))"
    have "aimed i (fst d) ?y" using assms(2,5) B by (simp add: aimed_def at_rest_def is_udp_def)
    then have "dgram_staged i S P (write_ptr (stx (csockets x ! i))) d ?y"
      using y(2) assms(4,7) by (auto simp: dgram_staged_def udp_chip_def)
    with y assms(7,10) show "Q (Ok ()) (c\<lparr>trans := t, rings := (rings c)\<lparr>tx := q\<rparr>\<rparr>)" by simp
  qed (use assms(8) in simp)
qed

text \<open>Half way through \<^verbatim>\<open>transmit\<close>: the header of the oldest datagram is drained and the socket is aimed at its peer.\<close>

definition udp_drained ::
  "nat \<Rightarrow> nat \<Rightarrow> datagram list \<Rightarrow> datagram list \<Rightarrow> chip_udp \<Rightarrow> chip_udp \<Rightarrow> chip_state \<Rightarrow> datagram list \<Rightarrow> datagram list \<Rightarrow>
     datagram list \<Rightarrow> datagram \<Rightarrow> datagram list \<Rightarrow> bool" where
  "udp_drained L i A R c c' x S P rds d ds \<longleftrightarrow> proto c' = proto c \<and> udp_status (proto c) = Established \<and>
     on_chip L x (trans c') \<and> udp_chip i S P x \<and> aimed i (fst d) x \<and> rx (rings c') = rx (rings c) \<and>
     udp_ring rds (rx (rings c)) \<and> udp_ring (d # ds) (tx (rings c)) \<and> A = S @ d # ds \<and>
     R = rds @ filter (fits (cap (rx (rings c)))) P \<and> contents (tx (rings c')) = snd d @ framed ds \<and>
     ring_inv (tx (rings c')) \<and> cap (tx (rings c')) = cap (tx (rings c)) \<and> ring_frames (tx (rings c')) = ring_frames (tx (rings c))"

definition udp_launch :: "block_address \<Rightarrow> nat \<Rightarrow> (chip_udp, bulk_action) sm" where
  "udp_launch blk n =
     (if n = 0 then
        bnd (tr (send_sock_command chip blk Send)) (\<lambda>_.
        bnd (on_tx (modify release_frame)) (\<lambda>_. ret ActNone))
      else bnd (tr (get_tx_write_pointer chip blk)) (\<lambda>pointer.
        bnd (start_tx_from_ring chip blk pointer n) (\<lambda>_.
        bnd (on_tx (modify release_frame)) (\<lambda>_.
        ret (Started BulkTransmit pointer n)))))"

lemma drained_released:
  assumes "udp_drained L i A R c c' x S P rds d ds" "contents q = framed ds" "ring_inv q" "ring_frames q = ring_frames (tx (rings c'))"
  shows "udp_ring ds (release_frame q)"
  using assms chip.release_first [of d ds "tx (rings c)" q] by (simp add: udp_drained_def)

lemma udp_launch_empty:
  assumes "67 \<le> L" "i < 8" "udp_drained L i A R c c' x S P rds d ds" "snd d = []"
  shows "wp (udp_launch (socket_block i) 0) (udp_outcome L i A R c) c'"
proof -
  note r = assms(3) [unfolded udp_drained_def]
  let ?y = "run_command i (command_code Send) x"
  have L: "11 \<le> L" using assms(1) by simp
  have rel: "udp_ring ds (release_frame (tx (rings c')))"
    by (rule drained_released [OF assms(3)]) (use r assms(4) in simp_all)
  have "udp_chip i (S @ [d]) P ?y" using send_empty [of i S P x "fst d"] r assms(2,4) by (metis prod.collapse)
  moreover have "is_udp (csockets ?y ! i)"
    using r assms(2) by (auto simp: aimed_def run_command_def is_udp_def send_out_def Let_def udp_chip_def at_rest_def udp_sent_def)
  ultimately have gone: "udp_outcome L i A R c (Ok ActNone) (c'\<lparr>trans := t, rings := (rings c')\<lparr>tx := release_frame (tx (rings c'))\<rparr>\<rparr>)"
    if "on_chip L ?y t" for t
    using r rel that by (intro udp_outcome_settled [of _ _ L ?y i A R _ WouldBlock]) (auto simp del: command_code.simps intro!: udp_heldI)
  show ?thesis
    unfolding udp_launch_def
    apply (simp only: refl if_True wp_bnd wp_tr_eq wp_on_tx)
    apply (rule wp_chip_updates(3) [OF _ L assms(2)])
    using r apply blast
    using gone apply (simp add: wp_rules wp_on_tx del: command_code.simps)
    done
qed

lemma udp_launch_payload:
  assumes "67 \<le> L" "i < 8" "udp_drained L i A R c c' x S P rds d ds" "snd d \<noteq> []" "length (snd d) \<le> 2048" "HEADER + length (snd d) \<le> L"
  shows "wp (udp_launch (socket_block i) (length (snd d))) (udp_outcome L i A R c) c'"
proof -
  note r = assms(3) [unfolded udp_drained_def]
  have L: "11 \<le> L" using assms(1) by simp
  have inv: "rings_inv (rings c')" using r by (simp add: rings_inv_def udp_ring_def)
  have moving: "udp_outcome L i A R c (Ok (Started BulkTransmit p (length (snd d)))) (c'\<lparr>trans := t, rings := (rings c')\<lparr>tx := release_frame q\<rparr>\<rparr>)"
    if "flying L y [] t" "dgram_staged i S P p d y" "contents q = framed ds" "ring_inv q"
      "ring_frames q = ring_frames (tx (rings c'))" "cap q = cap (tx (rings c'))" for t q y p
  proof (rule udp_outcome_moving [of _ _ _ y "[]"])
    show "udp_moving i A R BulkTransmit p (length (snd d)) (rings (c'\<lparr>trans := t, rings := (rings c')\<lparr>tx := release_frame q\<rparr>\<rparr>)) [] y"
      by (rule udp_moving_txI [OF that(2)]) (use that drained_released [OF assms(3) that(3-5)] r in simp_all)
  qed (use that r in \<open>simp_all add: dgram_staged_def aimed_def\<close>)
  have e: "(length (snd d) = 0) = False" using assms(4) by simp
  show ?thesis
    unfolding udp_launch_def
    apply (simp only: e if_False wp_bnd wp_tr_eq wp_on_tx)
    apply (rule wp_chip_accessors(4) [OF _ L assms(2)])
    using r apply blast
    apply (simp only: res.case)
    apply (rule wp_send_payload [OF assms(1,2), of x _ S P d "framed ds"])
    using r inv assms(5,6) moving apply (simp_all add: wp_rules wp_on_tx)
    done
qed

lemma udp_transmit_head:
  assumes "67 \<le> L" "i < 8" "udp_ready L i A R c x S P rds (d # ds)"
    and "\<And>t. 2048 < length (snd d) \<Longrightarrow> on_chip L x t \<Longrightarrow> Q (Ok ActNone) (c\<lparr>trans := t\<rparr>)"
    and "\<And>c' y. length (snd d) \<le> 2048 \<Longrightarrow> udp_drained L i A R c c' y S P rds d ds \<Longrightarrow>
       wp (udp_launch (socket_block i) (length (snd d))) Q c'"
  shows "wp (udp_transmit chip (socket_block i)) Q c"
proof -
  note r = assms(3) [unfolded udp_ready_def]
  have L: "11 \<le> L" using assms(1) by simp
  have tx: "ring_inv (tx (rings c))" "contents (tx (rings c)) = frame d @ framed ds" "sendable d" "ring_frames (tx (rings c)) \<noteq> 0"
    using r udp_ring_frames [of "d # ds" "tx (rings c)"] by (auto simp: udp_ring_def)
  have len: "unat (of_nat (length (snd d)) :: u16) = length (snd d)" by (rule sendable_len [OF tx(3)])
  have peek: "wp peek_head Q (tx (rings c)) = Q (Ok (frame_header (of_nat (length (snd d))) (fst d))) (tx (rings c))" for Q
    using peek_head_frame [OF tx(1,2)] by (simp add: wp_def)
  have fr: "(ring_frames (tx (rings c)) = 0) = False" using tx(4) by simp
  have cc: "c\<lparr>rings := (rings c)\<lparr>tx := tx (rings c)\<rparr>\<rparr> = c" "trans (c\<lparr>trans := t\<rparr>) = t" "rings (c\<lparr>trans := t\<rparr>) = rings c" for t
    by simp_all
  let ?x1 = "upd_socket i (\<lambda>s. s\<lparr>dst_ip := ip (fst d)\<rparr>) x"
  let ?x2 = "upd_socket i (\<lambda>s. s\<lparr>dst_port := port (fst d)\<rparr>) ?x1"
  have aim: "udp_chip i S P ?x2" "aimed i (fst d) ?x2"
    using r assms(2) by (auto simp: udp_chip_def at_rest_def aimed_def is_udp_def intro!: udp_chip_upd)
  have room: "unat (cb_free (stx (csockets x ! i))) = 2048"
    using r by (auto simp: udp_chip_def at_rest_def cb_free_def cb_used_def BUF_SIZE_def)
  show ?thesis
    unfolding udp_transmit_def
    apply (simp only: wp_bnd wp_gets fr if_False res.case wp_on_tx peek parse_frame prod.case wp_tr_eq cc len)
    apply (rule wp_chip_accessors(3) [of L x _ i])
    using r L assms(2) apply simp_all[3]
    apply (simp only: res.case room)
    subgoal for t1
    proof (cases "2048 < length (snd d)")
      case True
      assume "on_chip L x t1"
      with True assms(4) show ?thesis by (simp add: wp_ret)
    next
      case False
      assume on: "on_chip L x t1"
      have n0: "(2048 < length (snd d)) = False" using False by simp
      show ?thesis
        apply (simp only: n0 if_False wp_bnd wp_on_tx cc)
        apply (rule chip.wp_read_head [OF tx(1,2)])
        apply (simp only: res.case wp_tr_eq)
        apply (rule wp_chip_targets(1) [OF _ L assms(2)])
        using on apply simp
        apply (simp only: res.case wp_tr_eq)
        apply (rule wp_chip_targets(2) [OF _ L assms(2)])
         apply simp
        subgoal for q t2 t3
          using assms(5) [of "c\<lparr>rings := (rings c)\<lparr>tx := q\<rparr>, trans := t3\<rparr>" ?x2] False aim r
          by (simp add: udp_drained_def udp_launch_def split: if_splits)
        done
    qed
    done
qed

lemma udp_transmit_post:
  assumes "67 \<le> L" "i < 8" "udp_settled L i A R c" "udp_status (proto c) = Established" "cap (tx (rings c)) \<le> L + 5"
  shows "wp (udp_transmit chip (socket_block i)) (udp_outcome L i A R c) c"
proof -
  obtain x S P rds tds where r: "udp_ready L i A R c x S P rds tds" by (rule udp_settled_ready [OF assms(3,4)])
  show ?thesis
  proof (cases tds)
    case Nil
    then show ?thesis using udp_stays [OF r, of "trans c" "Ok ActNone"] r udp_ring_frames [of "[]" "tx (rings c)"]
      by (auto simp: udp_transmit_def wp_rules udp_ready_def)
  next
    case (Cons d ds)
    note r = r [unfolded Cons]
    have "ring_inv (tx (rings c))" "contents (tx (rings c)) = frame d @ framed ds" using r by (auto simp: udp_ready_def udp_ring_def)
    then have fit: "HEADER + length (snd d) \<le> L"
      using length_contents [of "tx (rings c)"] assms(5) by (simp add: FRAME_HEADER_def HEADER_def ring_inv_def ring_ok_def)
    show ?thesis
    proof (rule udp_transmit_head [OF assms(1,2) r])
      fix c' y assume d: "length (snd d) \<le> 2048" "udp_drained L i A R c c' y S P rds d ds"
      show "wp (udp_launch (socket_block i) (length (snd d))) (udp_outcome L i A R c) c'"
        using udp_launch_empty [OF assms(1,2) d(2)] udp_launch_payload [OF assms(1,2) d(2) _ d(1) fit] by (cases "snd d = []") simp_all
    qed (use udp_stays [OF r] in auto)
  qed
qed


text \<open>The handlers that move no datagram; \<open>u\<close> is whether the socket is known to be in UDP mode.\<close>

definition udp_kept :: "nat \<Rightarrow> nat \<Rightarrow> bool \<Rightarrow> datagram list \<Rightarrow> datagram list \<Rightarrow> chip_udp \<Rightarrow> chip_udp \<Rightarrow> bool" where
  "udp_kept L i u A R c c1 \<longleftrightarrow> rings c1 = rings c \<and>
     (\<exists>x. on_chip L x (trans c1) \<and> (u \<longrightarrow> is_udp (csockets x ! i)) \<and> udp_held i A R (rings c) x)"

lemma udp_held_upd:
  "udp_held i A R q x \<Longrightarrow> i < 8 \<Longrightarrow> (\<And>s. srx (f s) = srx s) \<Longrightarrow> (\<And>s. stx (f s) = stx s) \<Longrightarrow> udp_held i A R q (upd_socket i f x)"
  unfolding udp_held_def using udp_chip_upd by blast

lemma udp_held_command: "udp_held i A R q x \<Longrightarrow> i < 8 \<Longrightarrow> cmd \<noteq> Send \<Longrightarrow> udp_held i A R q (run_command i (command_code cmd) x)"
  unfolding udp_held_def using udp_chip_command by blast

lemma udp_held_sockets: "udp_held i A R q x \<Longrightarrow> length (csockets x) = 8"
  by (auto simp: udp_held_def udp_chip_def at_rest_def)

lemma is_udp_command: "i < length (csockets x) \<Longrightarrow> is_udp (csockets (run_command i cmd x) ! i) = is_udp (csockets x ! i)"
  by (simp add: run_command_def is_udp_def send_out_def Let_def)

lemma wp_udp_kept:
  assumes "67 \<le> L" "i < 8" "udp_kept L i u A R c c1"
  shows "(\<And>t v. udp_kept L i u A R c (c1\<lparr>trans := t\<rparr>) \<Longrightarrow> Q (Ok v) (c1\<lparr>trans := t\<rparr>)) \<Longrightarrow>
      wp (tr (get_interrupts chip (socket_block i))) Q c1"
    "(\<And>t v. udp_kept L i u A R c (c1\<lparr>trans := t\<rparr>) \<Longrightarrow> S (Ok v) (c1\<lparr>trans := t\<rparr>)) \<Longrightarrow>
      wp (tr (read_status chip (socket_block i))) S c1"
    "(\<And>t v. udp_kept L i u A R c (c1\<lparr>trans := t\<rparr>) \<Longrightarrow> N (Ok v) (c1\<lparr>trans := t\<rparr>)) \<Longrightarrow>
      wp (tr (is_command_pending chip (socket_block i))) N c1"
    "(\<And>t. udp_kept L i u A R c (c1\<lparr>trans := t\<rparr>) \<Longrightarrow> P (Ok ()) (c1\<lparr>trans := t\<rparr>)) \<Longrightarrow>
      wp (tr (clear_interrupts chip (socket_block i) f)) P c1"
    "cmd \<noteq> Send \<Longrightarrow> (\<And>t. udp_kept L i u A R c (c1\<lparr>trans := t\<rparr>) \<Longrightarrow> P (Ok ()) (c1\<lparr>trans := t\<rparr>)) \<Longrightarrow>
      wp (tr (send_sock_command chip (socket_block i) cmd)) P c1"
    "(\<And>t. udp_kept L i u A R c (c1\<lparr>trans := t\<rparr>) \<Longrightarrow> P (Ok ()) (c1\<lparr>trans := t\<rparr>)) \<Longrightarrow>
      wp (tr (set_src_port chip (socket_block i) p)) P c1"
    "(\<And>t. udp_kept L i True A R c (c1\<lparr>trans := t\<rparr>) \<Longrightarrow> P (Ok ()) (c1\<lparr>trans := t\<rparr>)) \<Longrightarrow>
      wp (tr (init_socket chip (socket_block i) MODE_UDP4)) P c1"
proof -
  obtain x where x: "on_chip L x (trans c1)" "u \<longrightarrow> is_udp (csockets x ! i)" "udp_held i A R (rings c) x" "rings c1 = rings c"
    using assms(3) by (auto simp: udp_kept_def)
  have L: "11 \<le> L" using assms(1) by simp
  have l: "i < length (csockets x)" using udp_held_sockets [OF x(3)] assms(2) by simp
  note rules = wp_chip_accessors [OF x(1) L assms(2)] wp_chip_updates [OF x(1) L assms(2)]
    wp_chip_targets [OF x(1) L assms(2)] wp_chip_init [OF x(1) L assms(2)]
  have keep: "udp_kept L i u A R c (c1\<lparr>trans := t\<rparr>)" if "on_chip L x t" for t
    using that x by (auto simp: udp_kept_def)
  show "(\<And>t v. udp_kept L i u A R c (c1\<lparr>trans := t\<rparr>) \<Longrightarrow> Q (Ok v) (c1\<lparr>trans := t\<rparr>)) \<Longrightarrow>
      wp (tr (get_interrupts chip (socket_block i))) Q c1"
    "(\<And>t v. udp_kept L i u A R c (c1\<lparr>trans := t\<rparr>) \<Longrightarrow> S (Ok v) (c1\<lparr>trans := t\<rparr>)) \<Longrightarrow>
      wp (tr (read_status chip (socket_block i))) S c1"
    "(\<And>t v. udp_kept L i u A R c (c1\<lparr>trans := t\<rparr>) \<Longrightarrow> N (Ok v) (c1\<lparr>trans := t\<rparr>)) \<Longrightarrow>
      wp (tr (is_command_pending chip (socket_block i))) N c1"
    "(\<And>t. udp_kept L i u A R c (c1\<lparr>trans := t\<rparr>) \<Longrightarrow> P (Ok ()) (c1\<lparr>trans := t\<rparr>)) \<Longrightarrow>
      wp (tr (set_src_port chip (socket_block i) p)) P c1"
    unfolding wp_tr_eq using keep by (auto intro!: rules)
  have upd: "udp_kept L i u' A R c (c1\<lparr>trans := t\<rparr>)"
    if "on_chip L x' t" "udp_held i A R (rings c) x'" "u' \<longrightarrow> is_udp (csockets x' ! i)" for t x' u'
    using that x(4) by (auto simp: udp_kept_def)
  show "wp (tr (clear_interrupts chip (socket_block i) f)) P c1"
    if P: "\<And>t. udp_kept L i u A R c (c1\<lparr>trans := t\<rparr>) \<Longrightarrow> P (Ok ()) (c1\<lparr>trans := t\<rparr>)"
    unfolding wp_tr_eq by (rule rules(11), rule P, rule upd, assumption) (use x l assms(2) in \<open>auto intro!: udp_held_upd simp: is_udp_def\<close>)
  show "wp (tr (send_sock_command chip (socket_block i) cmd)) P c1"
    if "cmd \<noteq> Send" and P: "\<And>t. udp_kept L i u A R c (c1\<lparr>trans := t\<rparr>) \<Longrightarrow> P (Ok ()) (c1\<lparr>trans := t\<rparr>)"
    unfolding wp_tr_eq by (rule rules(10), rule P, rule upd, assumption)
      (use x l assms(2) that(1) in \<open>auto intro!: udp_held_command simp: is_udp_command simp del: command_code.simps\<close>)
  show "wp (tr (init_socket chip (socket_block i) MODE_UDP4)) P c1"
    if P: "\<And>t. udp_kept L i True A R c (c1\<lparr>trans := t\<rparr>) \<Longrightarrow> P (Ok ()) (c1\<lparr>trans := t\<rparr>)"
    unfolding wp_tr_eq by (rule rules(15), rule P, rule upd, assumption)
      (use x l assms(2) in \<open>auto intro!: udp_held_upd simp: is_udp_def MODE_UDP4_def\<close>)
qed

lemma udp_kept_post:
  assumes "udp_kept L i u A R c c1" "udp_status (proto c1) \<in> {Opening, Established} \<longrightarrow> u"
  shows "udp_post L i A R c (Ok ActNone) c1" "udp_post L i A R c (Err e) c1"
  using assms by (auto simp: udp_kept_def udp_post_def udp_settled_def udp_open_def)

lemma udp_kept_proto [simp]: "udp_kept L i u A R c (c1\<lparr>proto := p\<rparr>) = udp_kept L i u A R c c1"
  "udp_kept L i u A R c (c1\<lparr>proto := p, trans := t\<rparr>) = udp_kept L i u A R c (c1\<lparr>trans := t\<rparr>)"
  by (simp_all add: udp_kept_def)

lemma udp_settled_kept: "udp_settled L i A R c \<Longrightarrow> udp_kept L i (udp_status (proto c) \<in> {Opening, Established}) A R c c"
  by (auto simp: udp_settled_def udp_kept_def udp_open_def)

lemma udp_quiet_post:
  assumes "67 \<le> L" "i < 8" "udp_settled L i A R c"
  shows "wp (mapr ActNone (udp_handle_init chip (socket_block i))) (udp_post L i A R c) c"
    "udp_status (proto c) = Opening \<Longrightarrow> wp (mapr ActNone (udp_handle_opening chip (socket_block i))) (udp_post L i A R c) c"
    "udp_status (proto c) \<in> {ClosingDueToError, ClosingDueToTimeout, Closing} \<Longrightarrow>
       wp (mapr ActNone (udp_handle_closing chip (socket_block i))) (udp_post L i A R c) c"
    "wp (mapr ActNone (udp_handle_close chip (socket_block i))) (udp_post L i A R c) c"
proof -
  note k = udp_settled_kept [OF assms(3)] and rules = wp_udp_kept [OF assms(1,2)]
  have k0: "udp_kept L i False A R c c" using k by (auto simp: udp_kept_def)
  show "wp (mapr ActNone (udp_handle_init chip (socket_block i))) (udp_post L i A R c) c"
    using k unfolding udp_handle_init_def
    by (auto simp: wp_rules set_udp_status_def upd_proto_def intro!: rules udp_kept_post [where u = True])
  show "udp_status (proto c) = Opening \<Longrightarrow> wp (mapr ActNone (udp_handle_opening chip (socket_block i))) (udp_post L i A R c) c"
    using k unfolding udp_handle_opening_def
    by (auto simp: wp_rules set_udp_status_def upd_proto_def intro!: rules udp_kept_post [where u = True] split: socket_status_register.splits)
  show "udp_status (proto c) \<in> {ClosingDueToError, ClosingDueToTimeout, Closing} \<Longrightarrow>
       wp (mapr ActNone (udp_handle_closing chip (socket_block i))) (udp_post L i A R c) c"
    using k0 unfolding udp_handle_closing_def
    by (auto simp: wp_rules set_udp_status_def upd_proto_def intro!: rules udp_kept_post [where u = False] split: socket_status.splits)
  show "wp (mapr ActNone (udp_handle_close chip (socket_block i))) (udp_post L i A R c) c"
    using k0 unfolding udp_handle_close_def
    by (auto simp: wp_rules set_udp_status_def upd_proto_def intro!: rules udp_kept_post [where u = False])
qed


lemma udp_post_trans:
  assumes "udp_post L i A R c1 r c2" "cap (rx (rings c1)) = cap (rx (rings c))" "cap (tx (rings c1)) = cap (tx (rings c))"
  shows "udp_post L i A R c r c2"
  using assms by (simp add: udp_post_def)

lemma udp_established_post:
  assumes "67 \<le> L" "i < 8" "udp_settled L i A R c" "udp_status (proto c) = Established" "cap (tx (rings c)) \<le> L + 5"
  shows "wp (udp_handle_established chip (socket_block i)) (udp_post L i A R c) c"
proof -
  have k: "udp_kept L i True A R c c" using udp_settled_kept [OF assms(3)] assms(4) by simp
  have moved: "wp (bnd (udp_receive chip (socket_block i)) (\<lambda>action. case action of Started _ _ _ \<Rightarrow> ret action
      | ActNone \<Rightarrow> udp_transmit chip (socket_block i))) (udp_post L i A R c) (c\<lparr>trans := t\<rparr>)"
    if "udp_kept L i True A R c (c\<lparr>trans := t\<rparr>)" for t
  proof -
    let ?c = "c\<lparr>trans := t\<rparr>"
    have s: "udp_settled L i A R ?c" "udp_status (proto ?c) = Established"
      using that assms(4) by (auto simp: udp_kept_def udp_settled_def udp_open_def)
    show ?thesis unfolding wp_bnd
    proof (rule wp_mono [OF udp_receive_post [OF assms(1,2) s]], goal_cases)
      case (1 r c1)
      have post: "udp_post L i A R c r c1" using 1 by (auto simp: udp_outcome_def intro: udp_post_trans [of L i A R ?c])
      show ?case
      proof (cases "r = Ok ActNone")
        case True
        have c1: "udp_settled L i A R c1" "udp_status (proto c1) = Established" "cap (tx (rings c1)) \<le> L + 5"
          "cap (rx (rings c1)) = cap (rx (rings c))" "cap (tx (rings c1)) = cap (tx (rings c))"
          using 1 post True assms(4,5) by (auto simp: udp_post_def udp_outcome_def)
        show ?thesis unfolding True res.case bulk_action.case
          by (rule wp_mono [OF udp_transmit_post [OF assms(1,2) c1(1-3)]]) (use c1(4,5) in \<open>auto simp: udp_outcome_def intro: udp_post_trans\<close>)
      qed (use post in \<open>auto simp: wp_ret split: res.splits bulk_action.splits\<close>)
    qed
  qed
  show ?thesis
    unfolding udp_handle_established_def wp_bnd [of "tr (get_interrupts chip (socket_block i))"]
    by (rule wp_udp_kept(1) [OF assms(1,2) k])
      (auto simp: wp_bnd [of "tr (clear_interrupts chip (socket_block i) TIMEOUT)"] moved intro!: wp_udp_kept(4) [OF assms(1,2)])
qed

lemma udp_run_post:
  assumes "67 \<le> L" "i < 8" "udp_settled L i A R c" "cap (tx (rings c)) \<le> L + 5" "udp_run chip (socket_block i) c = (r, c')"
  shows "udp_post L i A R c r c'"
proof -
  obtain r1 c1 where d: "udp_dispatch chip (socket_block i) c = (r1, c1)" by (cases "udp_dispatch chip (socket_block i) c")
  note quiet = udp_quiet_post [OF assms(1-3)]
  have stay: "udp_post L i A R c (Ok ActNone) c" using assms(3) by (simp add: udp_post_def)
  have "udp_post L i A R c r1 c1"
  proof (cases "udp_close_requested (proto c)")
    case True
    then show ?thesis using wpD [OF quiet(4)] d by (simp add: udp_dispatch_def)
  next
    case False
    then show ?thesis
      using d stay wpD [OF quiet(1)] wpD [OF quiet(2)] wpD [OF quiet(3)] wpD [OF udp_established_post [OF assms(1-3) _ assms(4)]]
      by (cases "udp_status (proto c)") (auto simp: udp_dispatch_def ret_def)
  qed
  then show ?thesis using assms(5) d
    by (auto simp: udp_run_def udp_post_def udp_settled_def split: res.splits error.splits bulk_action.splits)
qed


subsection \<open>Completion\<close>

lemma finish_receive_dgram:
  assumes "67 \<le> L" "i < 8" "op_kind op = BulkReceiveDatagram (ip a) (port a)" "op_block op = socket_block i"
    "op_bytes op = length data" "flying L x data t" "udp_chip i S ((a, data) # P) x"
    "op_pointer op = read_ptr (srx (csockets x ! i)) + 8" "8 + length data \<le> free_space (rx q)"
    "udp_ring rds (rx q)" "HEADER + length data \<le> L"
  shows "wp (finish_bulk chip op) (\<lambda>r (t', q'). r = Ok () \<and> udp_ring (rds @ [(a, data)]) (rx q') \<and> tx q' = tx q \<and>
     cap (rx q') = cap (rx q) \<and>
     (\<exists>x'. on_chip L x' t' \<and> udp_chip i S P x' \<and> is_udp (csockets x' ! i) = is_udp (csockets x ! i))) (t, q)"
proof -
  obtain t1 where f: "finish_read chip (length data) t = (Ok data, t1)" "on_chip L x t1"
    using chip_finish_read [OF assms(6)] assms(11) by auto
  have fin: "wp (finish_read chip (length data)) Q t = Q (Ok data) t1" for Q using f(1) by (simp add: wp_def)
  let ?h = "frame_header (of_nat (length data)) a"
  have hdr: "to_be 2 (of_nat (length data) :: u16) @ to_be 4 (ip a) @ to_be 2 (port a) = ?h" by (simp add: frame_header_def)
  have rx: "ring_inv (rx q)" "contents (rx q) = framed rds" using assms(10) by (simp_all add: udp_ring_def)
  have h: "length ?h \<le> free_space (rx q)" using assms(9) by (simp add: FRAME_HEADER_def)
  have dl: "length data < 2048" using assms(7) by (auto simp: udp_chip_def)
  let ?stop = "op_pointer op + of_nat (op_bytes op)"
  have e: "?stop = read_ptr (srx (csockets x ! i)) + of_nat (8 + length (snd (a, data)))"
    using assms(5,8) by simp
  note adv = chip_advance [OF assms(1,2) f(2) assms(7) e]
  let ?post = "\<lambda>r (t', q'). r = Ok () \<and> udp_ring (rds @ [(a, data)]) (rx q') \<and> tx q' = tx q \<and> cap (rx q') = cap (rx q) \<and>
     (\<exists>x'. on_chip L x' t' \<and> udp_chip i S P x' \<and> is_udp (csockets x' ! i) = is_udp (csockets x ! i))"
  have epi: "wp (bnd (bus (set_rx_read_pointer chip (socket_block i) ?stop)) (\<lambda>_.
      bnd (bus (send_sock_command chip (socket_block i) Receive)) (\<lambda>_.
      bus (clear_interrupts chip (socket_block i) RECV)))) ?post (t1, q1)"
    if "udp_ring (rds @ [(a, data)]) (rx q1)" "tx q1 = tx q" "cap (rx q1) = cap (rx q)" for q1
    unfolding wp_bnd wp_bus_eq
    by (rule wp_mono [OF adv]) (use that in \<open>auto simp: wp_bnd wp_bus_eq elim!: wp_mono\<close>)
  note steps = wp_bnd [of "deliver xs" for xs] wp_bnd [of "bus (finish_read D n)" for D n] wp_bnd [of "modify f" for f]
  have ring: "udp_ring (rds @ [(a, data)]) (commit_frame r2)"
    if "contents r1 = contents (rx q) @ ?h" "ring_frames r1 = ring_frames (rx q)"
      "contents r2 = contents r1 @ data" "ring_inv r2" "ring_frames r2 = ring_frames r1" for r1 r2
    using that assms(10) dl by (simp add: udp_ring_def frame_def sendable_def)
  show ?thesis
    unfolding finish_bulk_def assms(3-5) bulk_kind.case Let_def hdr
    apply (simp only: steps)
    apply (rule chip.wp_deliver [OF rx(1) h])
    apply (simp only: res.case steps wp_bus_eq fin)
    apply (rule chip.wp_deliver)
      apply simp
    using assms(9) apply (simp add: FRAME_HEADER_def)
    apply (simp only: res.case steps wp_modify prod.case)
    apply (rule epi [unfolded assms(5)])
    using ring apply simp_all
    done
qed

lemma finish_transmit_dgram:
  assumes "67 \<le> L" "i < 8" "op_kind op = BulkTransmit" "op_block op = socket_block i"
    "flying L x [] t" "dgram_staged i S P (op_pointer op) d x" "op_bytes op = length (snd d)"
  shows "wp (finish_bulk chip op) (\<lambda>r (t', q'). r = Ok () \<and> q' = q \<and>
     (\<exists>x'. on_chip L x' t' \<and> udp_chip i (S @ [d]) P x' \<and> is_udp (csockets x' ! i))) (t, q)"
proof -
  obtain t1 where f: "finish_write chip t = (Ok (), t1)" "on_chip L x t1" using chip_finish_write [OF assms(5)] by auto
  let ?x1 = "upd_socket i (\<lambda>s. s\<lparr>stx := (stx s)\<lparr>write_ptr := op_pointer op + of_nat (length (snd d))\<rparr>\<rparr>) x"
  let ?x2 = "run_command i (command_code Send) ?x1"
  have post: "udp_chip i (S @ [d]) P ?x2" by (rule commit_dgram [OF assms(6,2)])
  have l: "i < length (csockets x)" using assms(2,6) by (auto simp: dgram_staged_def tx_staged_def at_rest_def)
  have "is_udp (csockets ?x1 ! i)" using assms(6) l by (simp add: dgram_staged_def aimed_def is_udp_def)
  then have u: "is_udp (csockets ?x2 ! i)" using l by (simp add: is_udp_command del: command_code.simps)
  have L: "11 \<le> L" using assms(1) by simp
  have fin: "wp (finish_write chip) Q t = Q (Ok ()) t1" for Q using f(1) by (simp add: wp_def)
  show ?thesis
    unfolding finish_bulk_def assms(3,4,7) bulk_kind.case Let_def
    apply (simp only: wp_bnd wp_bus_eq fin res.case)
    apply (rule wp_chip_updates(2) [OF f(2) L assms(2)])
    apply (simp only: res.case wp_bus_eq)
    apply (rule wp_chip_updates(3) [OF _ L assms(2)], assumption)
    using post u apply (auto simp del: command_code.simps)
    done
qed

end
