(* ===== verification/Udp_End_To_End.thy ===== *)
theory Udp_End_To_End
  imports Echo_App Udp_Stream
begin

text \<open>
  A UDP socket on the wire: driver, chip model, peers and application in any interleaving. The
  datagrams of a slot are an instance of the contract \<open>owned_flow\<close>, as the byte streams of a TCP
  slot are.
\<close>

subsection \<open>The datagrams of a slot, seen from the driver\<close>

text \<open>The slot belongs to a UDP machine, its handle is alive, and its rings have the lengths they were opened with.\<close>

definition udp_live :: "nat \<Rightarrow> nat \<Rightarrow> nat \<Rightarrow> socket_backend \<Rightarrow> socket_rings \<Rightarrow> chip_state \<Rightarrow> bool" where
  "udp_live N L i b q c \<longleftrightarrow> (\<exists>u. bk_state b = BUdp u \<and> udp_open i (udp_status u) c) \<and> \<not> release_requested b \<and>
     cap (rx q) = N \<and> cap (tx q) \<le> L + 5"

fun udp_rest :: "nat \<Rightarrow> nat \<Rightarrow> nat \<Rightarrow> (datagram list \<times> datagram list) at_rest_pred" where
  "udp_rest N L i (A, R) b q c \<longleftrightarrow> udp_live N L i b q c \<and> udp_held i A R q c"

fun udp_flight :: "nat \<Rightarrow> nat \<Rightarrow> nat \<Rightarrow> (datagram list \<times> datagram list) in_flight_pred" where
  "udp_flight N L i (A, R) op b q p c \<longleftrightarrow> udp_live N L i b q c \<and>
     udp_moving i A R (op_kind op) (op_pointer op) (op_bytes op) q p c"

lemma udp_rest_frame:
  assumes "i < 8" "j < 8" "j \<noteq> i"
  shows "frame_for j (udp_rest N L i (A, R) b q)"
  using assms
  by (auto simp: frame_for_def udp_live_def udp_held_def udp_chip_def udp_sent_def udp_open_def at_rest_def write_reg_def
      Let_def run_command_def send_out_def)

lemma slot_tick_dgrams:
  assumes "67 \<le> L" "i < 8" "bk_block b = socket_block i" "rings_inv q" "on_chip L x t" "udp_rest N L i (A, R) b q x"
    "backend_run chip \<lparr>trans = t, rings = q, proto = b\<rparr> = (r, c')"
  shows "case r of
      Ok (Started k ptr n) \<Rightarrow> \<exists>x p. flying L x p (trans c') \<and>
        udp_flight N L i (A, R) \<lparr>op_idx = i, op_kind = k, op_block = bk_block (proto c'), op_pointer = ptr, op_bytes = n\<rparr> (proto c') (rings c') p x
    | _ \<Rightarrow> bus_any L (udp_rest N L i (A, R) (proto c') (rings c')) (trans c')"
proof -
  obtain u where u: "bk_state b = BUdp u" "\<not> release_requested b" "udp_open i (udp_status u) x"
    "cap (rx q) = N" "cap (tx q) \<le> L + 5" "udp_held i A R q x"
    using assms(6) by (auto simp: udp_live_def)
  let ?c = "\<lparr>trans = t, rings = q, proto = u\<rparr>"
  obtain r1 c1 where run: "udp_run chip (socket_block i) ?c = (r1, c1)" by (cases "udp_run chip (socket_block i) ?c")
  have "udp_settled L i A R ?c" using assms(5) u by (auto simp: udp_settled_def)
  then have post: "udp_post L i A R ?c r1 c1"
    by (rule udp_run_post [OF assms(1,2) _ _ run]) (use u in simp)
  have eq: "r = r1" "trans c' = trans c1" "rings c' = rings c1" "bk_state (proto c') = BUdp (proto c1)" "\<not> release_requested (proto c')"
    using assms(3,7) u run by (auto simp: backend_run_def drive_def on_machine_def free_if_released_def)
  have live: "udp_live N L i (proto c') (rings c') y" if "udp_open i (udp_status (proto c1)) y" for y
    using that eq post u by (auto simp: udp_live_def udp_post_def)
  have rest: "bus_any L (udp_rest N L i (A, R) (proto c') (rings c')) (trans c')" if "udp_settled L i A R c1"
    using that eq live by (auto simp: udp_settled_def intro: bus_anyI)
  show ?thesis
  proof (cases r1)
    case (Ok a)
    then show ?thesis using post eq rest live by (cases a) (fastforce simp: udp_post_def)+
  qed (use post eq rest in \<open>simp_all add: udp_post_def\<close>)
qed

lemma complete_dgrams:
  assumes "67 \<le> L" "i < 8" "op_idx op = i" "op_block op = socket_block i" "rings_inv q" "HEADER + op_bytes op \<le> L"
    "bulk_need (op_kind op) (op_bytes op) \<le> free_space (rx q)" "flying L c p t" "udp_flight N L i (A, R) op b q p c"
    "finish_bulk chip op (t, q) = (r, (t', q'))"
  shows "bus_any L (udp_rest N L i (A, R) b q') t'"
proof -
  have live: "udp_live N L i b q c" using assms(9) by simp
  obtain S P rds tds where m: "udp_ring rds (rx q)" "udp_ring tds (tx q)" "R = rds @ filter (fits (cap (rx q))) P"
    "case op_kind op of
        BulkReceive \<Rightarrow> False
      | BulkReceiveDatagram a pt \<Rightarrow> udp_chip i S P c \<and> A = S @ tds \<and> op_bytes op = length p \<and>
          (\<exists>P'. P = (\<lparr>ip = a, port = pt\<rparr>, p) # P') \<and> op_pointer op = read_ptr (srx (csockets c ! i)) + 8
      | BulkTransmit \<Rightarrow> (\<exists>d. dgram_staged i S P (op_pointer op) d c \<and> op_bytes op = length (snd d) \<and> A = S @ d # tds)"
    using assms(9) by (auto simp: udp_moving_def)
  have ended: "bus_any L (udp_rest N L i (A, R) b q') t'"
    if "on_chip L y t'" "udp_held i A R q' y" "is_udp (csockets y ! i) = is_udp (csockets c ! i)"
      "cap (rx q') = cap (rx q)" "tx q' = tx q" for y
    using that live by (auto simp: udp_live_def udp_open_def intro!: bus_anyI(1))
  show ?thesis
  proof (cases "op_kind op")
    case BulkReceive
    then show ?thesis using m(4) by simp
  next
    case (BulkReceiveDatagram a pt)
    let ?a = "\<lparr>ip = a, port = pt\<rparr>"
    obtain P' where P: "P = (?a, p) # P'" "udp_chip i S P c" "A = S @ tds" "op_bytes op = length p"
      "op_pointer op = read_ptr (srx (csockets c ! i)) + 8"
      using m(4) BulkReceiveDatagram by auto
    have room: "8 + length p \<le> free_space (rx q)" "fits (cap (rx q)) (?a, p)"
      using assms(7) BulkReceiveDatagram P(4) by (auto simp: fits_def FRAME_HEADER_def free_space_def)
    have "wp (finish_bulk chip op) (\<lambda>r (t', q'). r = Ok () \<and> udp_ring (rds @ [(?a, p)]) (rx q') \<and> tx q' = tx q \<and>
        cap (rx q') = cap (rx q) \<and>
        (\<exists>x'. on_chip L x' t' \<and> udp_chip i S P' x' \<and> is_udp (csockets x' ! i) = is_udp (csockets c ! i))) (t, q)"
      by (rule finish_receive_dgram [OF assms(1,2) _ assms(4) P(4) assms(8) P(2) [unfolded P(1)] P(5) room(1) m(1)])
        (use BulkReceiveDatagram assms(6) P(4) in simp_all)
    from wpD [OF this assms(10)] obtain x' where x': "on_chip L x' t'" "udp_chip i S P' x'"
      "is_udp (csockets x' ! i) = is_udp (csockets c ! i)" "udp_ring (rds @ [(?a, p)]) (rx q')" "tx q' = tx q" "cap (rx q') = cap (rx q)"
      by auto
    have "udp_held i A R q' x'" by (rule udp_heldI [OF x'(2,4)]) (use m(2,3) P(1,3) room(2) x'(5,6) in simp_all)
    then show ?thesis by (rule ended [OF x'(1) _ x'(3,6,5)])
  next
    case BulkTransmit
    then obtain d where d: "dgram_staged i S P (op_pointer op) d c" "op_bytes op = length (snd d)" "A = S @ d # tds"
      using m(4) by auto
    have "flying L c [] t" using assms(8) by (auto simp: flying_def)
    from wpD [OF finish_transmit_dgram [OF assms(1,2) BulkTransmit assms(4) this d(1,2)] assms(10)]
    obtain x' where x': "on_chip L x' t'" "udp_chip i (S @ [d]) P x'" "is_udp (csockets x' ! i)" "q' = q" by auto
    have "udp_held i A R q' x'" by (rule udp_heldI [OF x'(2)]) (use m d(3) x'(4) in simp_all)
    moreover have "is_udp (csockets c ! i)" using d(1) by (simp add: dgram_staged_def aimed_def)
    ultimately show ?thesis using x' by (intro ended [of x']) auto
  qed
qed

interpretation udp_flow: owned_flow "udp_rest N" "udp_flight N" for N
proof
  fix i j L :: nat and g :: "datagram list \<times> datagram list" and b q
  assume ij: "i < 8" "j < 8" "j \<noteq> i"
  obtain A R where g: "g = (A, R)" by (cases g)
  show "frame_for j (udp_rest N L i g b q)" unfolding g by (rule udp_rest_frame [OF ij])
next
  fix L i b q c t g r and c' :: "(chip_state, chip_state \<times> dma_buffers, socket_backend) ctx"
  assume *: "67 \<le> L" "i < 8" "bk_block b = socket_block i" "rings_inv q" "on_chip L c t" "udp_rest N L i g b q c"
    "backend_run chip \<lparr>trans = t, rings = q, proto = b\<rparr> = (r, c')"
  obtain A R where g: "g = (A, R)" by (cases g)
  show "case r of
      Ok (Started k ptr n) \<Rightarrow> \<exists>x p. flying L x p (trans c') \<and>
        udp_flight N L i g \<lparr>op_idx = i, op_kind = k, op_block = bk_block (proto c'), op_pointer = ptr, op_bytes = n\<rparr> (proto c') (rings c') p x
    | _ \<Rightarrow> bus_any L (udp_rest N L i g (proto c') (rings c')) (trans c')"
    using slot_tick_dgrams [OF *(1-5) _ *(7)] *(6) unfolding g by simp
next
  fix L i op q c p t g b r t' q'
  assume *: "67 \<le> L" "i < 8" "op_idx op = i" "op_block op = socket_block i" "rings_inv q" "HEADER + op_bytes op \<le> L"
    "bulk_need (op_kind op) (op_bytes op) \<le> free_space (rx q)" "flying L c p t" "udp_flight N L i g op b q p c"
    "finish_bulk chip op (t, q) = (r, (t', q'))"
  obtain A R where g: "g = (A, R)" by (cases g)
  show "bus_any L (udp_rest N L i g b q') t'"
    using complete_dgrams [OF *(1-8) _ *(10)] *(9) unfolding g by simp
qed (auto simp: udp_live_def)


subsection \<open>Sessions\<close>

text \<open>
  \<open>arrived\<close> are the datagrams of the peers that the chip has taken, \<open>queued\<close> those of the application
  for which the transmit ring had room, \<open>received\<close> the results of \<^verbatim>\<open>recv_from\<close>, each with the length of
  its buffer. A \<^verbatim>\<open>recv_from\<close> that panics or does not return has no successor.
\<close>

record udp_session =
  udrv :: chip_driver
  arrived :: "datagram list"
  received :: "(nat \<times> bytes \<times> socket_addr) list"
  queued :: "datagram list"

datatype udp_event = UEnv sys_event | UPeer socket_addr bytes | UOp dgram_op

fun udp_exec :: "nat \<Rightarrow> udp_event \<Rightarrow> udp_session \<Rightarrow> udp_session option" where
  "udp_exec i (UEnv e) y = Some (y\<lparr>udrv := drv (sys_exec i e (session_start (udrv y)))\<rparr>)"
| "udp_exec i (UPeer a data) y =
     (case chip_of (udrv y) of
        None \<Rightarrow> None
      | Some c \<Rightarrow> (case peer_send_udp i a data c of
          (ok, c') \<Rightarrow> Some (y\<lparr>udrv := on_wire (\<lambda>_. c') (udrv y), arrived := arrived y @ (if ok then [(a, data)] else [])\<rparr>)))"
| "udp_exec i (UOp (RecvFrom k)) y =
     (case udp_handle_recv i k (udrv y) of
        Some (Ok None, w) \<Rightarrow> Some (y\<lparr>udrv := w\<rparr>)
      | Some (Ok (Some (out, peer)), w) \<Rightarrow> Some (y\<lparr>udrv := w, received := received y @ [(k, out, peer)]\<rparr>)
      | _ \<Rightarrow> None)"
| "udp_exec i (UOp (SendTo src a)) y =
     (case udp_handle_send i src a (udrv y) of
        (Ok n, w) \<Rightarrow> Some (y\<lparr>udrv := w, queued := queued y @
          (if FRAME_HEADER + length src \<le> free_space (tx (slot_rings i (udrv y))) then [(a, src)] else [])\<rparr>)
      | _ \<Rightarrow> None)"

text \<open>The handle moves datagrams only, and is not reset, reconnected or dropped.\<close>

fun udp_event_ok :: "nat \<Rightarrow> nat \<Rightarrow> udp_event \<Rightarrow> bool" where
  "udp_event_ok N i (UEnv (Call c)) \<longleftrightarrow> call_ok c \<and> c \<notin> {CReset, CTcpReconnect i, CUdpReconnect i, CDrop i, CReleaseRx i, CCommitTx i} \<and>
     (\<forall>n. c \<noteq> CReadRx i n) \<and> (\<forall>xs. c \<noteq> CWriteTx i xs)"
| "udp_event_ok N i (UEnv (PeerConnect j)) \<longleftrightarrow> j < 8"
| "udp_event_ok N i (UEnv (PeerSend j data)) \<longleftrightarrow> j < 8 \<and> j \<noteq> i"
| "udp_event_ok N i (UEnv (PeerSendUdp j a data)) \<longleftrightarrow> j < 8 \<and> j \<noteq> i"
| "udp_event_ok N i (UPeer a data) \<longleftrightarrow> True"
| "udp_event_ok N i (UOp op) \<longleftrightarrow> small_op N op"

fun udp_session_run :: "nat \<Rightarrow> udp_event list \<Rightarrow> udp_session \<Rightarrow> udp_session option" where
  "udp_session_run i [] y = Some y"
| "udp_session_run i (e # es) y = (case udp_exec i e y of None \<Rightarrow> None | Some y' \<Rightarrow> udp_session_run i es y')"

definition udp_session_start :: "chip_driver \<Rightarrow> udp_session" where
  "udp_session_start w = \<lparr>udrv = w, arrived = [], received = [], queued = []\<rparr>"

definition delivered_as :: "nat \<times> bytes \<times> socket_addr \<Rightarrow> datagram \<Rightarrow> bool" where
  "delivered_as r d \<longleftrightarrow> (case r of (k, out, peer) \<Rightarrow> peer = fst d \<and> out = take k (snd d))"

definition udp_carried :: "nat \<Rightarrow> nat \<Rightarrow> nat \<Rightarrow> datagram list \<Rightarrow> datagram list \<Rightarrow> chip_driver \<Rightarrow> bool" where
  "udp_carried N L i A R = flow L i (udp_rest N L i) (udp_flight N L i) (A, R)"

subsection \<open>The environment\<close>

definition udp_still :: "(socket, 'a) sm \<Rightarrow> bool" where
  "udp_still m \<longleftrightarrow> (\<forall>s N L i c. sock_rings (snd (m s)) = sock_rings s \<and>
     (udp_live N L i (cell (backend s)) (sock_rings s) c \<longrightarrow> udp_live N L i (cell (backend (snd (m s)))) (sock_rings s) c))"

lemma udp_still_control:
  "udp_still (set_held b)" "udp_still (quietly tcp_handle_status)" "udp_still (quietly udp_handle_status)"
  "udp_still tcp_close" "udp_still udp_close"
  by (auto simp: udp_still_def udp_live_def set_held_def quietly_def bnd_def ret_def udp_request_close_def
      gets_def modify_def tcp_handle_status_def udp_handle_status_def tcp_close_def udp_close_def
      on_backend_def zoom_def locked_def lock_mut_def try_lock_internal_def drop_guard_def
      split: backend_state.splits prod.splits sum.splits if_splits)

lemma udp_still_flow:
  fixes w :: chip_driver
  assumes "i < 8" "j < 8" "udp_carried N L i A R w" "sock_safe m" "j = i \<Longrightarrow> udp_still m"
  shows "udp_carried N L i A R (snd (on_socket j m w))"
proof -
  obtain r s' where m: "m (sockets w ! j) = (r, s')" by (cases "m (sockets w ! j)")
  have s: "sock_rings s' = sock_rings (sockets w ! j)"
    "udp_live N L i (cell (backend (sockets w ! j))) (sock_rings (sockets w ! j)) c \<Longrightarrow>
       udp_live N L i (cell (backend s')) (sock_rings (sockets w ! j)) c" if "j = i" for c
    using assms(5) [OF that] m unfolding udp_still_def by (metis snd_conv)+
  have "on_socket j m w = (r, w\<lparr>sockets := (sockets w)[j := s']\<rparr>) \<and>
      flow L i (udp_rest N L i) (udp_flight N L i) (A, R) (w\<lparr>sockets := (sockets w)[j := s']\<rparr>)"
    by (rule udp_flow.on_socket_flow [OF assms(2) assms(3) [unfolded udp_carried_def] assms(4) m _ _ _ assms(1)])
      (use s in auto)
  then show ?thesis by (simp add: udp_carried_def)
qed


text \<open>From \<open>c\<close> to \<open>c'\<close>, exactly the datagrams \<open>ds\<close> arrive for socket \<open>i\<close>.\<close>

definition udp_arrives :: "nat \<Rightarrow> datagram list \<Rightarrow> chip_state \<Rightarrow> chip_state \<Rightarrow> bool" where
  "udp_arrives i ds c c' \<longleftrightarrow> length (csockets c') = length (csockets c) \<and> sent c' = sent c \<and> sent_dgrams c' = sent_dgrams c \<and>
     (let s = csockets c ! i; s' = csockets c' ! i in stx s' = stx s \<and> mr s' = mr s \<and> dst_ip s' = dst_ip s \<and>
        dst_port s' = dst_port s \<and> read_ptr (srx s') = read_ptr (srx s) \<and> cb_ok (srx s') \<and> fifo (srx s') = fifo (srx s) @ framed ds) \<and>
     (\<forall>d \<in> set ds. length (snd d) < 2048)"

lemma arrives_chip:
  assumes "udp_arrives i ds c c'"
  shows "udp_chip i S P c \<Longrightarrow> udp_chip i S (P @ ds) c'" "dgram_staged i S P k d c \<Longrightarrow> dgram_staged i S (P @ ds) k d c'"
    "is_udp (csockets c' ! i) = is_udp (csockets c ! i)" "read_ptr (srx (csockets c' ! i)) = read_ptr (srx (csockets c ! i))"
proof -
  have r: "at_rest i B (F @ framed ds) c'" if "at_rest i B F c" for B F
    using that assms by (simp add: udp_arrives_def at_rest_def Let_def)
  have st: "tx_staged i B (F @ framed ds) k data c'" if "tx_staged i B F k data c" for B F data
    using that assms r by (auto simp: tx_staged_def udp_arrives_def Let_def)
  show "udp_chip i S P c \<Longrightarrow> udp_chip i S (P @ ds) c'"
    using r assms by (fastforce simp: udp_chip_def udp_sent_def udp_arrives_def)
  show "dgram_staged i S P k d c \<Longrightarrow> dgram_staged i S (P @ ds) k d c'"
    using st assms by (fastforce simp: dgram_staged_def udp_sent_def aimed_def is_udp_def udp_arrives_def Let_def)
qed (use assms in \<open>simp_all add: udp_arrives_def is_udp_def Let_def\<close>)

lemma udp_arrive:
  assumes "udp_arrives i ds c c'"
  shows "udp_rest N L i (A, R) b q c \<Longrightarrow> udp_rest N L i (A, R @ filter (fits N) ds) b q c'"
    "udp_flight N L i (A, R) op b q p c \<Longrightarrow> udp_flight N L i (A, R @ filter (fits N) ds) op b q p c'"
proof -
  note ch = arrives_chip [OF assms]
  show "udp_rest N L i (A, R) b q c \<Longrightarrow> udp_rest N L i (A, R @ filter (fits N) ds) b q c'"
    using ch by (fastforce simp: udp_live_def udp_open_def udp_held_def)
  have "udp_moving i A (R @ filter (fits (cap (rx q))) ds) k ptr n q p c'" if m: "udp_moving i A R k ptr n q p c" for k ptr n
  proof -
    obtain S P rds tds where m: "udp_ring rds (rx q)" "udp_ring tds (tx q)" "R = rds @ filter (fits (cap (rx q))) P"
      "case k of
          BulkReceive \<Rightarrow> False
        | BulkReceiveDatagram a pt \<Rightarrow> udp_chip i S P c \<and> A = S @ tds \<and> n = length p \<and>
            (\<exists>P'. P = (\<lparr>ip = a, port = pt\<rparr>, p) # P') \<and> ptr = read_ptr (srx (csockets c ! i)) + 8
        | BulkTransmit \<Rightarrow> (\<exists>d. dgram_staged i S P ptr d c \<and> n = length (snd d) \<and> A = S @ d # tds)"
      using m by (auto simp: udp_moving_def)
    show ?thesis unfolding udp_moving_def
      by (rule exI [of _ S], rule exI [of _ "P @ ds"], rule exI [of _ rds], rule exI [of _ tds])
        (use m ch in \<open>cases k; fastforce\<close>)
  qed
  then show "udp_flight N L i (A, R) op b q p c \<Longrightarrow> udp_flight N L i (A, R @ filter (fits N) ds) op b q p c'"
    using ch(3) by (auto simp: udp_live_def udp_open_def)
qed

lemma udp_rest_chip:
  "udp_rest N L i g b q c \<Longrightarrow> length (csockets c) = 8 \<and> cb_ok (srx (csockets c ! i))"
  "udp_flight N L i g op b q p c \<Longrightarrow> length (csockets c) = 8 \<and> cb_ok (srx (csockets c ! i))"
  by (cases g; cases "op_kind op"; auto simp: udp_held_def udp_moving_def udp_chip_def dgram_staged_def tx_staged_def at_rest_def)+

lemma udp_wire:
  assumes "udp_carried N L i A R w"
    "\<And>c. chip_of w = Some c \<Longrightarrow> length (csockets c) = 8 \<Longrightarrow> cb_ok (srx (csockets c ! i)) \<Longrightarrow> udp_arrives i ds c (f c)"
  shows "udp_carried N L i A (R @ filter (fits N) ds) (on_wire f w)"
  unfolding udp_carried_def
  by (rule udp_flow.wire_flow [OF assms(1) [unfolded udp_carried_def]])
    (use assms(2) udp_rest_chip in \<open>blast intro: udp_arrive\<close>)+

lemma udp_unseen:
  "i < 8 \<Longrightarrow> length (csockets c) = 8 \<Longrightarrow> cb_ok (srx (csockets c ! i)) \<Longrightarrow> udp_arrives i [] c (peer_connect j c)"
  "i < 8 \<Longrightarrow> length (csockets c) = 8 \<Longrightarrow> cb_ok (srx (csockets c ! i)) \<Longrightarrow> j \<noteq> i \<Longrightarrow> udp_arrives i [] c (snd (peer_send j data c))"
  "i < 8 \<Longrightarrow> length (csockets c) = 8 \<Longrightarrow> cb_ok (srx (csockets c ! i)) \<Longrightarrow> j \<noteq> i \<Longrightarrow> udp_arrives i [] c (snd (peer_send_udp j a data c))"
  by (auto simp: udp_arrives_def peer_connect_def peer_send_def peer_send_udp_def Let_def)

text \<open>A datagram that the chip accepts is one frame more in its FIFO.\<close>

lemma udp_arrives_own:
  assumes "i < 8" "length (csockets c) = 8" "cb_ok (srx (csockets c ! i))" "peer_send_udp i a data c = (ok, c')"
  shows "udp_arrives i (if ok then [(a, data)] else []) c c'"
proof -
  let ?b = "srx (csockets c ! i)" and ?h = "frame_header (of_nat (length data)) a"
  show ?thesis
  proof (cases "unat (cb_free ?b) < 8 + length data")
    case False
    have f: "unat (cb_free ?b) = 2048 - unat (cb_used ?b)" "unat (cb_used ?b) \<le> 2048"
      using cb_free_unat [OF assms(3)] assms(3) by (auto simp: cb_ok_def)
    have dl: "length data < 2048" using False f by simp
    let ?b1 = "(cb_poke (write_ptr ?b) ?h ?b)\<lparr>write_ptr := write_ptr ?b + of_nat (length ?h)\<rparr>"
    let ?b2 = "(cb_poke (write_ptr ?b1) data ?b1)\<lparr>write_ptr := write_ptr ?b1 + of_nat (length data)\<rparr>"
    have 1: "fifo ?b1 = fifo ?b @ ?h" "cb_ok ?b1"
      using fifo_arrive [OF assms(3), of ?h] False f by (simp_all add: FRAME_HEADER_def)
    have "length (fifo ?b1) = length (fifo ?b) + 8" unfolding 1(1) by (simp add: FRAME_HEADER_def)
    then have u: "unat (cb_used ?b1) = unat (cb_used ?b) + 8" by (simp only: length_fifo)
    have 2: "fifo ?b2 = fifo ?b @ ?h @ data" "cb_ok ?b2"
      using fifo_arrive [OF 1(2), of data] 1(1) u False f by (simp_all add: FRAME_HEADER_def)
    have e: "?b2 = (cb_poke (write_ptr ?b + 8) data (cb_poke (write_ptr ?b) ?h ?b))\<lparr>write_ptr := write_ptr ?b + 8 + of_nat (length data)\<rparr>"
      by (simp add: cb_poke_def FRAME_HEADER_def)
    have c: "ok" "c' = upd_socket i (\<lambda>s. s\<lparr>srx := ?b2, ir := ir s OR 4\<rparr>) c"
      using assms(4) False packet_frame [OF dl, of a] unfolding e by (auto simp: peer_send_udp_def Let_def)
    show ?thesis unfolding c(2) using 2 c(1) assms(1,2) dl
      by (simp add: udp_arrives_def frame_def)
  qed (use assms in \<open>auto simp: peer_send_udp_def udp_arrives_def\<close>)
qed

lemma env_carried:
  assumes "67 \<le> L" "i < 8" "udp_event_ok M i (UEnv e)" "udp_carried N L i A R (drv y)"
  shows "udp_carried N L i A R (drv (sys_exec i e y))"
proof -
  have snd: "drv (sys_exec i (Call c) y) = snd (w_exec chip mock_pin c (drv y))" for c
    by (cases c) (auto simp: quietly_def on_socket_def zoom_def bnd_def ret_def split: res.splits prod.splits)
  have wire: "udp_carried N L i A R (on_wire f (drv y))"
    if "\<And>c. chip_of (drv y) = Some c \<Longrightarrow> length (csockets c) = 8 \<Longrightarrow> cb_ok (srx (csockets c ! i)) \<Longrightarrow> udp_arrives i [] c (f c)" for f
    using udp_wire [OF assms(4), of "[]" f] that by simp
  show ?thesis
  proof (cases e)
    case (Call c)
    show ?thesis unfolding Call snd
    proof (cases c)
      case CService
      then show "udp_carried N L i A R (snd (w_exec chip mock_pin c (drv y)))"
        using udp_flow.service_flow [OF assms(4) [unfolded udp_carried_def] _ assms(1,2)]
        by (cases "w6100_service chip mock_pin (drv y)") (simp add: udp_carried_def)
    next
      case CDmaComplete
      then show "udp_carried N L i A R (snd (w_exec chip mock_pin c (drv y)))"
        using udp_flow.dma_complete_flow [OF assms(4) [unfolded udp_carried_def] _ assms(1,2)]
        by (cases "dma_complete chip mock_pin (drv y)") (simp add: udp_carried_def)
    next
      case (CSetConfig cfg)
      then show "udp_carried N L i A R (snd (w_exec chip mock_pin c (drv y)))"
        using udp_flow.config_flow [OF assms(4) [unfolded udp_carried_def]] by (simp add: udp_carried_def)
    qed (use assms Call in \<open>auto simp: claim_block udp_still_control sock_safe_control sock_safe_reconnect sock_safe_read sock_safe_write
      open_tcp_connect_def open_tcp_listen_def open_udp_def udp_carried_def intro!: udp_still_flow [unfolded udp_carried_def]
      udp_flow.open_flow [OF assms(4) [unfolded udp_carried_def] _ _ _ assms(2)]\<close>)
  next
    case (PeerConnect j)
    have "udp_carried N L i A R (on_wire (peer_connect j) (drv y))"
      by (rule wire) (rule udp_unseen [OF assms(2)])
    then show ?thesis using PeerConnect by simp
  next
    case (PeerSend j data)
    show ?thesis
    proof (cases "chip_of (drv y)")
      case (Some c)
      have "udp_carried N L i A R (on_wire (\<lambda>_. snd (peer_send j data c)) (drv y))"
        by (rule wire) (use udp_unseen(2) [OF assms(2)] assms(3) PeerSend Some in auto)
      then show ?thesis using PeerSend Some by (cases "peer_send j data c") simp
    qed (use PeerSend assms(4) in simp)
  next
    case (PeerSendUdp j a data)
    have "udp_carried N L i A R (on_wire (\<lambda>c. snd (peer_send_udp j a data c)) (drv y))"
      by (rule wire) (use udp_unseen(3) [OF assms(2)] assms(3) PeerSendUdp in auto)
    then show ?thesis using PeerSendUdp by simp
  qed
qed


subsection \<open>The handle\<close>

lemma framed_inj:
  "framed ds = framed es \<Longrightarrow> \<forall>d \<in> set ds. sendable d \<Longrightarrow> \<forall>d \<in> set es. sendable d \<Longrightarrow> ds = es"
proof (induction ds arbitrary: es)
  case Nil
  then show ?case using length_framed [of es] by (cases es) (auto simp: FRAME_HEADER_def)
next
  case (Cons d ds)
  have "es \<noteq> []" using Cons.prems(1) length_framed [of "d # ds"] by (auto simp: FRAME_HEADER_def simp del: framed_simps(2))
  then obtain e es' where es: "es = e # es'" by (cases es) auto
  let ?h = "\<lambda>d. frame_header (of_nat (length (snd d))) (fst d)"
  have eq: "?h d @ snd d @ framed ds = ?h e @ snd e @ framed es'" using Cons.prems(1) es by (simp add: frame_def)
  have h: "?h d = ?h e" using arg_cong [OF eq, of "take FRAME_HEADER"] by simp
  have r: "snd d @ framed ds = snd e @ framed es'" using arg_cong [OF eq, of "drop FRAME_HEADER"] by simp
  have "parse_frame_header (?h d) = parse_frame_header (?h e)" by (simp only: h)
  then have "fst d = fst e" "length (snd d) = length (snd e)"
    using sendable_len [of d] sendable_len [of e] Cons.prems(2,3) es by (simp_all only: parse_frame prod.inject list.set_intros)
  moreover from this(2) r have "snd d = snd e" "framed ds = framed es'" by simp_all
  moreover from this(2) have "ds = es'" by (rule Cons.IH) (use Cons.prems(2,3) es in simp_all)
  ultimately show ?case using es by (simp add: prod_eq_iff)
qed

lemma udp_ring_unique: "udp_ring ds r \<Longrightarrow> udp_ring es r \<Longrightarrow> ds = es"
  by (rule framed_inj) (auto simp: udp_ring_def)

text \<open>What both predicates say of the rings.\<close>

definition udp_view :: "nat \<Rightarrow> nat \<Rightarrow> datagram list \<Rightarrow> datagram list \<Rightarrow> socket_rings \<Rightarrow> bool" where
  "udp_view N L A R q \<longleftrightarrow> cap (rx q) = N \<and> cap (tx q) \<le> L + 5 \<and>
     (\<exists>rds tds S R'. udp_ring rds (rx q) \<and> udp_ring tds (tx q) \<and> A = S @ tds \<and> R = rds @ R')"

lemma udp_rest_view: "udp_rest N L i (A, R) b q c \<Longrightarrow> udp_view N L A R q"
  by (auto simp: udp_view_def udp_live_def udp_held_def)

lemma udp_flight_view:
  assumes "udp_flight N L i (A, R) op b q p c"
  shows "udp_view N L A R q"
proof -
  have live: "udp_live N L i b q c" and m: "udp_moving i A R (op_kind op) (op_pointer op) (op_bytes op) q p c" using assms by simp_all
  obtain S P rds tds where r: "udp_ring rds (rx q)" "udp_ring tds (tx q)" "R = rds @ filter (fits (cap (rx q))) P"
    "case op_kind op of
        BulkReceive \<Rightarrow> False
      | BulkReceiveDatagram a pt \<Rightarrow> A = S @ tds
      | BulkTransmit \<Rightarrow> \<exists>d. A = S @ d # tds"
    using m unfolding udp_moving_def by (cases "op_kind op") auto
  obtain T where "A = T @ tds"
  proof (cases "op_kind op")
    case BulkTransmit
    then obtain d where "A = (S @ [d]) @ tds" using r(4) by auto
    then show ?thesis by (rule that)
  qed (use r(4) that in auto)
  with r(1-3) live show ?thesis unfolding udp_view_def udp_live_def by blast
qed

lemma udp_slot: "udp_carried N L i A R w \<Longrightarrow> udp_view N L A R (slot_rings i w)"
  by (auto simp: udp_carried_def flow_def slot_bus_def bus_any_def slot_rings_def simp del: udp_rest.simps udp_flight.simps
      split: option.splits if_splits intro: udp_rest_view udp_flight_view)

text \<open>The oldest datagrams leave the receive ring, or some are appended to the transmit ring.\<close>

lemma dgram_moves:
  assumes "udp_ring (ds @ rds) (rx q)" "udp_ring rds (rx q')" "udp_ring tds (tx q)" "udp_ring (tds @ es) (tx q')"
    "cap (rx q') = cap (rx q)" "cap (tx q') = cap (tx q)"
  shows "udp_rest N L i (A, R) b q c \<Longrightarrow> udp_rest N L i (A @ es, drop (length ds) R) b q' c"
    "udp_flight N L i (A, R) op b q p c \<Longrightarrow> udp_flight N L i (A @ es, drop (length ds) R) op b q' p c"
proof -
  have u: "rds' = ds @ rds" if "udp_ring rds' (rx q)" for rds' by (rule udp_ring_unique [OF that assms(1)])
  have v: "tds' = tds" if "udp_ring tds' (tx q)" for tds' by (rule udp_ring_unique [OF that assms(3)])
  have live: "udp_live N L i b q' c" if "udp_live N L i b q c" using that assms(5,6) by (simp add: udp_live_def)
  show "udp_rest N L i (A, R) b q c \<Longrightarrow> udp_rest N L i (A @ es, drop (length ds) R) b q' c"
  proof -
    assume rest: "udp_rest N L i (A, R) b q c"
    then obtain S P rds' tds' where "udp_chip i S P c" "udp_ring rds' (rx q)" "udp_ring tds' (tx q)" "A = S @ tds'"
      "R = rds' @ filter (fits (cap (rx q))) P" by (auto simp: udp_held_def)
    with u [of rds'] v [of tds'] have "udp_held i (A @ es) (drop (length ds) R) q' c"
      by (intro udp_heldI [OF _ assms(2,4)]) (simp_all add: assms(5))
    with live rest show ?thesis by simp
  qed
  have "udp_moving i (A @ es) (drop (length ds) R) k ptr n q' p c" if m: "udp_moving i A R k ptr n q p c" for k ptr n
  proof -
    obtain S P rds' tds' where r: "udp_ring rds' (rx q)" "udp_ring tds' (tx q)" "R = rds' @ filter (fits (cap (rx q))) P"
      "case k of
          BulkReceive \<Rightarrow> False
        | BulkReceiveDatagram a pt \<Rightarrow> udp_chip i S P c \<and> A = S @ tds' \<and> n = length p \<and>
            (\<exists>P'. P = (\<lparr>ip = a, port = pt\<rparr>, p) # P') \<and> ptr = read_ptr (srx (csockets c ! i)) + 8
        | BulkTransmit \<Rightarrow> (\<exists>d. dgram_staged i S P ptr d c \<and> n = length (snd d) \<and> A = S @ d # tds')"
      using m unfolding udp_moving_def by blast
    have R: "drop (length ds) R = rds @ filter (fits (cap (rx q'))) P" using r(3) u [OF r(1)] assms(5) by simp
    note m = r(4) [unfolded v [OF r(2)]]
    show ?thesis unfolding udp_moving_def
      by (rule exI [of _ S], rule exI [of _ P], rule exI [of _ rds], rule exI [of _ "tds @ es"])
        (use m R assms(2,4) in \<open>cases k; auto\<close>)
  qed
  then show "udp_flight N L i (A, R) op b q p c \<Longrightarrow> udp_flight N L i (A @ es, drop (length ds) R) op b q' p c"
    using live by auto
qed

text \<open>A call of the handle that moves datagrams between the application and its rings.\<close>

lemma rings_carried:
  fixes w :: chip_driver
  assumes "udp_carried N L i A R w" "i < 8" "s' = (sockets w ! i)\<lparr>sock_rings := q'\<rparr>"
    "udp_ring (ds @ rds) (rx (slot_rings i w))" "udp_ring rds (rx q')" "udp_ring tds (tx (slot_rings i w))" "udp_ring (tds @ es) (tx q')"
    "cap (rx q') = cap (rx (slot_rings i w))" "cap (tx q') = cap (tx (slot_rings i w))"
  shows "udp_carried N L i (A @ es) (drop (length ds) R) (w\<lparr>sockets := (sockets w)[i := s']\<rparr>)"
proof -
  have inv: "w_inv chip L w" "i < length (sockets w)" "rings_inv (slot_rings i w)"
    using assms(1,2) slot_inv [of chip L w i] by (auto simp: udp_carried_def flow_def)
  have "free_space (rx (slot_rings i w)) \<le> free_space (rx q')"
    using ring.fifo_room [of "rx q'"] ring.fifo_room [of "rx (slot_rings i w)"] assms(8) udp_ring_len [OF assms(4)] udp_ring_len [OF assms(5)]
      assms(4,5) by (auto simp: udp_ring_def)
  then have "sock_step (sockets w ! i) s'"
    using assms(3,5,7) by (simp add: sock_step_def rings_inv_def slot_rings_def udp_ring_def)
  from w_inv_update [OF inv(1) assms(2) this] have w: "w_inv chip L (w\<lparr>sockets := (sockets w)[i := s']\<rparr>)" .
  note moves = dgram_moves [of ds rds "slot_rings i w" q' tds es, OF assms(4-9)]
  show ?thesis unfolding udp_carried_def
    by (rule udp_flow.update_flow [OF assms(1) [unfolded udp_carried_def] w])
      (use inv(2) assms(3) moves in \<open>auto simp: slot_rings_def simp del: udp_rest.simps udp_flight.simps\<close>)
qed

lemma recv_carried:
  fixes w :: chip_driver
  assumes "udp_carried N L i A R w" "i < 8"
  shows "\<exists>x w' R'. udp_handle_recv i k w = Some (Ok x, w') \<and> udp_carried N L i A R' w' \<and>
    (case x of None \<Rightarrow> R' = R | Some (out, peer) \<Rightarrow> \<exists>d. R = d # R' \<and> delivered_as (k, out, peer) d)"
proof -
  obtain rds tds R' where q: "udp_ring rds (rx (slot_rings i w))" "udp_ring tds (tx (slot_rings i w))" "R = rds @ R'"
    using udp_slot [OF assms(1)] by (auto simp: udp_view_def)
  have l: "i < length (sockets w)" using assms slot_inv [of chip L w i] by (auto simp: udp_carried_def flow_def)
  obtain r where r: "udp_recv_from k (rx (slot_rings i w)) = Some (Ok (fst (dq_recv k rds)), r)" "udp_ring (snd (dq_recv k rds)) r"
    "cap r = cap (rx (slot_rings i w))"
    using udp_recv_from_spec [OF q(1), of k] by blast
  let ?s = "(sockets w ! i)\<lparr>sock_rings := (slot_rings i w)\<lparr>rx := r\<rparr>\<rparr>" and ?ds = "take 1 rds"
  have run: "udp_handle_recv i k w = Some (Ok (fst (dq_recv k rds)), w\<lparr>sockets := (sockets w)[i := ?s]\<rparr>)"
    using r(1) l by (simp add: udp_handle_recv_def Let_def slot_rings_def)
  have split: "rds = ?ds @ snd (dq_recv k rds)" by (cases rds) auto
  have "udp_carried N L i (A @ []) (drop (length ?ds) R) (w\<lparr>sockets := (sockets w)[i := ?s]\<rparr>)"
    by (rule rings_carried [where ds = ?ds and rds = "snd (dq_recv k rds)" and tds = tds, OF assms refl]) (use q r split in simp_all)
  then show ?thesis using run q(3) by (cases rds) (auto simp: delivered_as_def)
qed

lemma send_carried:
  fixes w :: chip_driver
  assumes "udp_carried N L i A R w" "i < 8" "length src < 2 ^ 16 \<or> L + 5 < FRAME_HEADER + length src"
  shows "\<exists>n w'. udp_handle_send i src a w = (Ok n, w') \<and>
    udp_carried N L i (A @ (if FRAME_HEADER + length src \<le> free_space (tx (slot_rings i w)) then [(a, src)] else [])) R w' \<and>
    n = (if FRAME_HEADER + length src \<le> free_space (tx (slot_rings i w)) then length src else 0)"
proof -
  obtain rds tds where q: "udp_ring rds (rx (slot_rings i w))" "udp_ring tds (tx (slot_rings i w))"
    using udp_slot [OF assms(1)] by (auto simp: udp_view_def)
  have l: "i < length (sockets w)" using assms slot_inv [of chip L w i] by (auto simp: udp_carried_def flow_def)
  let ?N = "cap (tx (slot_rings i w))"
  obtain r where r: "udp_send_to src a (tx (slot_rings i w)) = (Ok (fst (dq_send ?N src a tds)), r)"
    "udp_ring (snd (dq_send ?N src a tds)) r" "cap r = ?N"
    using udp_send_to_any [OF q(2), of src a] assms(3) udp_slot [OF assms(1)] by (auto simp: udp_view_def)
  let ?s = "(sockets w ! i)\<lparr>sock_rings := (slot_rings i w)\<lparr>tx := r\<rparr>\<rparr>"
    and ?ok = "FRAME_HEADER + length src \<le> free_space (tx (slot_rings i w))"
  let ?es = "if ?ok then [(a, src)] else []"
  have "length (framed tds) + free_space (tx (slot_rings i w)) = ?N"
    using ring.fifo_room [of "tx (slot_rings i w)"] udp_ring_len [OF q(2)] q(2) by (auto simp: udp_ring_def)
  then have e: "dq_send ?N src a tds = (if ?ok then length src else 0, tds @ ?es)" by (auto simp: dq_send_def)
  have "udp_carried N L i (A @ ?es) (drop (length ([] :: datagram list)) R) (w\<lparr>sockets := (sockets w)[i := ?s]\<rparr>)"
    by (rule rings_carried [where ds = "[]" and rds = rds and tds = tds, OF assms(1,2) refl]) (use q r e in simp_all)
  then show ?thesis using r(1) l e by (simp add: udp_handle_send_def on_socket_def zoom_def slot_rings_def)
qed

text \<open>A reconnect drops what the rings hold; what is on its way stays.\<close>

lemma udp_cleared:
  assumes "\<And>c. udp_live N L i b q c \<Longrightarrow> udp_live N L i b' q' c" "udp_ring [] (rx q')" "udp_ring [] (tx q')"
    "cap (rx q') = cap (rx q)" "udp_ring rds (rx q)" "udp_ring tds (tx q)"
  shows "udp_rest N L i (A, R) b q c \<Longrightarrow> udp_rest N L i (take (length A - length tds) A, drop (length rds) R) b' q' c"
    "udp_flight N L i (A, R) op b q p c \<Longrightarrow> udp_flight N L i (take (length A - length tds) A, drop (length rds) R) op b' q' p c"
proof -
  have u: "udp_ring ds (rx q) \<Longrightarrow> ds = rds" "udp_ring ds (tx q) \<Longrightarrow> ds = tds" for ds
    using udp_ring_unique assms(5,6) by blast+
  show "udp_rest N L i (A, R) b q c \<Longrightarrow> udp_rest N L i (take (length A - length tds) A, drop (length rds) R) b' q' c"
  proof -
    assume rest: "udp_rest N L i (A, R) b q c"
    then obtain S P where "udp_chip i S P c" "A = S @ tds" "R = rds @ filter (fits (cap (rx q))) P"
      using u by (auto simp: udp_held_def)
    then have "udp_held i (take (length A - length tds) A) (drop (length rds) R) q' c"
      by (intro udp_heldI [OF _ assms(2,3)]) (simp_all add: assms(4))
    with rest assms(1) show ?thesis by simp
  qed
  show "udp_flight N L i (A, R) op b q p c \<Longrightarrow> udp_flight N L i (take (length A - length tds) A, drop (length rds) R) op b' q' p c"
  proof -
    assume fl: "udp_flight N L i (A, R) op b q p c"
    then obtain S P rds' tds' where r: "udp_ring rds' (rx q)" "udp_ring tds' (tx q)" "R = rds' @ filter (fits (cap (rx q))) P"
      "case op_kind op of
          BulkReceive \<Rightarrow> False
        | BulkReceiveDatagram a pt \<Rightarrow> udp_chip i S P c \<and> A = S @ tds' \<and> op_bytes op = length p \<and>
            (\<exists>P'. P = (\<lparr>ip = a, port = pt\<rparr>, p) # P') \<and> op_pointer op = read_ptr (srx (csockets c ! i)) + 8
        | BulkTransmit \<Rightarrow> (\<exists>d. dgram_staged i S P (op_pointer op) d c \<and> op_bytes op = length (snd d) \<and> A = S @ d # tds')"
      unfolding udp_flight.simps udp_moving_def by blast
    note m = r(3,4) [unfolded u(1) [OF r(1)] u(2) [OF r(2)]]
    have "udp_moving i (take (length A - length tds) A) (drop (length rds) R) (op_kind op) (op_pointer op) (op_bytes op) q' p c"
      unfolding udp_moving_def
      by (rule exI [of _ S], rule exI [of _ P], rule exI [of _ "[]"], rule exI [of _ "[]"])
        (use m assms(2-4) in \<open>cases "op_kind op"; auto\<close>)
    with fl assms(1) show ?thesis by simp
  qed
qed

lemma udp_reconnect_carried:
  fixes w :: chip_driver
  assumes "i < 8" "udp_carried N L i A R w"
  shows "\<exists>A R. udp_carried N L i A R (snd (on_socket i udp_reconnect w))"
proof (cases "busy (backend (sockets w ! i))")
  case True
  then have "snd (on_socket i udp_reconnect w) = w" by (simp add: on_socket_def udp_reconnect_def)
  with assms(2) show ?thesis by metis
next
  case False
  let ?s = "sockets w ! i"
  obtain r s' where m: "udp_reconnect ?s = (r, s')" by (cases "udp_reconnect ?s")
  have safe: "sock_safe udp_reconnect" by (simp add: sock_safe_reconnect)
  obtain rds tds where q: "udp_ring rds (rx (sock_rings ?s))" "udp_ring tds (tx (sock_rings ?s))"
    using udp_slot [OF assms(2)] by (auto simp: udp_view_def slot_rings_def)
  obtain c u where live: "bk_state (cell (backend ?s)) = BUdp u"
    using assms(2) by (auto simp: udp_carried_def flow_def slot_bus_def bus_any_def udp_live_def split: option.splits if_splits)
  have s': "bk_state (cell (backend s')) = BUdp (udp_rearm u)" "release_requested (cell (backend s')) = release_requested (cell (backend ?s))"
    "sock_rings s' = rings_clear (sock_rings ?s)"
    using m False live by (auto simp: udp_reconnect_def)
  have r: "udp_ring [] (rx (sock_rings s'))" "udp_ring [] (tx (sock_rings s'))" "cap (rx (sock_rings s')) = cap (rx (sock_rings ?s))"
    "cap (tx (sock_rings s')) = cap (tx (sock_rings ?s))"
    using q s' ring_inv_clear by (auto simp: udp_ring_def rings_clear_def ring_clear_def contents_def ring_len_def ring_frames_def)
  have l: "udp_live N L i (cell (backend ?s)) (sock_rings ?s) c \<Longrightarrow> udp_live N L i (cell (backend s')) (sock_rings s') c" for c
    using s' r by (auto simp: udp_live_def udp_open_def udp_rearm_def)
  have "\<exists>A R. on_socket i udp_reconnect w = (r, w\<lparr>sockets := (sockets w)[i := s']\<rparr>) \<and>
      flow L i (udp_rest N L i) (udp_flight N L i) (A, R) (w\<lparr>sockets := (sockets w)[i := s']\<rparr>)"
    by (intro exI, rule udp_flow.on_socket_flow [OF assms(1) assms(2) [unfolded udp_carried_def] safe m _ _ _ assms(1)])
      (use udp_cleared [OF l r(1-3) q] in \<open>simp_all del: udp_rest.simps udp_flight.simps\<close>)
  then show ?thesis unfolding udp_carried_def by (elim exE conjE) (intro exI, simp)
qed

subsection \<open>Whole runs\<close>

definition udp_sound :: "nat \<Rightarrow> nat \<Rightarrow> nat \<Rightarrow> udp_session \<Rightarrow> bool" where
  "udp_sound N L i y \<longleftrightarrow> (\<exists>ds R. udp_carried N L i (queued y) R (udrv y) \<and> list_all2 delivered_as (received y) ds \<and>
     filter (fits N) (arrived y) = ds @ R)"

lemma udp_soundI:
  "list_all2 delivered_as (received y) ds \<Longrightarrow> filter (fits N) (arrived y) = ds @ R \<Longrightarrow>
     udp_carried N L i (queued y) R (udrv y) \<Longrightarrow> udp_sound N L i y"
  by (auto simp: udp_sound_def)

lemma udp_chip_of:
  assumes "udp_carried N L i A R w"
  shows "\<exists>c. chip_of w = Some c \<and> length (csockets c) = 8 \<and> cb_ok (srx (csockets c ! i))"
proof -
  let ?t = "transport (cell (device w))"
  have co: "on_chip L c ?t \<or> flying L c p ?t \<Longrightarrow> chip_of w = Some c" for c p
    by (auto simp: on_chip_def flying_def chip_of_def)
  have any: ?thesis if "bus_any L (udp_rest N L i g b q) ?t" for g b q
    using that co udp_rest_chip(1) unfolding bus_any_def by metis
  have flight: ?thesis if "flying L c p ?t" "udp_flight N L i g op b q p c" for c p g op b q
    using that co udp_rest_chip(2) by metis
  show ?thesis using assms unfolding udp_carried_def flow_def slot_bus_def
    by (auto simp del: udp_rest.simps udp_flight.simps split: option.splits if_splits dest: any flight)
qed

lemma udp_exec_sound:
  assumes "67 \<le> L" "i < 8" "udp_event_ok (L + 5) i e" "udp_sound N L i y"
  shows "\<exists>y'. udp_exec i e y = Some y' \<and> udp_sound N L i y'"
proof -
  obtain ds R where y: "udp_carried N L i (queued y) R (udrv y)" "list_all2 delivered_as (received y) ds"
    "filter (fits N) (arrived y) = ds @ R"
    using assms(4) by (auto simp: udp_sound_def)
  show ?thesis
  proof (cases e)
    case (UEnv ev)
    have "udp_carried N L i (queued y) R (drv (sys_exec i ev (session_start (udrv y))))"
      by (rule env_carried [OF assms(1,2)]) (use assms(3) UEnv y in \<open>simp_all add: session_start_def\<close>)
    then show ?thesis using UEnv y by (auto simp: udp_sound_def)
  next
    case (UPeer a data)
    obtain c where c: "chip_of (udrv y) = Some c" "length (csockets c) = 8" "cb_ok (srx (csockets c ! i))" using udp_chip_of [OF y(1)] by blast
    obtain ok c' where p: "peer_send_udp i a data c = (ok, c')" by (cases "peer_send_udp i a data c")
    let ?new = "if ok then [(a, data)] else []"
    have "udp_carried N L i (queued y) (R @ filter (fits N) ?new) (on_wire (\<lambda>_. c') (udrv y))"
      by (rule udp_wire [OF y(1)]) (use udp_arrives_own [OF assms(2) c(2,3) p] c(1) in simp)
    then have "udp_sound N L i (y\<lparr>udrv := on_wire (\<lambda>_. c') (udrv y), arrived := arrived y @ ?new\<rparr>)"
      by (intro udp_soundI [of _ ds N "R @ filter (fits N) ?new"]) (use y(2,3) in simp_all)
    then show ?thesis using UPeer c(1) p by simp
  next
    case (UOp op)
    show ?thesis
    proof (cases op)
      case (SendTo src a)
      have "length src < 2 ^ 16 \<or> L + 5 < FRAME_HEADER + length src" using assms(3) UOp SendTo by (simp add: small_op_def)
      from send_carried [OF y(1) assms(2) this, of a] obtain n w' where s: "udp_handle_send i src a (udrv y) = (Ok n, w')"
        "udp_carried N L i (queued y @ (if FRAME_HEADER + length src \<le> free_space (tx (slot_rings i (udrv y))) then [(a, src)] else [])) R w'"
        by blast
      have "udp_sound N L i (y\<lparr>udrv := w', queued := queued y @
          (if FRAME_HEADER + length src \<le> free_space (tx (slot_rings i (udrv y))) then [(a, src)] else [])\<rparr>)"
        by (rule udp_soundI [of _ ds N R]) (use y(2,3) s(2) in simp_all)
      then show ?thesis using UOp SendTo s(1) by simp
    next
      case (RecvFrom k)
      from recv_carried [OF y(1) assms(2), of k] obtain x w' R' where x: "udp_handle_recv i k (udrv y) = Some (Ok x, w')"
        "udp_carried N L i (queued y) R' w'"
        "case x of None \<Rightarrow> R' = R | Some (out, peer) \<Rightarrow> \<exists>d. R = d # R' \<and> delivered_as (k, out, peer) d" by blast
      show ?thesis
      proof (cases x)
        case None
        then show ?thesis using UOp RecvFrom x y by (auto simp: udp_sound_def)
      next
        case (Some od)
        obtain out peer where od: "od = (out, peer)" by (cases od)
        obtain d where d: "R = d # R'" "delivered_as (k, out, peer) d" using x(3) Some od by auto
        have "list_all2 delivered_as (received y @ [(k, out, peer)]) (ds @ [d])" using y(2) d(2) by (simp add: list_all2_appendI)
        then have "udp_sound N L i (y\<lparr>udrv := w', received := received y @ [(k, out, peer)]\<rparr>)"
          by (intro udp_soundI [of _ "ds @ [d]" N R']) (use x(2) y(3) d(1) in simp_all)
        then show ?thesis using UOp RecvFrom x(1) Some od by simp
      qed
    qed
  qed
qed

lemma udp_run_sound:
  assumes "67 \<le> L" "i < 8" "\<forall>e \<in> set es. udp_event_ok (L + 5) i e" "udp_sound N L i y"
  shows "\<exists>y'. udp_session_run i es y = Some y' \<and> udp_sound N L i y'"
  using assms(3,4)
proof (induction es arbitrary: y)
  case (Cons e es)
  obtain y1 where "udp_exec i e y = Some y1" "udp_sound N L i y1"
    using udp_exec_sound [OF assms(1,2) _ Cons.prems(2), of e] Cons.prems(1) by auto
  with Cons.IH [of y1] Cons.prems(1) show ?case by simp
qed simp


text \<open>A datagram in flight, on its way to the peer that the chip is aimed at.\<close>

definition in_transit :: "nat \<Rightarrow> chip_driver \<Rightarrow> chip_state \<Rightarrow> (u32 \<times> u16 \<times> bytes) list" where
  "in_transit i w c = map (\<lambda>xs. (dst_ip (csockets c ! i), dst_port (csockets c ! i), xs)) (outgoing i w c)"

lemma udp_carried_observed:
  assumes "i < 8" "udp_carried N L i A R w"
  shows "\<exists>c rds P tds. chip_of w = Some c \<and> udp_ring rds (rx (slot_rings i w)) \<and> fifo (srx (csockets c ! i)) = framed P \<and>
    R = rds @ filter (fits N) P \<and> udp_ring tds (tx (slot_rings i w)) \<and>
    map on_the_wire A = sent_dgrams c ! i @ in_transit i w c @ map on_the_wire tds"
proof -
  let ?t = "transport (cell (device w))" and ?b = "cell (backend (sockets w ! i))" and ?q = "slot_rings i w"
  have co: "on_chip L c ?t \<or> flying L c p ?t \<Longrightarrow> chip_of w = Some c" for c p
    by (auto simp: on_chip_def flying_def chip_of_def)
  have any: ?thesis if rest: "bus_any L (udp_rest N L i (A, R) ?b ?q) ?t" and none: "\<And>c. in_transit i w c = []"
  proof -
    obtain c where c: "chip_of w = Some c" "udp_held i A R ?q c" "cap (rx ?q) = N"
      using rest co unfolding bus_any_def udp_rest.simps udp_live_def by blast
    then obtain S P rds tds where "udp_chip i S P c" "udp_ring rds (rx ?q)" "udp_ring tds (tx ?q)" "A = S @ tds"
      "R = rds @ filter (fits N) P" by (auto simp: udp_held_def)
    with c(1) show ?thesis by (auto simp: udp_chip_def udp_sent_def at_rest_def none)
  qed
  show ?thesis
  proof (cases "\<exists>op. cell (bulk w) = Some op \<and> op_idx op = i")
    case True
    then obtain op c p where op: "cell (bulk w) = Some op" "flying L c p ?t" "udp_flight N L i (A, R) op ?b ?q p c"
      using assms(2) by (auto simp: udp_carried_def flow_def slot_bus_def slot_rings_def simp del: udp_flight.simps)
    then have c: "chip_of w = Some c" "cap (rx ?q) = N" using co by (auto simp: udp_live_def)
    have idx: "op_idx op = i" using True op(1) by auto
    have "udp_moving i A R (op_kind op) (op_pointer op) (op_bytes op) ?q p c" using op(3) by simp
    then obtain S P rds tds where u: "udp_ring rds (rx ?q)" "udp_ring tds (tx ?q)" "R = rds @ filter (fits N) P"
      "case op_kind op of BulkReceive \<Rightarrow> False
      | BulkReceiveDatagram a pt \<Rightarrow> udp_chip i S P c \<and> A = S @ tds \<and> op_bytes op = length p \<and>
          (\<exists>P'. P = (\<lparr>ip = a, port = pt\<rparr>, p) # P') \<and> op_pointer op = read_ptr (srx (csockets c ! i)) + 8
      | BulkTransmit \<Rightarrow> (\<exists>d. dgram_staged i S P (op_pointer op) d c \<and> op_bytes op = length (snd d) \<and> A = S @ d # tds)"
      unfolding udp_moving_def c(2) by blast
    have m: "udp_ring rds (rx ?q)" "R = rds @ filter (fits N) P" "udp_ring tds (tx ?q)"
      "op_kind op \<noteq> BulkTransmit \<and> udp_chip i S P c \<and> A = S @ tds \<or>
       op_kind op = BulkTransmit \<and> (\<exists>d. dgram_staged i S P (op_pointer op) d c \<and> op_bytes op = length (snd d) \<and> A = S @ d # tds)"
      using u by (cases "op_kind op"; simp)+
    from m(4) have "fifo (srx (csockets c ! i)) = framed P" "map on_the_wire A = sent_dgrams c ! i @ in_transit i w c @ map on_the_wire tds"
      using op(1) idx
      by (auto simp: udp_chip_def dgram_staged_def tx_staged_def at_rest_def udp_sent_def in_transit_def outgoing_def
          aimed_def on_the_wire_def)
    with c(1) m(1-3) show ?thesis by blast
  next
    case False
    then have "in_transit i w c = []" for c by (auto simp: in_transit_def outgoing_def split: option.split)
    with False show ?thesis using assms(2) any
      by (auto simp: udp_carried_def flow_def slot_bus_def slot_rings_def simp del: udp_rest.simps split: option.splits)
  qed
qed

lemma udp_opened:
  assumes "is_free b" "udp_chip i S P c" "buffer_ok rxb" "buffer_ok txb" "length txb \<le> L + 5"
  shows "udp_rest (length rxb) L i (S, filter (fits (length rxb)) P) (snd (claim_udp (udp_bind p) b)) (rings_install rxb txb q) c"
proof -
  have b: "length b < 2 ^ 32" "length b = 0 \<or> length b dvd 2 ^ 32" if "buffer_ok b" for b using that by (auto simp: buffer_ok_def)
  have r: "udp_ring [] (ring_install b r)" "cap (ring_install b r) = length b" if "buffer_ok b" for b r
    using ring_inv_install [OF b(2,1) [OF that]] ring_install_spec [OF b(1) [OF that]]
    by (auto simp: udp_ring_def ring_install_def ring_frames_def)
  show ?thesis using assms r
    by (auto simp: udp_live_def claim_udp_def udp_bind_def udp_open_def rings_install_def intro!: udp_heldI)
qed

lemma all_rest_udp:
  assumes "all_rest c" "j < 8"
  shows "udp_chip j [] [] c"
proof -
  have "at_rest j [] [] c" using assms by (simp add: all_rest_def)
  then have "\<exists>B. at_rest j B (framed []) c" unfolding framed_simps by (rule exI)
  then show ?thesis using assms by (simp add: udp_chip_def all_rest_def udp_sent_def)
qed

lemma udp_open_starts:
  fixes w0 :: chip_driver
  assumes "67 \<le> L" "length (rx_buf b) = L" "length (tx_buf b) = L" "length m = 6"
    "w6100_new chip mock_pin chip_new () b m = Ok w0" "buffer_ok rxb" "buffer_ok txb" "length txb \<le> L + 5"
    "open_udp p rxb txb w0 = (Ok i, w)"
  shows "i < 8 \<and> udp_carried (length rxb) L i [] [] w"
proof -
  note st = open_first [OF assms(1-7) assms(9) [unfolded open_udp_def] claim_block(2)]
  obtain b0 q where w: "i = 0" "w_inv chip L w" "length (mac w) = 6" "cell (bulk w) = None"
    "bus_any L all_rest (transport (cell (device w)))" "is_free b0"
    "cell (backend (sockets w ! 0)) = snd (claim_udp (udp_bind p) b0)" "sock_rings (sockets w ! 0) = rings_install rxb txb q"
    using st by (auto simp: claim_udp_def)
  have "udp_rest (length rxb) L 0 ([], []) (cell (backend (sockets w ! 0))) (sock_rings (sockets w ! 0)) c" if "all_rest c" for c
    unfolding w(7,8) using udp_opened [OF w(6) all_rest_udp assms(6-8)] that by simp
  then show ?thesis using w by (auto simp: udp_carried_def flow_def slot_bus_def bus_any_def simp del: udp_rest.simps)
qed

text \<open>
  C5. A UDP socket is two queues of datagrams. Open a socket on a new driver, with a transmit
  ring whose datagrams fit the scratch buffers (\<open>udp_transmit_overrun_breaks_framing\<close> is what happens
  otherwise); let the interrupts, the application (on all handles) and the peers act in any
  order, as long as the chip is not reset, this handle is neither reconnected nor dropped, and every
  payload queued that the ring could hold is shorter than 64 KB. Then no \<^verbatim>\<open>recv_from\<close> and no
  \<^verbatim>\<open>send_to\<close> ever fails to return, panics or fails; the datagrams that the chip took from the
  peers, less those that the receive ring can never hold, are exactly those the application has
  received (each cut to its buffer, with its sender), then those in the receive ring, then those
  in the chip's FIFO; and the datagrams the application queued are exactly those that went out on
  the wire, with their destinations, then one in flight, then those in the transmit ring.
\<close>

theorem udp_datagrams_end_to_end:
  assumes "67 \<le> L" "length (rx_buf b) = L" "length (tx_buf b) = L" "length m = 6"
    "w6100_new chip mock_pin chip_new () b m = Ok w0" "buffer_ok rxb" "buffer_ok txb" "length txb \<le> L + 5"
    "open_udp p rxb txb w0 = (Ok i, w)" "\<forall>e \<in> set es. udp_event_ok (L + 5) i e"
  shows "\<exists>y c ds rds P tds. udp_session_run i es (udp_session_start w) = Some y \<and> chip_of (udrv y) = Some c \<and>
    list_all2 delivered_as (received y) ds \<and> udp_ring rds (rx (slot_rings i (udrv y))) \<and> fifo (srx (csockets c ! i)) = framed P \<and>
    filter (fits (length rxb)) (arrived y) = ds @ rds @ filter (fits (length rxb)) P \<and>
    udp_ring tds (tx (slot_rings i (udrv y))) \<and>
    map on_the_wire (queued y) = sent_dgrams c ! i @ in_transit i (udrv y) c @ map on_the_wire tds"
proof -
  have start: "i < 8" "udp_carried (length rxb) L i [] [] w" using udp_open_starts [OF assms(1-9)] by blast+
  have "udp_sound (length rxb) L i (udp_session_start w)"
    by (rule udp_soundI [of _ "[]" _ "[]"]) (use start in \<open>simp_all add: udp_session_start_def\<close>)
  from udp_run_sound [OF assms(1) start(1) assms(10) this] obtain y where
    y: "udp_session_run i es (udp_session_start w) = Some y" "udp_sound (length rxb) L i y" by blast
  obtain ds R where s: "udp_carried (length rxb) L i (queued y) R (udrv y)" "list_all2 delivered_as (received y) ds"
    "filter (fits (length rxb)) (arrived y) = ds @ R"
    using y(2) by (auto simp: udp_sound_def)
  obtain c rds P tds where "chip_of (udrv y) = Some c" "udp_ring rds (rx (slot_rings i (udrv y)))"
    "fifo (srx (csockets c ! i)) = framed P" "R = rds @ filter (fits (length rxb)) P" "udp_ring tds (tx (slot_rings i (udrv y)))"
    "map on_the_wire (queued y) = sent_dgrams c ! i @ in_transit i (udrv y) c @ map on_the_wire tds"
    using udp_carried_observed [OF start(1) s(1)] by (elim exE conjE) (rule that)
  with y(1) s(2,3) show ?thesis
    by (intro exI [of _ y] exI [of _ c] exI [of _ ds] exI [of _ rds] exI [of _ P] exI [of _ tds]) simp
qed


definition dgram_demo :: "udp_event list" where
  "dgram_demo = [UEnv (Call CService), UEnv (Call CService), UPeer \<lparr>ip = 7, port = 9\<rparr> [1, 2, 3], UEnv (Call CService),
     UEnv (Call CDmaComplete), UOp (RecvFrom 2), UOp (SendTo [5] \<lparr>ip = 7, port = 9\<rparr>), UOp (SendTo [] \<lparr>ip = 7, port = 9\<rparr>),
     UEnv (Call CService), UEnv (Call CDmaComplete), UEnv (Call (CUdpClose 0))]"

theorem udp_datagrams_end_to_end_witness:
  "\<exists>w0 w y c. w6100_new chip mock_pin chip_new () line_bufs line_mac = Ok w0 \<and>
     open_udp 80 (replicate 64 0) (replicate 64 0) w0 = (Ok 0, w) \<and>
     udp_session_run 0 dgram_demo (udp_session_start w) = Some y \<and> chip_of (udrv y) = Some c \<and>
     prefix (sent_dgrams c ! 0) (map on_the_wire (queued y))"
proof -
  have b: "buffer_ok (replicate 64 0)" by (simp add: buffer_ok_def)
  obtain w0 w where w: "w6100_new chip mock_pin chip_new () line_bufs line_mac = Ok w0"
    "open_udp 80 (replicate 64 0) (replicate 64 0) w0 = (Ok 0, w)"
    using open_loop_on_new unfolding open_udp_def by blast
  have e: "\<forall>e \<in> set dgram_demo. udp_event_ok (67 + 5) 0 e" by (simp add: dgram_demo_def small_op_64k FRAME_HEADER_def)
  have l: "(67 :: nat) \<le> 67" "length (rx_buf line_bufs) = 67" "length (tx_buf line_bufs) = 67" "length line_mac = 6"
    by (simp_all add: line_bufs_def line_mac_def)
  show ?thesis
    using udp_datagrams_end_to_end [OF l w(1) b b _ w(2) e] w by (force simp: prefix_def)
qed

end
