(* ===== verification/Hal_Spi.thy ===== *)
theory Hal_Spi
  imports Chip_Model
begin

text \<open>
  The platform transport of the echo example (\<^verbatim>\<open>examples/echo/src/hal_spi.rs\<close>): \<^verbatim>\<open>SpiDmaDevice\<close> on top
  of the full-duplex DMA of \<^verbatim>\<open>stm32f1xx-hal\<close>, whose documented behaviour is a locale. Under it
  the transport keeps the contract of the bus, so every theorem about the driver applies.
\<close>

subsection \<open>The HAL\<close>

text \<open>
  What the transport uses of \<^verbatim>\<open>stm32f1xx-hal\<close>, \<^verbatim>\<open>cortex-m\<close> and the peripheral access crate, as a
  dictionary over the peripheral's state: the full-duplex DMA, the transfer-complete flag and
  interrupt enable of the receive channel, the interrupt controller, and the delay loop.
\<close>

record window =
  win_buf :: bytes
  win_len :: nat

record ('h, 'x) hal =
  read_write :: "'h \<Rightarrow> window \<Rightarrow> window \<Rightarrow> 'x"
  transfer_wait :: "'x \<Rightarrow> (window \<times> window) \<times> 'h"
  clear_ctcif2 :: "'h \<Rightarrow> 'h"
  listen_tc :: "'h \<Rightarrow> 'h"
  unlisten_tc :: "'h \<Rightarrow> 'h"
  nvic_unmask :: "'h \<Rightarrow> 'h"
  asm_delay :: "u32 \<Rightarrow> 'h \<Rightarrow> 'h"

text \<open>
  The window's part of the buffer, as \<^verbatim>\<open>write_buffer\<close> and \<^verbatim>\<open>read_buffer\<close> hand it to the DMA:
  \<open>None\<close> is a window that reaches outside its slice.
\<close>

definition win_view :: "window \<Rightarrow> bytes option" where
  "win_view v = slice 0 (win_len v) (win_buf v)"

subsection \<open>The transport\<close>

definition HAL_HEADER :: nat where "HAL_HEADER = 3"
definition PAYLOAD :: nat where "PAYLOAD = 512"
definition SCRATCH :: nat where "SCRATCH = HAL_HEADER + PAYLOAD"

text \<open>\<open>cs\<close> is the level of the chip-select pin; the chip is selected while it is low.\<close>

record 'h hal_spi =
  dma :: 'h
  cs :: bool
  sysclk_hz :: u32

record 'x hal_transaction =
  transfer :: 'x
  t_cs :: bool
  t_sysclk_hz :: u32
  t_len :: nat

definition hal_spi_new :: "'h \<Rightarrow> bool \<Rightarrow> u32 \<Rightarrow> 'h hal_spi" where
  "hal_spi_new h c f = \<lparr>dma = h, cs = c, sysclk_hz = f\<rparr>"

definition delay_cycles :: "u32 \<Rightarrow> u32 \<Rightarrow> u32" where
  "delay_cycles f ns = ucast (((ucast ns :: 64 word) * ucast f) div 1000000000)"

definition hal_delay_ns :: "('h, 'x) hal \<Rightarrow> u32 \<Rightarrow> 'h hal_spi \<Rightarrow> 'h hal_spi" where
  "hal_delay_ns H ns s = s\<lparr>dma := asm_delay H (delay_cycles (sysclk_hz s) ns) (dma s)\<rparr>"

definition hal_transceive ::
  "('h, 'x) hal \<Rightarrow> 'h hal_spi \<Rightarrow> dma_buffers \<Rightarrow> completion \<Rightarrow> ('h hal_spi \<times> dma_buffers) + 'x hal_transaction" where
  "hal_transceive H s b mode =
     (let h1 = clear_ctcif2 H (dma s);
          h2 = (if mode = Interrupt then listen_tc H (nvic_unmask H h1) else h1) in
      Inr \<lparr>transfer = read_write H h2 \<lparr>win_buf = rx_buf b, win_len = dma_len b\<rparr> \<lparr>win_buf = tx_buf b, win_len = dma_len b\<rparr>,
           t_cs = False, t_sysclk_hz = sysclk_hz s, t_len = dma_len b\<rparr>)"

definition hal_wait :: "('h, 'x) hal \<Rightarrow> 'x hal_transaction \<Rightarrow> 'h hal_spi \<times> dma_buffers" where
  "hal_wait H t =
     (case transfer_wait H (transfer t) of
        ((rxw, txw), h) \<Rightarrow>
          (\<lparr>dma = unlisten_tc H (clear_ctcif2 H h), cs = True, sysclk_hz = t_sysclk_hz t\<rparr>,
           \<lparr>rx_buf = win_buf rxw, tx_buf = win_buf txw, dma_len = t_len t\<rparr>))"

definition hal_device :: "('h, 'x) hal \<Rightarrow> ('h hal_spi, 'x hal_transaction) spi_dma_device" where
  "hal_device H = \<lparr>transceive = hal_transceive H, wait = hal_wait H, delay_ns = hal_delay_ns H\<rparr>"

subsection \<open>What the transport relies on\<close>

text \<open>
  The behaviour of the hardware the source documents. The transfer exchanges the bytes of the
  two windows with whatever is on the line, provided that the transfer-complete flag of the
  receive channel is clear when the transfer is armed: with the flag set, \<^verbatim>\<open>wait\<close> returns before
  the transfer has finished, so nothing is assumed then. Nothing is assumed either about the
  flag after a transfer, because clearing it through the global bit does not stick.
\<close>

locale full_duplex_dma =
  fixes H :: "('h, 'x) hal" and tcif :: "'h \<Rightarrow> bool" and tcie :: "'h \<Rightarrow> bool" and line :: "'h \<Rightarrow> 's"
    and exchange :: "'s \<Rightarrow> bytes \<Rightarrow> 's \<times> bytes"
  assumes clear_flag: "\<not> tcif (clear_ctcif2 H h)" "tcie (clear_ctcif2 H h) = tcie h" "line (clear_ctcif2 H h) = line h"
    and listen_enables: "tcie (listen_tc H h)" "tcif (listen_tc H h) = tcif h" "line (listen_tc H h) = line h"
    and unlisten_disables: "\<not> tcie (unlisten_tc H h)" "tcif (unlisten_tc H h) = tcif h" "line (unlisten_tc H h) = line h"
    and unmask_only: "tcie (nvic_unmask H h) = tcie h" "tcif (nvic_unmask H h) = tcif h" "line (nvic_unmask H h) = line h"
    and exchange_length: "length (snd (exchange s out)) = length out"
    and completes: "\<not> tcif h \<Longrightarrow> win_view rxw = Some old \<Longrightarrow> win_view txw = Some out \<Longrightarrow> win_len rxw = win_len txw \<Longrightarrow>
      exchange (line h) out = (s, inp) \<Longrightarrow>
      \<exists>h'. transfer_wait H (read_write H h rxw txw) = ((rxw\<lparr>win_buf := copy_at 0 inp (win_buf rxw)\<rparr>, txw), h') \<and>
        line h' = s \<and> tcie h' = tcie h"
begin

lemma transfer_completes:
  assumes "dma_len b \<le> length (rx_buf b)" "dma_len b \<le> length (tx_buf b)"
    "exchange (line (dma s)) (take (dma_len b) (tx_buf b)) = (l, inp)"
  shows "\<exists>x s'. hal_transceive H s b mode = Inr x \<and> t_cs x = False \<and>
    hal_wait H x = (s', b\<lparr>rx_buf := copy_at 0 inp (rx_buf b)\<rparr>) \<and> length inp = dma_len b \<and>
    line (dma s') = l \<and> \<not> tcif (dma s') \<and> \<not> tcie (dma s') \<and> cs s' = True \<and> sysclk_hz s' = sysclk_hz s"
proof -
  let ?h1 = "clear_ctcif2 H (dma s)"
  let ?h2 = "if mode = Interrupt then listen_tc H (nvic_unmask H ?h1) else ?h1"
  let ?r = "\<lparr>win_buf = rx_buf b, win_len = dma_len b\<rparr>" and ?t = "\<lparr>win_buf = tx_buf b, win_len = dma_len b\<rparr>"
  have h2: "\<not> tcif ?h2" "line ?h2 = line (dma s)"
    using clear_flag listen_enables unmask_only by auto
  have v: "win_view ?r = Some (take (dma_len b) (rx_buf b))" "win_view ?t = Some (take (dma_len b) (tx_buf b))"
    using assms(1,2) by (simp_all add: win_view_def)
  have len: "length inp = dma_len b" using exchange_length [of "line (dma s)" "take (dma_len b) (tx_buf b)"] assms(2,3) by simp
  obtain h' where h': "transfer_wait H (read_write H ?h2 ?r ?t) = ((?r\<lparr>win_buf := copy_at 0 inp (rx_buf b)\<rparr>, ?t), h')" "line h' = l"
    using completes [OF h2(1) v, of l inp] h2(2) assms(3) by auto
  show ?thesis
    using h' len clear_flag unlisten_disables
    by (auto simp: hal_transceive_def hal_wait_def Let_def)
qed

end

text \<open>The engine keeps the contract the driver is proved against.\<close>

sublocale full_duplex_dma \<subseteq> spi: spi_contract "hal_device H"
proof
  fix L :: nat and d :: "'h hal_spi" and b c x
  assume "transceive (hal_device H) d b c = Inr x" "good_bufs L b" "dma_len b \<le> L"
  moreover obtain l inp where "exchange (line (dma d)) (take (dma_len b) (tx_buf b)) = (l, inp)" by force
  ultimately show "good_bufs L (snd (wait (hal_device H) x))"
    using transfer_completes [of b d l inp c] by (auto simp: hal_device_def good_bufs_def)
qed (simp add: hal_device_def hal_transceive_def Let_def)

subsection \<open>A DMA channel whose flag sticks\<close>

text \<open>
  The hardware the source describes, for any device at the other end of the line: a finished
  transfer leaves the flag set, and a transfer armed with the flag set returns at once.
\<close>

record 's dma_channel =
  ch_line :: 's
  ch_tcif :: bool
  ch_tcie :: bool
  ch_unmasked :: bool

definition sticky_wait ::
  "('s \<Rightarrow> bytes \<Rightarrow> 's \<times> bytes) \<Rightarrow> 's dma_channel \<times> window \<times> window \<Rightarrow> (window \<times> window) \<times> 's dma_channel" where
  "sticky_wait ex = (\<lambda>(h, rxw, txw).
     if ch_tcif h then ((rxw, txw), h)
     else
       (case ex (ch_line h) (take (win_len txw) (win_buf txw)) of
          (s, inp) \<Rightarrow> ((rxw\<lparr>win_buf := copy_at 0 inp (win_buf rxw)\<rparr>, txw), h\<lparr>ch_line := s, ch_tcif := True\<rparr>)))"

definition sticky_hal :: "('s \<Rightarrow> bytes \<Rightarrow> 's \<times> bytes) \<Rightarrow> ('s dma_channel, 's dma_channel \<times> window \<times> window) hal" where
  "sticky_hal ex = \<lparr>read_write = (\<lambda>h rxw txw. (h, rxw, txw)), transfer_wait = sticky_wait ex,
     clear_ctcif2 = (\<lambda>h. h\<lparr>ch_tcif := False\<rparr>), listen_tc = (\<lambda>h. h\<lparr>ch_tcie := True\<rparr>),
     unlisten_tc = (\<lambda>h. h\<lparr>ch_tcie := False\<rparr>), nvic_unmask = (\<lambda>h. h\<lparr>ch_unmasked := True\<rparr>),
     asm_delay = (\<lambda>_ h. h)\<rparr>"

lemma sticky_full_duplex:
  assumes "\<And>s out. length (snd (ex s out)) = length out"
  shows "full_duplex_dma (sticky_hal ex) ch_tcif ch_tcie ch_line ex"
  by unfold_locales (use assms in \<open>auto simp: sticky_hal_def sticky_wait_def win_view_def slice_def split: if_splits\<close>)

text \<open>At the other end: the chip of the integration tests, or a wire from MOSI to MISO.\<close>

definition chip_line :: "chip_state \<Rightarrow> bytes \<Rightarrow> chip_state \<times> bytes" where
  "chip_line c out = transact out (replicate (length out) 0xFF) (length out) c"

definition loop_wire :: "unit \<Rightarrow> bytes \<Rightarrow> unit \<times> bytes" where
  "loop_wire u out = (u, out)"

interpretation hal_chip: full_duplex_dma "sticky_hal chip_line" ch_tcif ch_tcie ch_line chip_line
proof (rule sticky_full_duplex)
  fix c out
  obtain c' r where "transact out (replicate (length out) 0xFF) (length out) c = (c', r)"
    by (cases "transact out (replicate (length out) 0xFF) (length out) c")
  with transact_length [OF this] show "length (snd (chip_line c out)) = length out" by (simp add: chip_line_def)
qed

interpretation hal_loop: full_duplex_dma "sticky_hal loop_wire" ch_tcif ch_tcie ch_line loop_wire
  by (rule sticky_full_duplex) (simp add: loop_wire_def)

subsection \<open>Properties\<close>

text \<open>
  C34. Every transfer is complete. Whatever the state of the flag, \<^verbatim>\<open>transceive\<close> followed by \<^verbatim>\<open>wait\<close>
  exchanges exactly the active part of the two buffers with the line, returns the buffers
  whole with the rest untouched, has the chip selected in between and released afterwards,
  and leaves the flag clear and the completion interrupt disabled.
\<close>

theorem hal_transfer_complete:
  assumes "full_duplex_dma H tcif tcie line exchange"
    "dma_len b \<le> length (rx_buf b)" "dma_len b \<le> length (tx_buf b)"
    "exchange (line (dma s)) (take (dma_len b) (tx_buf b)) = (l, inp)"
  shows "\<exists>x s'. hal_transceive H s b mode = Inr x \<and> t_cs x = False \<and>
    hal_wait H x = (s', b\<lparr>rx_buf := copy_at 0 inp (rx_buf b)\<rparr>) \<and> length inp = dma_len b \<and>
    line (dma s') = l \<and> \<not> tcif (dma s') \<and> \<not> tcie (dma s') \<and> cs s' = True \<and> sysclk_hz s' = sysclk_hz s"
  by (rule full_duplex_dma.transfer_completes [OF assms])

theorem hal_transfer_complete_witness:
  "\<exists>x s'. hal_transceive (sticky_hal loop_wire)
       \<lparr>dma = \<lparr>ch_line = (), ch_tcif = True, ch_tcie = False, ch_unmasked = False\<rparr>, cs = True, sysclk_hz = 24000000\<rparr>
       \<lparr>rx_buf = [0, 0, 0, 0], tx_buf = [1, 2, 3, 4], dma_len = 3\<rparr> Interrupt = Inr x \<and>
     hal_wait (sticky_hal loop_wire) x = (s', \<lparr>rx_buf = [1, 2, 3, 0], tx_buf = [1, 2, 3, 4], dma_len = 3\<rparr>) \<and> \<not> ch_tcif (dma s')"
  using hal_transfer_complete [OF hal_loop.full_duplex_dma_axioms, of "\<lparr>rx_buf = [0, 0, 0, 0], tx_buf = [1, 2, 3, 4], dma_len = 3\<rparr>"
      "\<lparr>dma = \<lparr>ch_line = (), ch_tcif = True, ch_tcie = False, ch_unmasked = False\<rparr>, cs = True, sysclk_hz = 24000000\<rparr>"
      "()" "[1, 2, 3]" Interrupt]
  by (auto simp: loop_wire_def copy_at_def)

text \<open>
  C37. The delay loop is exact and never truncated up to a clock of 1 GHz: the number of cycles
  is the product of the time and the clock, rounded down, although it is computed in 64 bits
  and passed on in 32. At 2 GHz it would be: a delay of 3.1 seconds is cut to less than one.
\<close>

theorem delay_cycles_exact:
  assumes "unat f \<le> 1000000000"
  shows "unat (delay_cycles f ns) = unat ns * unat f div 1000000000 \<and>
    delay_cycles 2000000000 3100000000 = 1905032704"
proof -
  have n: "unat ns < 2 ^ 32" "unat f < 2 ^ 32" using unsigned_less [of ns] unsigned_less [of f] by simp_all
  have "unat ns * unat f \<le> (2 ^ 32 - 1) * (2 ^ 32 - 1)" by (rule mult_le_mono) (use n in simp_all)
  then have p: "unat ns * unat f < 2 ^ 64" by simp
  have u: "unat ((ucast ns :: 64 word) * ucast f) = unat ns * unat f"
    using p n by (simp add: unat_word_ariths unsigned_ucast_eq take_bit_nat_eq_self)
  have d: "unat (((ucast ns :: 64 word) * ucast f) div 1000000000) = unat ns * unat f div 1000000000"
    by (simp add: unat_div u)
  have "unat ns * unat f div 1000000000 \<le> unat ns * 1000000000 div 1000000000"
    by (intro div_le_mono mult_le_mono assms order_refl)
  then have "unat ns * unat f div 1000000000 < 2 ^ 32" using n(1) by simp
  then have "unat (delay_cycles f ns) = unat ns * unat f div 1000000000"
    unfolding delay_cycles_def by (simp add: unsigned_ucast_eq take_bit_nat_eq_self d)
  moreover have "delay_cycles 2000000000 3100000000 = 1905032704" by code_simp
  ultimately show ?thesis by simp
qed

theorem delay_cycles_exact_witness: "unat (delay_cycles 24000000 1000000) = 24000"
  using delay_cycles_exact [of 24000000 1000000] by simp

end
