(* ===== verification/Loopback.thy ===== *)
theory Loopback
  imports Hal_Spi
begin

text \<open>
  The self-test of the DMA path (\<^verbatim>\<open>examples/spi_dma_loopback.rs\<close>): \<^verbatim>\<open>main\<close> fills, arms, sleeps,
  reclaims and verifies; the transfer-complete interrupt tears the transfer down in between.
\<close>

subsection \<open>The buffers of the test\<close>

definition SNAP :: nat where "SNAP = 32"
definition SIZES :: "nat list" where "SIZES = [1, 3, 17, 512]"

text \<open>\<^verbatim>\<open>SliceN\<close>: the first \<open>n\<close> bytes of a buffer.\<close>

definition slice_n :: "bytes \<Rightarrow> nat \<Rightarrow> window" where
  "slice_n b n = \<lparr>win_buf = b, win_len = n\<rparr>"

definition pattern_byte :: "u8 \<Rightarrow> nat \<Rightarrow> u8" where
  "pattern_byte seed i = of_nat i * 0x1b + seed"

definition pattern :: "u8 \<Rightarrow> nat \<Rightarrow> bytes" where
  "pattern seed n = map (pattern_byte seed) [0..<n]"

subsection \<open>State\<close>

record report =
  iterations :: u32
  fails :: u32
  last_fail_len :: nat
  last_fail_idx :: nat
  last_expected :: u8
  last_got :: u8
  tx_snap :: bytes
  rx_snap :: bytes

definition report_default :: report where
  "report_default = \<lparr>iterations = 0, fails = 0, last_fail_len = 0, last_fail_idx = 0, last_expected = 0, last_got = 0,
     tx_snap = replicate SNAP 0, rx_snap = replicate SNAP 0\<rparr>"

text \<open>The locals of \<^verbatim>\<open>main\<close>, which move away while a transfer runs, and the statics.\<close>

record ('h, 'x) loopback =
  lb_dma :: "'h option"
  lb_rx :: "bytes option"
  lb_tx :: "bytes option"
  lb_report :: report
  DONE :: bool
  INFLIGHT :: "'x option"
  RESULT :: "('h \<times> bytes \<times> bytes) option"

type_synonym ('h, 'x, 'a) lb = "(('h, 'x) loopback, 'a) sm"

text \<open>\<^verbatim>\<open>opt.take().unwrap()\<close>.\<close>

definition take_unwrap :: "('s \<Rightarrow> 'a option) \<Rightarrow> ('a option \<Rightarrow> 's \<Rightarrow> 's) \<Rightarrow> ('s, 'a) sm" where
  "take_unwrap get put s = (case get s of None \<Rightarrow> (Panic, s) | Some x \<Rightarrow> (Ok x, put None s))"

subsection \<open>One transfer\<close>

text \<open>The peripheral the register access reaches, whoever owns the driver object.\<close>

definition clear_rx_tcif :: "('h, 'x) hal \<Rightarrow> ('h, 'x, unit) lb" where
  "clear_rx_tcif H = modify (\<lambda>s. s\<lparr>lb_dma := map_option (clear_ctcif2 H) (lb_dma s),
     RESULT := map_option (\<lambda>(h, r, t). (clear_ctcif2 H h, r, t)) (RESULT s)\<rparr>)"

definition fill :: "nat \<Rightarrow> ('h, 'x, unit) lb" where
  "fill n s =
     (case (lb_tx s, lb_rx s) of
        (Some txb, Some rxb) \<Rightarrow>
          if n \<le> length txb \<and> n \<le> length rxb then
            (Ok (), s\<lparr>lb_tx := Some (copy_at 0 (pattern (ucast (iterations (lb_report s))) n) txb),
                      lb_rx := Some (copy_at 0 (replicate n 0xFF) rxb)\<rparr>)
          else (Panic, s)
      | _ \<Rightarrow> (Panic, s))"

definition lower_done :: "('h, 'x, unit) lb" where
  "lower_done = modify (\<lambda>s. s\<lparr>DONE := False\<rparr>)"

text \<open>
  The three \<^verbatim>\<open>take\<close>s move locals of \<^verbatim>\<open>main\<close>; the start of the transfer and its publication are one
  critical section.
\<close>

definition lb_publish :: "('h, 'x) hal \<Rightarrow> nat \<Rightarrow> ('h, 'x, unit) lb" where
  "lb_publish H n =
     bnd (take_unwrap lb_dma (\<lambda>v s. s\<lparr>lb_dma := v\<rparr>)) (\<lambda>d.
     bnd (take_unwrap lb_rx (\<lambda>v s. s\<lparr>lb_rx := v\<rparr>)) (\<lambda>rx_owned.
     bnd (take_unwrap lb_tx (\<lambda>v s. s\<lparr>lb_tx := v\<rparr>)) (\<lambda>tx_owned.
     modify (\<lambda>s. s\<lparr>INFLIGHT := Some (read_write H d (slice_n rx_owned n) (slice_n tx_owned n))\<rparr>))))"

text \<open>The transfer-complete handler: tear down what is in flight, quiet the flag, wake \<^verbatim>\<open>main\<close>.\<close>

definition lb_isr :: "('h, 'x) hal \<Rightarrow> ('h, 'x, unit) lb" where
  "lb_isr H =
     bnd (modify (\<lambda>s.
       case INFLIGHT s of
         None \<Rightarrow> s
       | Some x \<Rightarrow>
           (case transfer_wait H x of
              ((rx_sl, tx_sl), d) \<Rightarrow> s\<lparr>INFLIGHT := None, RESULT := Some (d, win_buf rx_sl, win_buf tx_sl)\<rparr>))) (\<lambda>_.
     bnd (clear_rx_tcif H) (\<lambda>_.
     modify (\<lambda>s. s\<lparr>DONE := True\<rparr>)))"

definition reclaim :: "('h, 'x, unit) lb" where
  "reclaim =
     bnd (take_unwrap RESULT (\<lambda>v s. s\<lparr>RESULT := v\<rparr>)) (\<lambda>(d, rx_back, tx_back).
     modify (\<lambda>s. s\<lparr>lb_dma := Some d, lb_rx := Some rx_back, lb_tx := Some tx_back\<rparr>))"

subsection \<open>Verification\<close>

fun first_mismatch :: "nat \<Rightarrow> bytes \<Rightarrow> bytes \<Rightarrow> nat option" where
  "first_mismatch i (t # ts) (r # rs) = (if r \<noteq> t then Some i else first_mismatch (i + 1) ts rs)"
| "first_mismatch i _ _ = None"

definition log_fail :: "nat \<Rightarrow> bytes \<Rightarrow> bytes \<Rightarrow> nat \<Rightarrow> report \<Rightarrow> report" where
  "log_fail n txb rxb i p = p\<lparr>fails := fails p + 1, last_fail_len := n, last_fail_idx := i,
     last_expected := txb ! i, last_got := rxb ! i,
     tx_snap := copy_at 0 (take (min n SNAP) txb) (tx_snap p),
     rx_snap := copy_at 0 (take (min n SNAP) rxb) (rx_snap p)\<rparr>"

definition verify :: "nat \<Rightarrow> ('h, 'x, unit) lb" where
  "verify n s =
     (case (lb_tx s, lb_rx s) of
        (Some txb, Some rxb) \<Rightarrow>
          if n \<le> length txb \<and> n \<le> length rxb then
            (case first_mismatch 0 (take n txb) (take n rxb) of
               None \<Rightarrow> (Ok (), s)
             | Some i \<Rightarrow> (Ok (), s\<lparr>lb_report := log_fail n txb rxb i (lb_report s)\<rparr>))
          else (Panic, s)
      | _ \<Rightarrow> (Panic, s))"

subsection \<open>The test as a machine\<close>

text \<open>
  Where \<^verbatim>\<open>main\<close> is between two accesses to what it shares with the handler: \<open>Fill k\<close> is the top of the
  inner loop for size \<open>k\<close>; behind the last size \<^verbatim>\<open>main\<close> blinks.
\<close>

datatype lb_phase = Fill nat | Lower nat | Quiet nat | Launch nat | Await nat | Reclaim nat | Verify nat | Blink | Stuck

definition blink_cycles :: "u32 \<Rightarrow> u32 \<Rightarrow> u32" where
  "blink_cycles f ms = (f div 1000) * ms"

definition half_period :: "report \<Rightarrow> u32" where
  "half_period p = (if fails p > 0 then 50 else 500)"

definition main_part :: "('h, 'x) hal \<Rightarrow> lb_phase \<Rightarrow> ('h, 'x, lb_phase) lb" where
  "main_part H ph =
     (case ph of
        Fill k \<Rightarrow>
          if k < length SIZES then bnd (fill (SIZES ! k)) (\<lambda>_. ret (Lower k)) else ret Blink
      | Lower k \<Rightarrow> bnd lower_done (\<lambda>_. ret (Quiet k))
      | Quiet k \<Rightarrow> bnd (clear_rx_tcif H) (\<lambda>_. ret (Launch k))
      | Launch k \<Rightarrow> bnd (lb_publish H (SIZES ! k)) (\<lambda>_. ret (Await k))
      | Await k \<Rightarrow> bnd (gets DONE) (\<lambda>d. ret (if d then Reclaim k else Await k))
      | Reclaim k \<Rightarrow> bnd reclaim (\<lambda>_. ret (Verify k))
      | Verify k \<Rightarrow> bnd (verify (SIZES ! k)) (\<lambda>_. ret (Fill (k + 1)))
      | Blink \<Rightarrow>
          bnd (modify (\<lambda>s. s\<lparr>lb_report := (lb_report s)\<lparr>iterations := iterations (lb_report s) + 1\<rparr>\<rparr>)) (\<lambda>_.
          ret (Fill 0))
      | Stuck \<Rightarrow> ret Stuck)"

text \<open>
  When the hardware raises the interrupt. While a transfer runs it may complete at any moment.
  Otherwise the line follows the flag of the channel, if its interrupt is enabled: a flag that
  is left set calls the handler again and again, also in the middle of arming the next transfer.
\<close>

definition irq_line :: "('h \<Rightarrow> bool) \<Rightarrow> ('h \<Rightarrow> bool) \<Rightarrow> ('h, 'x) loopback \<Rightarrow> bool" where
  "irq_line tcif tcie s \<longleftrightarrow> INFLIGHT s \<noteq> None \<or>
     (case lb_dma s of Some d \<Rightarrow> tcif d \<and> tcie d | None \<Rightarrow> False) \<or>
     (case RESULT s of Some (d, _) \<Rightarrow> tcif d \<and> tcie d | None \<Rightarrow> False)"

inductive lb_step ::
  "('h, 'x) hal \<Rightarrow> ('h \<Rightarrow> bool) \<Rightarrow> ('h \<Rightarrow> bool) \<Rightarrow> lb_phase \<times> ('h, 'x) loopback \<Rightarrow> lb_phase \<times> ('h, 'x) loopback \<Rightarrow> bool"
  for H tcif tcie where
  main_runs: "main_part H ph s = (Ok ph', s') \<Longrightarrow> lb_step H tcif tcie (ph, s) (ph', s')"
| main_panics: "main_part H ph s = (Panic, s') \<Longrightarrow> lb_step H tcif tcie (ph, s) (Stuck, s')"
| irq: "irq_line tcif tcie s \<Longrightarrow> lb_isr H s = (Ok u, s') \<Longrightarrow> lb_step H tcif tcie (ph, s) (ph, s')"

inductive lb_reach ::
  "('h, 'x) hal \<Rightarrow> ('h \<Rightarrow> bool) \<Rightarrow> ('h \<Rightarrow> bool) \<Rightarrow> lb_phase \<times> ('h, 'x) loopback \<Rightarrow> lb_phase \<times> ('h, 'x) loopback \<Rightarrow> bool"
  for H tcif tcie c where
  start: "lb_reach H tcif tcie c c"
| onward: "lb_reach H tcif tcie c c1 \<Longrightarrow> lb_step H tcif tcie c1 c2 \<Longrightarrow> lb_reach H tcif tcie c c2"

text \<open>The interrupt is unmasked and enabled before the loop, and stays so.\<close>

definition set_rx_tcie :: "('h, 'x) hal \<Rightarrow> bool \<Rightarrow> 'h \<Rightarrow> 'h" where
  "set_rx_tcie H on = (if on then listen_tc H else unlisten_tc H)"

definition lb_start :: "('h, 'x) hal \<Rightarrow> 'h \<Rightarrow> lb_phase \<times> ('h, 'x) loopback" where
  "lb_start H h = (Fill 0, \<lparr>lb_dma = Some (set_rx_tcie H True (nvic_unmask H h)), lb_rx = Some (replicate 512 0), lb_tx = Some (replicate 512 0),
     lb_report = report_default\<lparr>iterations := 1\<rparr>, DONE = False, INFLIGHT = None, RESULT = None\<rparr>)"

subsection \<open>The invariant\<close>

text \<open>
  Every resource has exactly one owner: \<^verbatim>\<open>main\<close>, the transfer in flight, or the result slot;
  and what is in flight was armed with a clear flag and full windows.
\<close>

lemma length_pattern [simp]: "length (pattern seed n) = n"
  by (simp add: pattern_def)

lemma first_mismatch_same: "first_mismatch i xs xs = None"
  by (induction xs arbitrary: i) auto

lemma first_mismatch_spec:
  "length xs = length ys \<Longrightarrow> (first_mismatch i xs ys = None \<longleftrightarrow> xs = ys) \<and>
     (\<forall>k. first_mismatch i xs ys = Some k \<longrightarrow> i \<le> k \<and> k < i + length xs \<and> ys ! (k - i) \<noteq> xs ! (k - i) \<and>
        take (k - i) ys = take (k - i) xs)"
proof (induction i xs ys rule: first_mismatch.induct)
  case (1 i t ts r rs)
  show ?case
  proof (cases "r = t")
    case True
    have "k - i = Suc (k - Suc i)" if "Suc i \<le> k" for k using that by simp
    then show ?thesis using 1 True by (auto simp: Suc_le_eq)
  qed (auto)
qed auto


text \<open>MISO wired to MOSI.\<close>

definition wired :: "('s \<Rightarrow> bytes \<Rightarrow> 's \<times> bytes) \<Rightarrow> bool" where
  "wired ex \<longleftrightarrow> (\<forall>l out. snd (ex l out) = out)"

lemma sizes_fit: "k < length SIZES \<Longrightarrow> SIZES ! k \<le> 512"
  by (auto simp: SIZES_def less_Suc_eq)

context full_duplex_dma
begin

definition owned :: "('h, 'x) loopback \<Rightarrow> bool" where
  "owned s \<longleftrightarrow> INFLIGHT s = None \<and> RESULT s = None \<and>
     (\<exists>d r t. lb_dma s = Some d \<and> \<not> tcif d \<and> lb_rx s = Some r \<and> lb_tx s = Some t \<and> length r = 512 \<and> length t = 512)"

definition away :: "('h, 'x) loopback \<Rightarrow> bool" where
  "away s \<longleftrightarrow> lb_dma s = None \<and> lb_rx s = None \<and> lb_tx s = None"

definition flying_lb :: "nat \<Rightarrow> ('h, 'x) loopback \<Rightarrow> bool" where
  "flying_lb n s \<longleftrightarrow> away s \<and> \<not> DONE s \<and> RESULT s = None \<and>
     (\<exists>d r t. INFLIGHT s = Some (read_write H d (slice_n r n) (slice_n t n)) \<and> \<not> tcif d \<and> length r = 512 \<and> length t = 512)"

definition landed :: "nat \<Rightarrow> ('h, 'x) loopback \<Rightarrow> bool" where
  "landed n s \<longleftrightarrow> away s \<and> DONE s \<and> INFLIGHT s = None \<and>
     (\<exists>d r t. RESULT s = Some (d, r, t) \<and> \<not> tcif d \<and> length r = 512 \<and> length t = 512 \<and>
        (wired exchange \<longrightarrow> take n r = take n t))"

definition returned :: "nat \<Rightarrow> ('h, 'x) loopback \<Rightarrow> bool" where
  "returned n s \<longleftrightarrow> owned s \<and> (wired exchange \<longrightarrow> take n (the (lb_rx s)) = take n (the (lb_tx s)))"

text \<open>Where every resource is, phase by phase.\<close>

definition placed :: "lb_phase \<Rightarrow> ('h, 'x) loopback \<Rightarrow> bool" where
  "placed ph s \<longleftrightarrow>
     (case ph of
        Fill k \<Rightarrow> owned s
      | Lower k \<Rightarrow> k < length SIZES \<and> owned s
      | Quiet k \<Rightarrow> k < length SIZES \<and> owned s \<and> \<not> DONE s
      | Launch k \<Rightarrow> k < length SIZES \<and> owned s \<and> \<not> DONE s
      | Await k \<Rightarrow> k < length SIZES \<and> (flying_lb (SIZES ! k) s \<or> landed (SIZES ! k) s)
      | Reclaim k \<Rightarrow> k < length SIZES \<and> landed (SIZES ! k) s
      | Verify k \<Rightarrow> k < length SIZES \<and> returned (SIZES ! k) s
      | Blink \<Rightarrow> owned s
      | Stuck \<Rightarrow> False)"

definition lb_inv :: "lb_phase \<times> ('h, 'x) loopback \<Rightarrow> bool" where
  "lb_inv = (\<lambda>(ph, s). placed ph s \<and> (wired exchange \<longrightarrow> fails (lb_report s) = 0))"

lemma fill_part:
  assumes "owned s" "n \<le> 512"
  shows "\<exists>s'. fill n s = (Ok (), s') \<and> owned s' \<and> lb_report s' = lb_report s"
  using assms by (auto simp: owned_def fill_def)

lemma clear_part:
  assumes "owned s"
  shows "\<exists>s'. clear_rx_tcif H s = (Ok (), s') \<and> owned s' \<and> DONE s' = DONE s \<and> lb_report s' = lb_report s"
  using assms clear_flag(1) by (auto simp: owned_def clear_rx_tcif_def modify_def)

lemma publish_part:
  assumes "owned s" "\<not> DONE s"
  shows "\<exists>s'. lb_publish H n s = (Ok (), s') \<and> flying_lb n s' \<and> lb_report s' = lb_report s"
  using assms by (auto simp: owned_def lb_publish_def bnd_def modify_def take_unwrap_def flying_lb_def away_def)
     blast

lemma isr_part:
  assumes "flying_lb n s" "n \<le> 512"
  shows "\<exists>s'. lb_isr H s = (Ok (), s') \<and> landed n s' \<and> lb_report s' = lb_report s"
proof -
  obtain d rb tb where f: "INFLIGHT s = Some (read_write H d (slice_n rb n) (slice_n tb n))" "\<not> tcif d"
    "length rb = 512" "length tb = 512"
    using assms(1) by (auto simp: flying_lb_def)
  have v: "win_view (slice_n rb n) = Some (take n rb)" "win_view (slice_n tb n) = Some (take n tb)"
    using f(3,4) assms(2) by (simp_all add: win_view_def slice_n_def)
  obtain l inp where e: "exchange (line d) (take n tb) = (l, inp)" by force
  have len: "length inp = n" using exchange_length [of "line d" "take n tb"] e f(4) assms(2) by simp
  have eq: "win_len (slice_n rb n) = win_len (slice_n tb n)" by (simp add: slice_n_def)
  obtain h' where h': "transfer_wait H (read_write H d (slice_n rb n) (slice_n tb n)) =
      (((slice_n rb n)\<lparr>win_buf := copy_at 0 inp rb\<rparr>, slice_n tb n), h')"
    using completes [OF f(2) v eq e] by (auto simp: slice_n_def)
  have full: "length (copy_at 0 inp rb) = 512" using len f(3) assms(2) by simp
  have echo: "take n (copy_at 0 inp rb) = take n tb" if "wired exchange"
    using that e len f(3) assms(2) by (auto simp: copy_at_def wired_def) (metis snd_conv)
  show ?thesis using assms(1) f h' len echo full clear_flag(1)
    by (auto simp: lb_isr_def bnd_def modify_def clear_rx_tcif_def landed_def flying_lb_def away_def slice_n_def)
qed

lemma reclaim_part:
  assumes "landed n s"
  shows "\<exists>s'. reclaim s = (Ok (), s') \<and> returned n s' \<and> lb_report s' = lb_report s"
  using assms by (auto simp: landed_def reclaim_def take_unwrap_def bnd_def modify_def returned_def owned_def)

lemma verify_part:
  assumes "returned n s" "n \<le> 512"
  shows "\<exists>s'. verify n s = (Ok (), s') \<and> owned s' \<and> (wired exchange \<longrightarrow> lb_report s' = lb_report s)"
proof -
  obtain rb tb where f: "lb_rx s = Some rb" "lb_tx s = Some tb" "length rb = 512" "length tb = 512" "owned s"
    "wired exchange \<longrightarrow> take n rb = take n tb"
    using assms(1) by (auto simp: returned_def owned_def)
  show ?thesis
  proof (cases "first_mismatch 0 (take n tb) (take n rb)")
    case None
    with f assms(2) show ?thesis by (simp add: verify_def)
  next
    case (Some i)
    then have "\<not> wired exchange" using f(6) first_mismatch_same [of 0 "take n tb"] by auto
    with Some f assms(2) show ?thesis by (simp add: verify_def owned_def)
  qed
qed

lemma main_part_placed:
  assumes "placed ph s"
  shows "\<exists>ph' s'. main_part H ph s = (Ok ph', s') \<and> placed ph' s' \<and> (wired exchange \<longrightarrow> fails (lb_report s') = fails (lb_report s))"
proof (cases ph)
  case (Fill k)
  with assms fill_part [of s "SIZES ! k"] sizes_fit [of k] show ?thesis
    by (auto simp: placed_def main_part_def bnd_def ret_def)
next
  case (Quiet k)
  with assms clear_part [of s] show ?thesis by (auto simp: placed_def main_part_def bnd_def ret_def)
next
  case (Launch k)
  with assms publish_part [of s "SIZES ! k"] show ?thesis by (auto simp: placed_def main_part_def bnd_def ret_def)
next
  case (Reclaim k)
  with assms reclaim_part [of "SIZES ! k" s] show ?thesis by (auto simp: placed_def main_part_def bnd_def ret_def)
next
  case (Verify k)
  with assms verify_part [of "SIZES ! k" s] sizes_fit [of k] show ?thesis
    by (auto simp: placed_def main_part_def bnd_def ret_def)
next
  case (Await k)
  with assms show ?thesis by (auto simp: placed_def main_part_def bnd_def ret_def gets_def flying_lb_def landed_def)
qed (use assms in \<open>auto simp: placed_def main_part_def bnd_def ret_def modify_def lower_done_def owned_def\<close>)

text \<open>With the flag clear outside transfers only a running transfer raises the interrupt.\<close>

lemma placed_irq:
  assumes "placed ph s" "irq_line tcif tcie s"
  shows "\<exists>k. ph = Await k \<and> k < length SIZES \<and> flying_lb (SIZES ! k) s"
  using assms by (auto simp: placed_def irq_line_def owned_def returned_def landed_def away_def split: lb_phase.splits)

lemma lb_step_inv:
  assumes "lb_step H tcif tcie c c'" "lb_inv c"
  shows "lb_inv c'"
  using assms(1)
proof (cases rule: lb_step.cases)
  case (irq s u s' ph)
  then have p: "placed ph s" "wired exchange \<longrightarrow> fails (lb_report s) = 0" using assms(2) by (simp_all add: lb_inv_def)
  obtain k where k: "ph = Await k" "k < length SIZES" "flying_lb (SIZES ! k) s" using placed_irq [OF p(1) irq(3)] by blast
  from isr_part [OF k(3) sizes_fit [OF k(2)]] irq k p(2) show ?thesis by (auto simp: lb_inv_def placed_def)
qed (use assms(2) main_part_placed in \<open>fastforce simp: lb_inv_def\<close>)+

lemma lb_start_inv: "\<not> tcif h \<Longrightarrow> lb_inv (lb_start H h)"
  using listen_enables(2) unmask_only(2) by (simp add: lb_start_def set_rx_tcie_def lb_inv_def placed_def owned_def report_default_def)

lemma lb_reach_inv: "lb_reach H tcif tcie (lb_start H h) c \<Longrightarrow> \<not> tcif h \<Longrightarrow> lb_inv c"
  by (induction rule: lb_reach.induct) (auto intro: lb_start_inv lb_step_inv)

lemma lb_inv_facts:
  assumes "lb_inv (ph, s)"
  shows "ph \<noteq> Stuck" "INFLIGHT s = None \<or> RESULT s = None" "lb_dma s \<noteq> None \<longrightarrow> INFLIGHT s = None \<and> RESULT s = None"
    "irq_line tcif tcie s \<longrightarrow> INFLIGHT s \<noteq> None" "wired exchange \<longrightarrow> fails (lb_report s) = 0"
  using assms by (auto simp: lb_inv_def placed_def owned_def returned_def landed_def flying_lb_def away_def irq_line_def split: lb_phase.splits)

end

subsection \<open>Properties\<close>

text \<open>
  C35. The loopback test never panics. The channel comes out of reset with its flag clear; then, in
  every interleaving of the accesses of \<^verbatim>\<open>main\<close> to what it shares with the handler and of the
  interrupt, which the hardware raises while a transfer runs and whenever the flag is set and
  enabled: no \<^verbatim>\<open>unwrap\<close> fails, each resource has one owner, the interrupt is raised for a running
  transfer only, so that it neither storms nor wakes \<^verbatim>\<open>main\<close> too early, and with MISO wired to
  MOSI no failure is ever counted.
\<close>

theorem loopback_sound:
  assumes "full_duplex_dma H tcif tcie line exchange" "\<not> tcif h" "lb_reach H tcif tcie (lb_start H h) (ph, s)"
  shows "ph \<noteq> Stuck \<and> (INFLIGHT s = None \<or> RESULT s = None) \<and> (lb_dma s \<noteq> None \<longrightarrow> INFLIGHT s = None \<and> RESULT s = None) \<and>
    (irq_line tcif tcie s \<longrightarrow> INFLIGHT s \<noteq> None) \<and> (wired exchange \<longrightarrow> fails (lb_report s) = 0)"
  using full_duplex_dma.lb_inv_facts [OF assms(1) full_duplex_dma.lb_reach_inv [OF assms(1,3,2)]] by blast

definition loop_channel :: "unit dma_channel" where
  "loop_channel = \<lparr>ch_line = (), ch_tcif = False, ch_tcie = False, ch_unmasked = False\<rparr>"

text \<open>The first transfer runs, completes and is reclaimed.\<close>

theorem loopback_sound_witness:
  "\<exists>s. lb_reach (sticky_hal loop_wire) ch_tcif ch_tcie (lb_start (sticky_hal loop_wire) loop_channel) (Await 0, s) \<and>
     RESULT s \<noteq> None \<and> \<not> irq_line ch_tcif ch_tcie s \<and> fails (lb_report s) = 0"
proof -
  let ?H = "sticky_hal loop_wire"
  let ?R = "lb_reach ?H ch_tcif ch_tcie (lb_start ?H loop_channel)"
  have n: "\<not> ch_tcif loop_channel" by (simp add: loop_channel_def)
  have onward: "?R (ph', s')" if "?R (ph, s)" "main_part ?H ph s = (Ok ph', s')" for ph s ph' s'
    using lb_reach.onward [OF that(1) main_runs [OF that(2)]] .
  let ?s0 = "snd (lb_start ?H loop_channel) :: (unit dma_channel, unit dma_channel \<times> window \<times> window) loopback"
  have r0: "?R (Fill 0, ?s0)" using lb_reach.start [of ?H ch_tcif ch_tcie] by (simp add: lb_start_def)
  have "hal_loop.owned ?s0" using hal_loop.lb_start_inv [OF n] by (simp add: hal_loop.lb_inv_def hal_loop.placed_def lb_start_def)
  then obtain s1 where 1: "fill 1 ?s0 = (Ok (), s1)" "hal_loop.owned s1" using hal_loop.fill_part [of ?s0 1] by auto
  have r1: "?R (Lower 0, s1)" by (rule onward [OF r0]) (use 1(1) in \<open>simp add: main_part_def SIZES_def bnd_def ret_def\<close>)
  have r2: "?R (Quiet 0, s1\<lparr>DONE := False\<rparr>)" by (rule onward [OF r1]) (simp add: main_part_def lower_done_def bnd_def ret_def modify_def)
  have "hal_loop.owned (s1\<lparr>DONE := False\<rparr>)" using 1(2) by (simp add: hal_loop.owned_def)
  then obtain s3 where 3: "clear_rx_tcif ?H (s1\<lparr>DONE := False\<rparr>) = (Ok (), s3)" "hal_loop.owned s3" "\<not> DONE s3"
    using hal_loop.clear_part by fastforce
  have r3: "?R (Launch 0, s3)" by (rule onward [OF r2]) (use 3(1) in \<open>simp add: main_part_def bnd_def ret_def\<close>)
  obtain s4 where 4: "lb_publish ?H 1 s3 = (Ok (), s4)" "hal_loop.flying_lb 1 s4" using hal_loop.publish_part [OF 3(2,3)] by blast
  have r4: "?R (Await 0, s4)" by (rule onward [OF r3]) (use 4(1) in \<open>simp add: main_part_def SIZES_def bnd_def ret_def\<close>)
  obtain s5 where 5: "lb_isr ?H s4 = (Ok (), s5)" "hal_loop.landed 1 s5" using hal_loop.isr_part [OF 4(2)] by auto
  have "irq_line ch_tcif ch_tcie s4" using 4(2) by (auto simp: irq_line_def hal_loop.flying_lb_def simp del: not_None_eq split_paired_Ex)
  from lb_reach.onward [OF r4 irq [OF this 5(1)]] have r5: "?R (Await 0, s5)" .
  have "wired loop_wire" by (simp add: wired_def loop_wire_def)
  with loopback_sound [OF hal_loop.full_duplex_dma_axioms n r5] r5 5(2) show ?thesis
    by (intro exI [of _ s5]) (auto simp: hal_loop.landed_def)
qed

text \<open>
  The verification counts a failure exactly when the bytes that came back differ from those sent,
  and then records the length, the first index at which they differ and the two bytes there.
\<close>

lemma verify_exact:
  assumes "lb_tx s = Some txb" "lb_rx s = Some rxb" "n \<le> length txb" "n \<le> length rxb"
  shows "\<exists>s'. verify n s = (Ok (), s') \<and>
    (if take n rxb = take n txb then s' = s
     else fails (lb_report s') = fails (lb_report s) + 1 \<and> last_fail_len (lb_report s') = n \<and>
       (\<exists>i < n. last_fail_idx (lb_report s') = i \<and> take i rxb = take i txb \<and> rxb ! i \<noteq> txb ! i \<and>
          last_expected (lb_report s') = txb ! i \<and> last_got (lb_report s') = rxb ! i))"
proof -
  have len: "length (take n txb) = length (take n rxb)" using assms(3,4) by simp
  note m = first_mismatch_spec [OF len, of 0]
  show ?thesis
  proof (cases "first_mismatch 0 (take n txb) (take n rxb)")
    case None
    then show ?thesis using assms m by (auto simp: verify_def)
  next
    case (Some i)
    have ne: "take n rxb \<noteq> take n txb" using m Some by auto
    have i: "i < n" "take i rxb = take i txb" "rxb ! i \<noteq> txb ! i" using m Some assms(3) by (auto simp: min_def split: if_splits)
    then show ?thesis using Some assms ne by (auto simp: verify_def log_fail_def)
  qed
qed

text \<open>
  C40. The sentinel does not always have to be overwritten. In every iteration whose number is
  255 modulo 256 the one-byte pattern is the sentinel itself, so the check passes on the
  buffers as they were filled, without any transfer.
\<close>

theorem sentinel_is_pattern:
  assumes "lb_tx s = Some txb" "lb_rx s = Some rxb" "txb \<noteq> []" "rxb \<noteq> []" "(ucast (iterations (lb_report s)) :: u8) = 255"
  shows "\<exists>s'. fill 1 s = (Ok (), s') \<and> verify 1 s' = (Ok (), s') \<and> lb_report s' = lb_report s"
proof -
  have p: "pattern 255 (Suc 0) = [255]" by (simp add: pattern_def pattern_byte_def)
  obtain t ts r rs where "txb = t # ts" "rxb = r # rs" using assms(3,4) by (meson list.exhaust)
  then show ?thesis using assms p by (auto simp: fill_def verify_def copy_at_def)
qed

theorem sentinel_is_pattern_witness:
  "\<exists>s'. fill 1 \<lparr>lb_dma = Some (), lb_rx = Some [0, 0], lb_tx = Some [0, 0], lb_report = report_default\<lparr>iterations := 511\<rparr>,
       DONE = True, INFLIGHT = (None :: unit option), RESULT = None\<rparr> = (Ok (), s') \<and> verify 1 s' = (Ok (), s')"
proof -
  let ?s = "\<lparr>lb_dma = Some (), lb_rx = Some [0, 0], lb_tx = Some [0, 0], lb_report = report_default\<lparr>iterations := 511\<rparr>,
       DONE = True, INFLIGHT = (None :: unit option), RESULT = None\<rparr>"
  have "(ucast (511 :: u32) :: u8) = 255" by code_simp
  then show ?thesis using sentinel_is_pattern [of ?s "[0, 0]" "[0, 0]"] by auto
qed

text \<open>
  The length of a blink never wraps: for every clock frequency and both periods the test
  uses, the product of the cycles per millisecond and the period fits 32 bits.
\<close>

lemma blink_never_wraps: "unat (blink_cycles f (half_period p)) = (unat f div 1000) * (if fails p > 0 then 50 else 500)"
proof -
  have "unat f < 2 ^ 32" using unsigned_less [of f] by simp
  then have d: "unat f div 1000 \<le> 4294967" by simp
  have "(unat f div 1000) * k < 4294967296" if "k \<le> 500" for k
    using mult_le_mono [OF d that] by simp
  from this [of 50] this [of 500] d show ?thesis
    by (simp add: blink_cycles_def half_period_def unat_word_ariths unat_div)
qed

end
