(* ===== verification/Spsc_Concurrent.thy ===== *)
theory Spsc_Concurrent
  imports Spsc_Ring "HOL-Library.Sublist"
begin

text \<open>
  The two ends of the ring of \<^verbatim>\<open>wiznet-rs/src/spsc_ring.rs\<close> on opposite sides of the interrupt
  boundary: \<^verbatim>\<open>write\<close> and \<^verbatim>\<open>read\<close> as sequences of single loads, byte copies and stores, interleaved
  in any order. The steps are the ones of theory \<open>Spsc_Ring\<close> taken apart, and without preemption
  they amount to its functions; an interleaving is
  sequentially consistent, which is what a core and its own interrupts see (the \<^verbatim>\<open>Acquire\<close> and
  \<^verbatim>\<open>Release\<close> orderings of the source make the same promise to two cores; they are not modelled).
\<close>

subsection \<open>Threads\<close>

text \<open>
  The producer inside \<^verbatim>\<open>write\<close>: the capacity has been loaded; the consumer's index has; both
  have, and \<open>k\<close> of the \<open>n\<close> bytes are copied. The consumer inside \<^verbatim>\<open>read\<close> likewise, with the
  bytes copied so far. The last state of each is a panic or a copy outside the memory.
\<close>

datatype prod_pc = PIdle | PCap bytes | PHead bytes usize | PCopy bytes usize nat nat | PFail

datatype cons_pc = CIdle | CCap nat | CTail nat usize | CCopy usize nat bytes | CFail

text \<open>\<open>accepted\<close> and \<open>delivered\<close> are the bytes of all completed calls, in order.\<close>

record spsc =
  ring :: spsc_ring
  producer :: prod_pc
  consumer :: cons_pc
  accepted :: bytes
  delivered :: bytes

text \<open>The byte with number \<open>k\<close> of a run from \<open>start\<close>, in the two runs of the copy.\<close>

definition run_index :: "nat \<Rightarrow> nat \<Rightarrow> nat \<Rightarrow> nat \<Rightarrow> nat" where
  "run_index c start n k = (let first = min n (c - start) in if k < first then start + k else k - first)"

inductive spsc_step :: "spsc \<Rightarrow> spsc \<Rightarrow> bool" where
  write_call: "producer s = PIdle \<Longrightarrow> spsc_step s (s\<lparr>producer := (if cap (ring s) = 0 then PIdle else PCap src)\<rparr>)"
| write_head: "producer s = PCap src \<Longrightarrow> spsc_step s (s\<lparr>producer := PHead src (head (ring s))\<rparr>)"
| write_tail: "producer s = PHead src h \<Longrightarrow> t = tail (ring s) \<Longrightarrow> c = cap (ring s) \<Longrightarrow>
    spsc_step s (s\<lparr>producer :=
      (if c < unat (t - h) then PFail
       else let n = min (length src) (c - unat (t - h)) in if n = 0 then PIdle else PCopy src t n 0)\<rparr>)"
| write_byte: "producer s = PCopy src t n k \<Longrightarrow> k < n \<Longrightarrow> c = cap (ring s) \<Longrightarrow> i = run_index c (unat t mod c) n k \<Longrightarrow>
    spsc_step s (if i < length (ring_buf (ring s))
      then s\<lparr>ring := (ring s)\<lparr>ring_buf := (ring_buf (ring s))[i := src ! k]\<rparr>, producer := PCopy src t n (k + 1)\<rparr>
      else s\<lparr>producer := PFail\<rparr>)"
| write_publish: "producer s = PCopy src t n n \<Longrightarrow>
    spsc_step s (s\<lparr>ring := (ring s)\<lparr>tail := t + of_nat n\<rparr>, producer := PIdle, accepted := accepted s @ take n src\<rparr>)"
| read_call: "consumer s = CIdle \<Longrightarrow> spsc_step s (s\<lparr>consumer := (if cap (ring s) = 0 then CIdle else CCap k)\<rparr>)"
| read_tail: "consumer s = CCap k \<Longrightarrow> spsc_step s (s\<lparr>consumer := CTail k (tail (ring s))\<rparr>)"
| read_head: "consumer s = CTail k t \<Longrightarrow> h = head (ring s) \<Longrightarrow>
    spsc_step s (s\<lparr>consumer := (let n = min k (unat (t - h)) in if n = 0 then CIdle else CCopy h n [])\<rparr>)"
| read_byte: "consumer s = CCopy h n xs \<Longrightarrow> length xs < n \<Longrightarrow> c = cap (ring s) \<Longrightarrow> i = run_index c (unat h mod c) n (length xs) \<Longrightarrow>
    spsc_step s (if i < length (ring_buf (ring s))
      then s\<lparr>consumer := CCopy h n (xs @ [ring_buf (ring s) ! i])\<rparr> else s\<lparr>consumer := CFail\<rparr>)"
| read_publish: "consumer s = CCopy h n xs \<Longrightarrow> length xs = n \<Longrightarrow>
    spsc_step s (s\<lparr>ring := (ring s)\<lparr>head := h + of_nat n\<rparr>, consumer := CIdle, delivered := delivered s @ xs\<rparr>)"

inductive_cases spsc_stepE: "spsc_step s s'"

inductive spsc_reach :: "spsc \<Rightarrow> spsc \<Rightarrow> bool" for s where
  here: "spsc_reach s s"
| step: "spsc_reach s s1 \<Longrightarrow> spsc_step s1 s2 \<Longrightarrow> spsc_reach s s2"

definition spsc_start :: "bytes \<Rightarrow> spsc" where
  "spsc_start b = \<lparr>ring = ring_install b ring_new, producer = PIdle, consumer = CIdle, accepted = [], delivered = []\<rparr>"

subsection \<open>Indices\<close>

definition slot_of :: "nat \<Rightarrow> usize \<Rightarrow> nat \<Rightarrow> nat" where
  "slot_of c w k = (unat w + k) mod c"

lemma run_index_mod:
  assumes "s < c" "n \<le> c" "k < n"
  shows "run_index c s n k = (s + k) mod c"
proof (cases "s + k < c")
  case True
  then have "k < min n (c - s)" using assms(3) by simp
  then show ?thesis using True by (simp add: run_index_def Let_def)
next
  case False
  then have "min n (c - s) = c - s" "\<not> k < c - s" using assms by auto
  moreover have "(s + k) mod c = s + k - c" using False assms by (simp add: mod_if)
  ultimately show ?thesis using False assms by (simp add: run_index_def Let_def)
qed

lemma run_index_slot: "0 < c \<Longrightarrow> n \<le> c \<Longrightarrow> k < n \<Longrightarrow> run_index c (unat w mod c) n k = slot_of c w k"
  by (subst run_index_mod) (simp_all only: slot_of_def mod_add_left_eq mod_less_divisor)

lemma slot_less: "0 < c \<Longrightarrow> slot_of c w k < c"
  by (simp add: slot_of_def)

lemma slot_shift:
  assumes "c dvd 2 ^ 32"
  shows "slot_of c (w + of_nat m) k = slot_of c w (m + k)"
proof -
  have "slot_of c (w + of_nat m) k = ((unat w + m) mod 2 ^ 32 mod c + k) mod c"
    unfolding slot_of_def unat_add_of_nat by (simp add: mod_add_left_eq)
  also have "(unat w + m) mod 2 ^ 32 mod c = (unat w + m) mod c" by (rule mod_mod_cancel [OF assms])
  also have "((unat w + m) mod c + k) mod c = slot_of c w (m + k)"
    by (simp add: slot_of_def mod_add_left_eq add.assoc)
  finally show ?thesis .
qed

lemma slot_inj:
  assumes "slot_of c w i = slot_of c w j" "i < j" "j < i + c"
  shows False
proof -
  have "(unat w + i) mod c = (unat w + j) mod c" using assms(1) by (simp add: slot_of_def)
  then have "c dvd (unat w + j) - (unat w + i)" using assms(2) by (subst mod_eq_dvd_iff_nat [symmetric]) auto
  then have "c dvd j - i" by simp
  then show False using assms(2,3) by (auto dest!: dvd_imp_le)
qed

lemma contents_slot: "i < ring_len r \<Longrightarrow> contents r ! i = ring_buf r ! slot_of (cap r) (head r) i"
  by (simp add: contents_nth slot_of_def)

lemma tail_slot: "cap r dvd 2 ^ 32 \<Longrightarrow> slot_of (cap r) (tail r) k = slot_of (cap r) (head r) (ring_len r + k)"
  using slot_shift [of "cap r" "head r" "ring_len r" k] by (simp add: ring_len_def)

subsection \<open>Invariant\<close>

definition ring_fit :: "spsc_ring \<Rightarrow> bool" where
  "ring_fit r \<longleftrightarrow> length (ring_buf r) = cap r \<and> cap r < 2 ^ 32 \<and> (cap r = 0 \<or> cap r dvd 2 ^ 32) \<and> ring_len r \<le> cap r"

text \<open>
  What each thread knows at each point: the index of the other side that it loaded is behind
  the current one by no more than what lies in between, and its own index has not moved.
\<close>

fun prod_ok :: "spsc_ring \<Rightarrow> prod_pc \<Rightarrow> bool" where
  "prod_ok r PIdle = True"
| "prod_ok r (PCap src) = (0 < cap r)"
| "prod_ok r (PHead src h) = (0 < cap r \<and> unat (head r - h) \<le> unat (tail r - h) \<and> unat (tail r - h) \<le> cap r)"
| "prod_ok r (PCopy src t n k) = (0 < cap r \<and> t = tail r \<and> 0 < n \<and> n \<le> length src \<and> k \<le> n \<and> ring_len r + n \<le> cap r \<and>
     (\<forall>j < k. ring_buf r ! slot_of (cap r) t j = src ! j))"
| "prod_ok r PFail = False"

fun cons_ok :: "spsc_ring \<Rightarrow> cons_pc \<Rightarrow> bool" where
  "cons_ok r CIdle = True"
| "cons_ok r (CCap k) = (0 < cap r)"
| "cons_ok r (CTail k t) = (0 < cap r \<and> unat (t - head r) \<le> ring_len r)"
| "cons_ok r (CCopy h n xs) = (0 < cap r \<and> h = head r \<and> 0 < n \<and> n \<le> ring_len r \<and> length xs \<le> n \<and> xs = take (length xs) (contents r))"
| "cons_ok r CFail = False"

definition spsc_inv :: "spsc \<Rightarrow> bool" where
  "spsc_inv s \<longleftrightarrow> ring_fit (ring s) \<and> prod_ok (ring s) (producer s) \<and> cons_ok (ring s) (consumer s) \<and>
     accepted s = delivered s @ contents (ring s)"

text \<open>A byte stored in the free part disturbs neither the stored bytes nor the earlier ones of the same run.\<close>

lemma store_free:
  fixes b :: u8
  assumes "ring_fit r" "0 < cap r" "ring_len r + k < cap r"
  defines "r' \<equiv> r\<lparr>ring_buf := (ring_buf r)[slot_of (cap r) (tail r) k := b]\<rparr>"
  shows "contents r' = contents r" "ring_fit r'" "ring_buf r' ! slot_of (cap r) (tail r) k = b"
    "j < k \<Longrightarrow> ring_buf r' ! slot_of (cap r) (tail r) j = ring_buf r ! slot_of (cap r) (tail r) j"
proof -
  have c: "cap r dvd 2 ^ 32" "length (ring_buf r) = cap r" using assms(1,2) by (auto simp: ring_fit_def)
  have i: "slot_of (cap r) (tail r) k < length (ring_buf r)" using slot_less [OF assms(2)] c(2) by simp
  have len: "ring_len r' = ring_len r" by (simp add: r'_def ring_len_def)
  show "contents r' = contents r"
  proof (rule nth_equalityI)
    fix j assume "j < length (contents r')"
    then have j: "j < ring_len r" by (simp add: len)
    have "slot_of (cap r) (tail r) k \<noteq> slot_of (cap r) (head r) j"
      using slot_inj [of "cap r" "head r" j "ring_len r + k"] j assms(3) by (auto simp: tail_slot [OF c(1)])
    then show "contents r' ! j = contents r ! j" using j len by (simp add: contents_slot) (simp add: r'_def)
  qed (simp add: len)
  show "ring_fit r'" using assms(1) len by (simp add: ring_fit_def r'_def)
  show "ring_buf r' ! slot_of (cap r) (tail r) k = b" using i by (simp add: r'_def)
  assume "j < k"
  then have "slot_of (cap r) (tail r) k \<noteq> slot_of (cap r) (tail r) j"
    using slot_inj [of "cap r" "tail r" j k] assms(3) by auto
  then show "ring_buf r' ! slot_of (cap r) (tail r) j = ring_buf r ! slot_of (cap r) (tail r) j" by (simp add: r'_def)
qed

lemma publish_tail:
  assumes "ring_fit r" "prod_ok r (PCopy src t n n)"
  defines "r' \<equiv> r\<lparr>tail := t + of_nat n\<rparr>"
  shows "contents r' = contents r @ take n src" "ring_fit r'" "ring_len r' = ring_len r + n"
proof -
  have p: "t = tail r" "n \<le> length src" "ring_len r + n \<le> cap r" "0 < cap r"
    "\<And>j. j < n \<Longrightarrow> ring_buf r ! slot_of (cap r) t j = src ! j" using assms(2) by auto
  have c: "cap r dvd 2 ^ 32" "cap r < 2 ^ 32" using assms(1) p(4) by (auto simp: ring_fit_def)
  have len: "ring_len r' = ring_len r + n"
    using ring_len_write [of r n "ring_buf r"] p(1,3) c(2) by (simp add: r'_def)
  then show "ring_len r' = ring_len r + n" .
  show "contents r' = contents r @ take n src"
  proof (rule nth_equalityI)
    fix i assume "i < length (contents r')"
    then have i: "i < ring_len r + n" by (simp add: len)
    show "contents r' ! i = (contents r @ take n src) ! i"
    proof (cases "i < ring_len r")
      case True
      then show ?thesis using i len by (simp add: contents_slot nth_append) (simp add: r'_def)
    next
      case False
      then have "slot_of (cap r) (tail r) (i - ring_len r) = slot_of (cap r) (head r) i"
        using tail_slot [OF c(1), of "i - ring_len r"] by simp
      then show ?thesis using False i len p(5) [of "i - ring_len r"] p(1)
        by (simp add: contents_slot nth_append) (simp add: r'_def)
    qed
  qed (use len p(2) in simp)
  show "ring_fit r'" using assms(1) len p(3) by (simp add: ring_fit_def r'_def)
qed

lemma publish_head:
  assumes "ring_fit r" "n \<le> ring_len r" "cap r dvd 2 ^ 32"
  defines "r' \<equiv> r\<lparr>head := head r + of_nat n\<rparr>"
  shows "contents r' = drop n (contents r)" "ring_fit r'" "ring_len r' = ring_len r - n"
proof -
  show len: "ring_len r' = ring_len r - n" unfolding r'_def by (rule ring_len_read [OF assms(2)])
  show "contents r' = drop n (contents r)"
  proof (rule nth_equalityI)
    fix i assume "i < length (contents r')"
    then have i: "i < ring_len r - n" by (simp add: len)
    then show "contents r' ! i = drop n (contents r) ! i"
      using len slot_shift [OF assms(3), of "head r" n i] by (simp add: contents_slot) (simp add: r'_def)
  qed (simp add: len)
  have "ring_len r - n \<le> cap r" using assms(1) by (simp only: ring_fit_def) linarith
  then show "ring_fit r'" using assms(1) len by (simp add: ring_fit_def r'_def)
qed


subsection \<open>Every step keeps the invariant\<close>

lemma unat_behind:
  fixes t h w :: usize
  assumes "unat (w - h) \<le> unat (t - h)"
  shows "unat (t - w) = unat (t - h) - unat (w - h)"
  using unat_sub [of "w - h" "t - h"] assms by (simp add: word_le_nat_alt)

lemma prod_ok_read:
  assumes "prod_ok r p" "n \<le> ring_len r"
  shows "prod_ok (r\<lparr>head := head r + of_nat n\<rparr>) p"
proof (cases p)
  case (PHead src h)
  then have h: "unat (head r - h) \<le> unat (tail r - h)" "unat (tail r - h) \<le> cap r" "0 < cap r" using assms(1) by auto
  have le: "n \<le> unat (tail r - h) - unat (head r - h)"
    using assms(2) unat_behind [OF h(1)] by (simp add: ring_len_def)
  have "unat (tail r - h) < 2 ^ 32" using unsigned_less [of "tail r - h"] by simp
  then have "unat (head r + of_nat n - h) = unat (head r - h) + n"
    using unat_add_of_nat [of "head r - h" n] le h(1) by (simp add: algebra_simps)
  then show ?thesis using PHead h le by simp
next
  case (PCopy src t n' k)
  then show ?thesis using assms ring_len_read [OF assms(2)] by auto
qed (use assms in auto)

lemma cons_ok_same:
  assumes "cons_ok r c" "contents r' = contents r @ ys" "head r' = head r" "cap r' = cap r"
  shows "cons_ok r' c"
proof -
  have "ring_len r' = ring_len r + length ys" using assms(2) by (metis length_append length_contents)
  then show ?thesis using assms by (cases c) auto
qed


lemma spsc_step_inv:
  assumes "spsc_step s s'" "spsc_inv s"
  shows "spsc_inv s'"
proof -
  have fit: "ring_fit (ring s)" and P: "prod_ok (ring s) (producer s)" and C: "cons_ok (ring s) (consumer s)"
    and D: "accepted s = delivered s @ contents (ring s)" using assms(2) by (auto simp: spsc_inv_def)
  have le: "ring_len (ring s) \<le> cap (ring s)" using fit by (simp add: ring_fit_def)
  show ?thesis using assms(1)
  proof cases
    case (write_call src)
    then show ?thesis using fit C D by (auto simp: spsc_inv_def)
  next
    case (write_head src)
    then show ?thesis using fit P C D le by (simp add: spsc_inv_def ring_len_def)
  next
    case (write_tail src h t c)
    then have h: "unat (head (ring s) - h) \<le> unat (tail (ring s) - h)" "unat (tail (ring s) - h) \<le> cap (ring s)"
      "0 < cap (ring s)" using P by auto
    have "ring_len (ring s) \<le> unat (tail (ring s) - h)" using unat_behind [OF h(1)] by (simp add: ring_len_def)
    then show ?thesis using write_tail h fit C D by (auto simp: spsc_inv_def Let_def min_def)
  next
    case (write_byte src t n k c i)
    have p: "0 < cap (ring s)" "t = tail (ring s)" "ring_len (ring s) + n \<le> cap (ring s)"
      "\<And>j. j < k \<Longrightarrow> ring_buf (ring s) ! slot_of (cap (ring s)) t j = src ! j"
      "0 < n" "n \<le> length src" using P write_byte(2) by auto
    have i: "i = slot_of (cap (ring s)) (tail (ring s)) k"
      using write_byte(3-5) p(1-3) by (simp add: run_index_slot)
    have "i < length (ring_buf (ring s))" using slot_less [OF p(1)] fit by (simp add: i ring_fit_def)
    moreover have "ring_len (ring s) + k < cap (ring s)" using p(3) write_byte(3) by simp
    note st = store_free [OF fit p(1) this, where b = "src ! k", folded i]
    have "cons_ok ((ring s)\<lparr>ring_buf := (ring_buf (ring s))[i := src ! k]\<rparr>) (consumer s)"
      by (rule cons_ok_same [OF C, where ys = "[]"]) (simp_all add: st)
    moreover have "prod_ok ((ring s)\<lparr>ring_buf := (ring_buf (ring s))[i := src ! k]\<rparr>) (PCopy src t n (k + 1))"
      using p write_byte(3) st(3,4) by (auto simp: i less_Suc_eq ring_len_def)
    ultimately show ?thesis using write_byte(1) st(1,2) D p(2) by (simp add: spsc_inv_def)
  next
    case (write_publish src t n)
    have pk: "prod_ok (ring s) (PCopy src t n n)" using P by (simp only: write_publish(2))
    note pt = publish_tail [OF fit pk]
    have "cons_ok ((ring s)\<lparr>tail := t + of_nat n\<rparr>) (consumer s)"
      by (rule cons_ok_same [OF C pt(1)]) simp_all
    then show ?thesis using write_publish pt D by (simp add: spsc_inv_def)
  next
    case (read_call k)
    then show ?thesis using fit P D by (auto simp: spsc_inv_def)
  next
    case (read_tail k)
    then show ?thesis using fit P C D by (simp add: spsc_inv_def ring_len_def)
  next
    case (read_head k t h)
    then show ?thesis using fit P C D by (auto simp: spsc_inv_def Let_def min_def)
  next
    case (read_byte h n xs c i)
    have c: "0 < cap (ring s)" "h = head (ring s)" "n \<le> ring_len (ring s)" "0 < n"
      "xs = take (length xs) (contents (ring s))" using C read_byte(2) by auto
    have i: "i = slot_of (cap (ring s)) (head (ring s)) (length xs)"
      using read_byte(3-5) c(1-3) le by (simp add: run_index_slot)
    have "i < length (ring_buf (ring s))" using slot_less [OF c(1)] fit by (simp add: i ring_fit_def)
    moreover have "ring_buf (ring s) ! i = contents (ring s) ! length xs"
      using read_byte(3) c(3) by (simp add: i contents_slot)
    then have "xs @ [ring_buf (ring s) ! i] = take (length (xs @ [ring_buf (ring s) ! i])) (contents (ring s))"
      using c(3,5) read_byte(3) by (simp add: take_Suc_conv_app_nth)
    ultimately show ?thesis using read_byte(1,3) c fit P D by (simp add: spsc_inv_def)
  next
    case (read_publish h n xs)
    have c: "0 < cap (ring s)" "h = head (ring s)" "n \<le> ring_len (ring s)" "xs = take n (contents (ring s))"
      using C read_publish(2,3) by auto
    have dv: "cap (ring s) dvd 2 ^ 32" using fit c(1) by (auto simp: ring_fit_def)
    note ph = publish_head [OF fit c(3) dv]
    show ?thesis using read_publish(1,2) ph prod_ok_read [OF P c(3)] D c(2,4) by (simp add: spsc_inv_def)
  qed
qed


lemma spsc_start_inv: "length b < 2 ^ 32 \<Longrightarrow> length b = 0 \<or> length b dvd 2 ^ 32 \<Longrightarrow> spsc_inv (spsc_start b)"
  by (simp add: spsc_start_def spsc_inv_def ring_fit_def ring_install_def ring_len_def contents_def)

lemma spsc_reach_inv: "spsc_reach s s' \<Longrightarrow> spsc_inv s \<Longrightarrow> spsc_inv s'"
  by (induction rule: spsc_reach.induct) (auto intro: spsc_step_inv)

text \<open>
  C9. Producer and consumer of the ring, preempting each other between any two loads, stores
  or copied bytes of \<^verbatim>\<open>write\<close> and \<^verbatim>\<open>read\<close>, over a buffer whose length divides \<open>2^32\<close>:
  neither ever panics on its subtraction nor touches memory outside the buffer, and at every
  moment the bytes that the completed writes accepted are, in order, those that the completed
  reads delivered followed by those stored. The bytes a read under way has copied are the next ones.
\<close>

theorem concurrent_fifo:
  assumes "length b < 2 ^ 32" "length b = 0 \<or> length b dvd 2 ^ 32" "spsc_reach (spsc_start b) s"
  shows "producer s \<noteq> PFail \<and> consumer s \<noteq> CFail \<and>
    accepted s = delivered s @ contents (ring s) \<and> ring_len (ring s) \<le> cap (ring s) \<and>
    (\<forall>h n xs. consumer s = CCopy h n xs \<longrightarrow> prefix (delivered s @ xs) (accepted s))"
proof -
  have inv: "spsc_inv s" using spsc_reach_inv [OF assms(3) spsc_start_inv [OF assms(1,2)]] .
  have "prefix (delivered s @ xs) (accepted s)" if "consumer s = CCopy h n xs" for h n xs
  proof -
    have "xs = take (length xs) (contents (ring s))" "accepted s = delivered s @ contents (ring s)"
      using inv that by (auto simp: spsc_inv_def)
    then show ?thesis by (metis same_prefix_prefix take_is_prefix)
  qed
  then show ?thesis using inv by (auto simp: spsc_inv_def ring_fit_def)
qed

text \<open>A run over a two-byte buffer: the consumer starts its call while the producer is in the middle of its copy.\<close>

definition demo_state :: "prod_pc \<Rightarrow> cons_pc \<Rightarrow> usize \<Rightarrow> usize \<Rightarrow> u8 \<Rightarrow> bytes \<Rightarrow> bytes \<Rightarrow> spsc" where
  "demo_state p c t h b acc del = \<lparr>ring = \<lparr>ring_buf = [b, 0], cap = 2, head = h, tail = t, frames_in = 0, frames_out = 0\<rparr>,
     producer = p, consumer = c, accepted = acc, delivered = del\<rparr>"

lemma demo_select [simp]:
  "producer (demo_state p c t h b acc del) = p" "consumer (demo_state p c t h b acc del) = c"
  "accepted (demo_state p c t h b acc del) = acc" "delivered (demo_state p c t h b acc del) = del"
  "ring (demo_state p c t h b acc del) = \<lparr>ring_buf = [b, 0], cap = 2, head = h, tail = t, frames_in = 0, frames_out = 0\<rparr>"
  by (simp_all add: demo_state_def)

lemma reach_then: "spsc_reach s s1 \<Longrightarrow> spsc_step s1 s2' \<Longrightarrow> s2' = s2 \<Longrightarrow> spsc_reach s s2"
  by (auto intro: spsc_reach.step)

lemma demo_run: "spsc_reach (spsc_start [0, 0]) (demo_state PIdle CIdle 1 1 7 [7] [7])"
proof -
  let ?S = "spsc_start [0, 0]"
  have "?S = demo_state PIdle CIdle 0 0 0 [] []"
    by (simp add: demo_state_def spsc_start_def ring_install_def ring_new_def)
  then have "spsc_reach ?S (demo_state PIdle CIdle 0 0 0 [] [])" by (metis spsc_reach.here)
  then have "spsc_reach ?S (demo_state (PCap [7]) CIdle 0 0 0 [] [])"
    by (rule reach_then [OF _ write_call [where src = "[7]"]]) (simp_all add: demo_state_def run_index_def)
  then have "spsc_reach ?S (demo_state (PHead [7] 0) CIdle 0 0 0 [] [])"
    by (rule reach_then [OF _ write_head [where src = "[7]"]]) (simp_all add: demo_state_def run_index_def)
  then have "spsc_reach ?S (demo_state (PCopy [7] 0 1 0) CIdle 0 0 0 [] [])"
    by (rule reach_then [OF _ write_tail [where src = "[7]" and h = 0 and t = 0 and c = 2]]) (simp_all add: demo_state_def run_index_def)
  then have "spsc_reach ?S (demo_state (PCopy [7] 0 1 0) (CCap 4) 0 0 0 [] [])"
    by (rule reach_then [OF _ read_call [where k = 4]]) (simp_all add: demo_state_def run_index_def)
  then have "spsc_reach ?S (demo_state (PCopy [7] 0 1 1) (CCap 4) 0 0 7 [] [])"
    by (rule reach_then [OF _ write_byte [where i = 0 and src = "[7]" and t = 0 and n = 1 and k = 0 and c = 2]]) (simp_all add: demo_state_def run_index_def)
  then have "spsc_reach ?S (demo_state PIdle (CCap 4) 1 0 7 [7] [])"
    by (rule reach_then [OF _ write_publish [where src = "[7]" and t = 0 and n = 1]]) (simp_all add: demo_state_def run_index_def)
  then have "spsc_reach ?S (demo_state PIdle (CTail 4 1) 1 0 7 [7] [])"
    by (rule reach_then [OF _ read_tail [where k = 4]]) (simp_all add: demo_state_def run_index_def)
  then have "spsc_reach ?S (demo_state PIdle (CCopy 0 1 []) 1 0 7 [7] [])"
    by (rule reach_then [OF _ read_head [where k = 4 and t = 1 and h = 0]]) (simp_all add: demo_state_def run_index_def)
  then have "spsc_reach ?S (demo_state PIdle (CCopy 0 1 [7]) 1 0 7 [7] [])"
    by (rule reach_then [OF _ read_byte [where h = 0 and n = 1 and xs = "[]" and c = 2 and i = 0]]) (simp_all add: demo_state_def run_index_def)
  then show ?thesis
    by (rule reach_then [OF _ read_publish [where h = 0 and n = 1 and xs = "[7]"]]) (simp_all add: demo_state_def run_index_def)
qed

theorem concurrent_fifo_witness:
  "\<exists>s. spsc_reach (spsc_start [0, 0]) s \<and> delivered s = [7] \<and> producer s \<noteq> PFail \<and> accepted s = [7] @ contents (ring s)"
proof -
  have "length [0 :: u8, 0] dvd 2 ^ 32" by (rule dvdI [of _ _ "2 ^ 31"]) simp
  then have "accepted (demo_state PIdle CIdle 1 1 7 [7] [7]) =
      delivered (demo_state PIdle CIdle 1 1 7 [7] [7]) @ contents (ring (demo_state PIdle CIdle 1 1 7 [7] [7]))"
    using concurrent_fifo [OF _ disjI2 demo_run] by simp
  then show ?thesis using demo_run by (intro exI [of _ "demo_state PIdle CIdle 1 1 7 [7] [7]"]) simp
qed

subsection \<open>Without preemption the steps are the functions of the ring\<close>

lemma copy_at_snoc:
  assumes "off + length xs < length b"
  shows "copy_at off (xs @ [x]) b = (copy_at off xs b)[off + length xs := x]"
  by (rule nth_equalityI) (use assms in \<open>auto simp: nth_copy_at nth_list_update nth_append\<close>)

text \<open>One byte more of the two runs of the copy, as \<open>write_byte\<close> does it.\<close>

lemma wrap_copy_in_step:
  assumes "k < n" "n \<le> length src" "n \<le> c" "start < c" "length b = c" "wrap_copy_in c start (take k src) b = Some b'"
  shows "wrap_copy_in c start (take (Suc k) src) b = Some (b'[run_index c start n k := src ! k]) \<and>
    run_index c start n k < length b' \<and> length b' = c"
proof -
  have t: "take (Suc k) src = take k src @ [src ! k]" using assms(1,2) by (simp add: take_Suc_conv_app_nth)
  show ?thesis
  proof (cases "k < c - start")
    case True
    then have "min k (c - start) = k" "min (Suc k) (c - start) = Suc k" "run_index c start n k = start + k"
      using assms(1) by (auto simp: run_index_def Let_def)
    then show ?thesis using assms True copy_at_snoc [of start "take k src" b "src ! k"]
      by (auto simp: wrap_copy_in_def Let_def t)
  next
    case False
    define b1 where "b1 = copy_at start (take (c - start) src) b"
    define ys where "ys = drop (c - start) (take k src)"
    have l: "length b1 = c" "length ys = k - (c - start)" using assms(1-5) by (auto simp: b1_def ys_def)
    have d: "take (c - start) (take k src) = take (c - start) src" "min k (c - start) = c - start"
      "min (Suc k) (c - start) = c - start" "take (c - start) (take k src @ [src ! k]) = take (c - start) src"
      "drop (c - start) (take k src @ [src ! k]) = ys @ [src ! k]"
      using False assms(1,2) by (auto simp: ys_def min_def)
    have "b' = copy_at 0 ys b1"
      using assms(1-6) False l by (auto simp: wrap_copy_in_def Let_def d b1_def ys_def split: if_splits)
    moreover have "wrap_copy_in c start (take (Suc k) src) b = Some (copy_at 0 (ys @ [src ! k]) b1)"
      using assms(1-5) False d l unfolding t by (auto simp: wrap_copy_in_def Let_def b1_def)
    moreover have "run_index c start n k = length ys" using False assms(1) l by (auto simp: run_index_def Let_def min_def)
    ultimately show ?thesis using copy_at_snoc [of 0 ys b1 "src ! k"] l assms(1,3,4) False by simp
  qed
qed

lemma wrap_copy_out_step:
  assumes "k < n" "n \<le> c" "start < c" "length b = c" "wrap_copy_out c start k b = Some xs"
  shows "wrap_copy_out c start (Suc k) b = Some (xs @ [b ! run_index c start n k]) \<and>
    run_index c start n k < length b \<and> length xs = k"
proof (cases "k < c - start")
  case True
  then have "min k (c - start) = k" "min (Suc k) (c - start) = Suc k" "run_index c start n k = start + k"
    using assms(1) by (auto simp: run_index_def Let_def)
  then show ?thesis using assms True by (auto simp: wrap_copy_out_def Let_def take_Suc_conv_app_nth)
next
  case False
  then have "min k (c - start) = c - start" "min (Suc k) (c - start) = c - start" "run_index c start n k = k - (c - start)"
    using assms(1) by (auto simp: run_index_def Let_def min_def)
  then show ?thesis using assms False
    by (auto simp: wrap_copy_out_def Let_def take_Suc_conv_app_nth Suc_diff_le split: if_splits)
qed

lemma spsc_reach_trans: "spsc_reach s s1 \<Longrightarrow> spsc_reach s1 s2 \<Longrightarrow> spsc_reach s s2"
  by (rotate_tac 1, induction rule: spsc_reach.induct) (auto intro: spsc_reach.step)

lemma solo_copy_in:
  assumes "k \<le> n" "n \<le> length src" "n \<le> cap (ring s)" "0 < cap (ring s)" "length (ring_buf (ring s)) = cap (ring s)"
    "producer s = PCopy src t n 0"
  shows "\<exists>b. wrap_copy_in (cap (ring s)) (unat t mod cap (ring s)) (take k src) (ring_buf (ring s)) = Some b \<and>
    spsc_reach s (s\<lparr>ring := (ring s)\<lparr>ring_buf := b\<rparr>, producer := PCopy src t n k\<rparr>)"
  using assms(1)
proof (induction k)
  case 0
  have "s\<lparr>ring := (ring s)\<lparr>ring_buf := ring_buf (ring s)\<rparr>, producer := PCopy src t n 0\<rparr> = s"
    using assms(6) by simp
  moreover have "unat t mod cap (ring s) < cap (ring s)" using assms(4) by simp
  then have "wrap_copy_in (cap (ring s)) (unat t mod cap (ring s)) (take 0 src) (ring_buf (ring s)) = Some (ring_buf (ring s))"
    using assms(5) by (simp add: wrap_copy_in_def Let_def)
  ultimately show ?case by (metis spsc_reach.here)
next
  case (Suc k)
  let ?c = "cap (ring s)" and ?m = "unat t mod cap (ring s)"
  from Suc obtain b where b: "wrap_copy_in ?c ?m (take k src) (ring_buf (ring s)) = Some b"
    "spsc_reach s (s\<lparr>ring := (ring s)\<lparr>ring_buf := b\<rparr>, producer := PCopy src t n k\<rparr>)" by auto
  have "?m < ?c" using assms(4) by simp
  from wrap_copy_in_step [OF _ assms(2,3) this assms(5) b(1)] Suc.prems
  have st: "wrap_copy_in ?c ?m (take (Suc k) src) (ring_buf (ring s)) = Some (b[run_index ?c ?m n k := src ! k])"
    "run_index ?c ?m n k < length b" by auto
  have "spsc_reach s (s\<lparr>ring := (ring s)\<lparr>ring_buf := b[run_index ?c ?m n k := src ! k]\<rparr>, producer := PCopy src t n (Suc k)\<rparr>)"
    by (rule reach_then [OF b(2) write_byte [where src = src and t = t and n = n and k = k and c = ?c and i = "run_index ?c ?m n k"]])
      (use st(2) Suc.prems in simp_all)
  with st(1) show ?case by blast
qed

lemma solo_copy_out:
  assumes "k \<le> n" "n \<le> cap (ring s)" "0 < cap (ring s)" "length (ring_buf (ring s)) = cap (ring s)"
    "consumer s = CCopy h n []"
  shows "\<exists>xs. wrap_copy_out (cap (ring s)) (unat h mod cap (ring s)) k (ring_buf (ring s)) = Some xs \<and> length xs = k \<and>
    spsc_reach s (s\<lparr>consumer := CCopy h n xs\<rparr>)"
  using assms(1)
proof (induction k)
  case 0
  have "s\<lparr>consumer := CCopy h n []\<rparr> = s" using assms(5) by simp
  moreover have "unat h mod cap (ring s) < cap (ring s)" using assms(3) by simp
  then have "wrap_copy_out (cap (ring s)) (unat h mod cap (ring s)) 0 (ring_buf (ring s)) = Some []"
    using assms(4) by (simp add: wrap_copy_out_def Let_def)
  ultimately show ?case by (metis spsc_reach.here list.size(3))
next
  case (Suc k)
  let ?c = "cap (ring s)" and ?m = "unat h mod cap (ring s)"
  from Suc obtain xs where b: "wrap_copy_out ?c ?m k (ring_buf (ring s)) = Some xs" "length xs = k"
    "spsc_reach s (s\<lparr>consumer := CCopy h n xs\<rparr>)" by auto
  have "?m < ?c" using assms(3) by simp
  from wrap_copy_out_step [OF _ assms(2) this assms(4) b(1)] Suc.prems
  have st: "wrap_copy_out ?c ?m (Suc k) (ring_buf (ring s)) = Some (xs @ [ring_buf (ring s) ! run_index ?c ?m n k])"
    "run_index ?c ?m n k < length (ring_buf (ring s))" by auto
  have "spsc_reach s (s\<lparr>consumer := CCopy h n (xs @ [ring_buf (ring s) ! run_index ?c ?m n k])\<rparr>)"
    by (rule reach_then [OF b(3) read_byte [where h = h and n = n and xs = xs and c = ?c and i = "run_index ?c ?m n k"]])
      (use st(2) Suc.prems b(2) in simp_all)
  with st(1) b(2) show ?case by (metis length_append_singleton)
qed

lemma solo_write:
  assumes "length (ring_buf (ring s)) = cap (ring s)" "ring_len (ring s) \<le> cap (ring s)" "producer s = PIdle"
  shows "\<exists>n. fst (ring_write src (ring s)) = Ok n \<and>
    spsc_reach s (s\<lparr>ring := snd (ring_write src (ring s)), accepted := accepted s @ take n src\<rparr>)"
proof (cases "cap (ring s) = 0")
  case True
  then show ?thesis using spsc_reach.here [of s] by (intro exI [of _ 0]) (simp add: ring_write_def)
next
  case c: False
  let ?r = "ring s" and ?t = "tail (ring s)"
  let ?n = "min (length src) (cap ?r - ring_len ?r)"
  have "spsc_reach s (s\<lparr>producer := PCap src\<rparr>)"
    by (rule reach_then [OF spsc_reach.here write_call [OF assms(3), where src = src]]) (use c in simp)
  then have "spsc_reach s (s\<lparr>producer := PHead src (head ?r)\<rparr>)"
    by (rule reach_then [OF _ write_head [where src = src]]) simp_all
  then have n: "spsc_reach s (s\<lparr>producer := if ?n = 0 then PIdle else PCopy src ?t ?n 0\<rparr>)"
    by (rule reach_then [OF _ write_tail [where src = src and h = "head ?r" and t = ?t and c = "cap ?r"]])
      (use assms(2) in \<open>simp_all add: ring_len_def Let_def\<close>)
  show ?thesis
  proof (cases "?n = 0")
    case True
    then show ?thesis using spsc_reach.here [of s] assms(2,3) c by (intro exI [of _ 0]) (auto simp: ring_write_def ring_len_def Let_def)
  next
    case False
    let ?s = "s\<lparr>producer := PCopy src ?t ?n 0\<rparr>"
    have le: "?n \<le> cap ?r" by simp
    obtain b where b: "wrap_copy_in (cap ?r) (unat ?t mod cap ?r) (take ?n src) (ring_buf ?r) = Some b"
      "spsc_reach ?s (?s\<lparr>ring := ?r\<lparr>ring_buf := b\<rparr>, producer := PCopy src ?t ?n ?n\<rparr>)"
      using solo_copy_in [of ?n ?n src ?s ?t] c assms(1) le by auto
    have "spsc_reach s ?s" using n False by (simp only: if_False)
    from spsc_reach_trans [OF this b(2)]
    have "spsc_reach s (s\<lparr>ring := ?r\<lparr>ring_buf := b, tail := ?t + of_nat ?n\<rparr>, accepted := accepted s @ take ?n src\<rparr>)"
      by (rule reach_then [OF _ write_publish [where src = src and t = ?t and n = ?n]]) (simp_all add: assms(3) [symmetric])
    then show ?thesis using b(1) False c assms(2)
      by (intro exI [of _ ?n]) (simp add: ring_write_def ring_len_def Let_def del: neq0_conv)
  qed
qed

lemma solo_read:
  assumes "length (ring_buf (ring s)) = cap (ring s)" "ring_len (ring s) \<le> cap (ring s)" "consumer s = CIdle"
  shows "\<exists>xs. fst (ring_read k (ring s)) = Ok xs \<and>
    spsc_reach s (s\<lparr>ring := snd (ring_read k (ring s)), delivered := delivered s @ xs\<rparr>)"
proof (cases "cap (ring s) = 0")
  case True
  then show ?thesis using spsc_reach.here [of s] by (intro exI [of _ "[]"]) (simp add: ring_read_def)
next
  case c: False
  let ?r = "ring s" and ?h = "head (ring s)"
  let ?n = "min k (ring_len ?r)"
  have "spsc_reach s (s\<lparr>consumer := CCap k\<rparr>)"
    by (rule reach_then [OF spsc_reach.here read_call [OF assms(3), where k = k]]) (use c in simp)
  then have "spsc_reach s (s\<lparr>consumer := CTail k (tail ?r)\<rparr>)"
    by (rule reach_then [OF _ read_tail [where k = k]]) simp_all
  then have n: "spsc_reach s (s\<lparr>consumer := if ?n = 0 then CIdle else CCopy ?h ?n []\<rparr>)"
    by (rule reach_then [OF _ read_head [where k = k and t = "tail ?r" and h = ?h]]) (simp_all add: ring_len_def Let_def)
  show ?thesis
  proof (cases "?n = 0")
    case True
    then show ?thesis using spsc_reach.here [of s] assms(3) c by (intro exI [of _ "[]"]) (auto simp: ring_read_def ring_len_def Let_def)
  next
    case False
    let ?s = "s\<lparr>consumer := CCopy ?h ?n []\<rparr>"
    have le: "?n \<le> cap ?r" using assms(2) by simp
    obtain xs where b: "wrap_copy_out (cap ?r) (unat ?h mod cap ?r) ?n (ring_buf ?r) = Some xs" "length xs = ?n"
      "spsc_reach ?s (?s\<lparr>consumer := CCopy ?h ?n xs\<rparr>)"
      using solo_copy_out [of ?n ?n ?s ?h] c assms(1) le by auto
    have "spsc_reach s ?s" using n False by (simp only: if_False)
    from spsc_reach_trans [OF this b(3)]
    have "spsc_reach s (s\<lparr>ring := ?r\<lparr>head := ?h + of_nat ?n\<rparr>, delivered := delivered s @ xs\<rparr>)"
      by (rule reach_then [OF _ read_publish [where h = ?h and n = ?n and xs = xs]]) (simp_all add: assms(3) [symmetric] b(2))
    then show ?thesis using b(1) False c
      by (intro exI [of _ xs]) (simp add: ring_read_def ring_len_def Let_def del: neq0_conv)
  qed
qed

text \<open>
  C38. The access-by-access model refines to the functions of the ring. From any state whose
  memory is as long as the capacity and holds no more than that, a \<^verbatim>\<open>write\<close> that nothing
  preempts runs to its end, and what it leaves and reports is what \<open>ring_write\<close> says, wherever
  the consumer stands; likewise \<^verbatim>\<open>read\<close> and \<open>ring_read\<close>.
\<close>

theorem solo_runs_refine:
  assumes "length (ring_buf (ring s)) = cap (ring s)" "ring_len (ring s) \<le> cap (ring s)"
  shows "(producer s = PIdle \<longrightarrow> (\<exists>n. fst (ring_write src (ring s)) = Ok n \<and>
      spsc_reach s (s\<lparr>ring := snd (ring_write src (ring s)), accepted := accepted s @ take n src\<rparr>))) \<and>
    (consumer s = CIdle \<longrightarrow> (\<exists>xs. fst (ring_read k (ring s)) = Ok xs \<and>
      spsc_reach s (s\<lparr>ring := snd (ring_read k (ring s)), delivered := delivered s @ xs\<rparr>)))"
  using solo_write [OF assms] solo_read [OF assms] by blast

theorem solo_runs_refine_witness:
  "spsc_reach (demo_state PIdle (CTail 4 0) 0 0 0 [] []) (demo_state PIdle (CTail 4 0) 1 0 7 [7] [])"
proof -
  let ?s = "demo_state PIdle (CTail 4 0) 0 0 0 [] []"
  have w: "ring_write [7] (ring ?s) = (Ok 1, (ring ?s)\<lparr>ring_buf := [7, 0], tail := 1\<rparr>)" by (simp add: demo_select) code_simp
  have "length (ring_buf (ring ?s)) = cap (ring ?s)" "ring_len (ring ?s) \<le> cap (ring ?s)" by (simp_all add: ring_len_def)
  from solo_runs_refine [OF this, of "[7]" 0] show ?thesis unfolding w by (simp add: demo_state_def)
qed

end
