(* ===== verification/Firmware.thy ===== *)
theory Firmware
  imports Echo_App Hal_Spi
begin

text \<open>
  The echo firmware on its board (\<^verbatim>\<open>examples/echo/src/main.rs\<close>): the start of \<^verbatim>\<open>main\<close> on the DMA transport
  of \<^verbatim>\<open>hal_spi.rs\<close>, its endless loop as a machine that makes one call on the chip at a time, and
  the three interrupt handlers, which may run between any two of those calls. An interrupt
  inside a call is the subject of Driver_Safety (a slot held while an interrupt runs) and of
  Spsc_Concurrent (a ring operation taken apart). The LED is the only output pin with a state.
\<close>

subsection \<open>Calls from main\<close>

text \<open>\<^verbatim>\<open>main\<close> has its locals beside the chip. \<^verbatim>\<open>result.expect(..)\<close>, \<^verbatim>\<open>let _ = ..\<close> and \<^verbatim>\<open>option.unwrap()\<close>.\<close>

definition expect :: "('w, 'a) sm \<Rightarrow> ('m \<times> 'w, 'a) sm" where
  "expect f = (\<lambda>(m, w). case f w of (Err _, w') \<Rightarrow> (Panic, (m, w')) | (r, w') \<Rightarrow> (r, (m, w')))"

definition attempt :: "('w, 'a) sm \<Rightarrow> ('m \<times> 'w, 'a option) sm" where
  "attempt f = (\<lambda>(m, w). case f w of
     (Ok x, w') \<Rightarrow> (Ok (Some x), (m, w')) | (Err _, w') \<Rightarrow> (Ok None, (m, w')) | (Panic, w') \<Rightarrow> (Panic, (m, w')))"

definition unwrap :: "('m \<Rightarrow> 'a option) \<Rightarrow> ('m \<times> 'w, 'a) sm" where
  "unwrap get = (\<lambda>(m, w). case get m of None \<Rightarrow> (Panic, (m, w)) | Some x \<Rightarrow> (Ok x, (m, w)))"

subsection \<open>Main\<close>

text \<open>
  Where \<^verbatim>\<open>main\<close> is between two calls on the chip: before the link, in the three calls of bring-up,
  at the top of the serving loop, at the status, in the TCP echo (refill, push), at the
  re-arming of a finished connection, and in the UDP echo (flush, receive, send of a datagram of
  the given length and peer).
\<close>

datatype main_pc = AwaitLink | SetConfig | ArmTcp | ArmUdp | CheckLink
  | TcpStatus | TcpRefill | TcpPush | TcpRearm | UdpFlush | UdpRecv | UdpSend nat socket_addr

record main_state =
  pc :: main_pc
  tcp_sock :: "nat option"
  udp_sock :: "nat option"
  app :: echo_app

definition goto :: "main_pc \<Rightarrow> (main_state \<times> 'w, unit) sm" where
  "goto p = modify (\<lambda>(m, w). (m\<lparr>pc := p\<rparr>, w))"

definition on_app :: "(echo_app \<times> 'w, 'a) sm \<Rightarrow> (main_state \<times> 'w, 'a) sm" where
  "on_app = zoom (\<lambda>(m, w). (app m, w)) (\<lambda>(a, w') (m, w). (m\<lparr>app := a\<rparr>, w'))"

definition set_led :: "bool \<Rightarrow> (main_state \<times> 'w, unit) sm" where
  "set_led b = modify (\<lambda>(m, w). (m\<lparr>app := (app m)\<lparr>led_on := b\<rparr>\<rparr>, w))"

definition echo_config :: network_config where
  "echo_config = \<lparr>cfg_ip = from_be [192, 168, 10, 10], cfg_gateway = from_be [192, 168, 10, 1],
     cfg_subnet = from_be [255, 255, 255, 0]\<rparr>"

definition fresh_app :: "bool \<Rightarrow> echo_app" where
  "fresh_app led = \<lparr>app_buf = replicate 128 0, app_len = 0, app_off = 0, led_on = led,
     udp_buf = replicate 512 0, udp_pending = None\<rparr>"

definition arm_tcp :: "(main_state \<times> ('d, 't, 'p) w6100, unit) sm" where
  "arm_tcp =
     bnd (gets (\<lambda>(m, w). tcp_sock m)) (\<lambda>sock.
     case sock of
       None \<Rightarrow>
         bnd (expect (open_tcp_listen 5555 (replicate 512 0) (replicate 512 0))) (\<lambda>i.
         modify (\<lambda>(m, w). (m\<lparr>tcp_sock := Some i\<rparr>, w)))
     | Some i \<Rightarrow> expect (on_socket i tcp_reconnect))"

definition arm_udp :: "(main_state \<times> ('d, 't, 'p) w6100, unit) sm" where
  "arm_udp =
     bnd (gets (\<lambda>(m, w). udp_sock m)) (\<lambda>sock.
     case sock of
       None \<Rightarrow>
         bnd (expect (open_udp 5556 (replicate 512 0) (replicate 512 0))) (\<lambda>j.
         modify (\<lambda>(m, w). (m\<lparr>udp_sock := Some j\<rparr>, w)))
     | Some j \<Rightarrow> expect (on_socket j udp_reconnect))"

text \<open>The match on the status of the TCP socket, up to the call that follows.\<close>

definition on_status :: "socket_status option \<Rightarrow> (main_state \<times> 'w, unit) sm" where
  "on_status st =
     (if st = Some Established then bnd (set_led True) (\<lambda>_. goto TcpRefill)
      else if st = Some Closed \<or> st = Some StTimeout \<or> st = Some StError then
        bnd (set_led False) (\<lambda>_.
        bnd (modify (\<lambda>(m, w). (m\<lparr>app := (app m)\<lparr>app_len := 0, app_off := 0\<rparr>\<rparr>, w))) (\<lambda>_.
        goto TcpRearm))
      else bnd (set_led False) (\<lambda>_. goto UdpFlush))"

text \<open>Both ends of \<^verbatim>\<open>recv_from\<close> and \<^verbatim>\<open>send_to\<close> in the UDP loop; \<open>None\<close> is a \<^verbatim>\<open>recv_from\<close> that spins.\<close>

definition udp_take :: "main_state \<times> ('d, 't, 'p) w6100 \<Rightarrow> (unit res \<times> main_state \<times> ('d, 't, 'p) w6100) option" where
  "udp_take = (\<lambda>(m, w).
     case udp_sock m of
       None \<Rightarrow> Some (Panic, (m, w))
     | Some j \<Rightarrow>
         (case udp_handle_recv j (length (udp_buf (app m))) w of
            None \<Rightarrow> None
          | Some (Ok (Some (xs, peer)), w1) \<Rightarrow>
              Some (Ok (), (m\<lparr>app := (app m)\<lparr>udp_buf := copy_at 0 xs (udp_buf (app m))\<rparr>, pc := UdpSend (length xs) peer\<rparr>, w1))
          | Some (Panic, w1) \<Rightarrow> Some (Panic, (m, w1))
          | Some (_, w1) \<Rightarrow> Some (Ok (), (m\<lparr>pc := CheckLink\<rparr>, w1))))"

definition udp_give :: "nat \<Rightarrow> socket_addr \<Rightarrow> (main_state \<times> ('d, 't, 'p) w6100, unit) sm" where
  "udp_give n peer =
     bnd (unwrap udp_sock) (\<lambda>j.
     bnd (gets (\<lambda>(m, w). udp_buf (app m))) (\<lambda>buf.
     if n \<le> length buf then
       bnd (attempt (unwrap_or 0 (udp_handle_send j (take n buf) peer))) (\<lambda>sent.
       if sent = Some 0 then
         bnd (modify (\<lambda>(m, w). (m\<lparr>app := (app m)\<lparr>udp_pending := Some (n, peer)\<rparr>\<rparr>, w))) (\<lambda>_. goto CheckLink)
       else goto UdpFlush)
     else panic))"

text \<open>One call of \<^verbatim>\<open>main\<close> and what it does up to the next one. Asleep, it waits for any interrupt.\<close>

definition main_call :: "main_state \<times> ('d, 't, 'p) w6100 \<Rightarrow> (unit res \<times> main_state \<times> ('d, 't, 'p) w6100) option" where
  "main_call = (\<lambda>(m, w).
     case pc m of
       AwaitLink \<Rightarrow> Some ((if link_up w then goto SetConfig else ret ()) (m, w))
     | SetConfig \<Rightarrow> Some (bnd (expect (set_network_config echo_config)) (\<lambda>_. goto ArmTcp) (m, w))
     | ArmTcp \<Rightarrow> Some (bnd arm_tcp (\<lambda>_. goto ArmUdp) (m, w))
     | ArmUdp \<Rightarrow>
         Some (bnd arm_udp (\<lambda>_.
               bnd (modify (\<lambda>(m, w). (m\<lparr>app := fresh_app (led_on (app m))\<rparr>, w))) (\<lambda>_. goto CheckLink)) (m, w))
     | CheckLink \<Rightarrow>
         Some ((if link_up w then goto TcpStatus else bnd (set_led False) (\<lambda>_. goto AwaitLink)) (m, w))
     | TcpStatus \<Rightarrow>
         Some (bnd (unwrap tcp_sock) (\<lambda>i. bnd (attempt (on_socket i tcp_handle_status)) on_status) (m, w))
     | TcpRefill \<Rightarrow>
         Some (bnd (unwrap tcp_sock) (\<lambda>i.
               bnd (on_app (echo_refill (\<lambda>n. on_socket i (tcp_read n)))) (\<lambda>go.
               goto (if go then TcpPush else UdpFlush))) (m, w))
     | TcpPush \<Rightarrow>
         Some (bnd (unwrap tcp_sock) (\<lambda>i.
               bnd (on_app (echo_push (\<lambda>xs. on_socket i (tcp_write xs)))) (\<lambda>go.
               goto (if go then TcpRefill else UdpFlush))) (m, w))
     | TcpRearm \<Rightarrow>
         Some (bnd (unwrap tcp_sock) (\<lambda>i.
               bnd (attempt (on_socket i tcp_reconnect)) (\<lambda>_. goto UdpFlush)) (m, w))
     | UdpFlush \<Rightarrow>
         Some (bnd (unwrap udp_sock) (\<lambda>j.
               bnd (on_app (udp_flush (udp_handle_send j))) (\<lambda>go.
               goto (if go then UdpRecv else CheckLink))) (m, w))
     | UdpRecv \<Rightarrow> udp_take (m, w)
     | UdpSend n peer \<Rightarrow> Some (udp_give n peer (m, w)))"

subsection \<open>The interrupt handlers\<close>

text \<open>
  The statics shared with the handlers: the chip once it is published, and the pending flags
  of the timer and of the pin, once their owners are.
\<close>

record ('d, 't, 'p) firmware =
  CHIP :: "('d, 't, 'p) w6100 option"
  TIMER :: "bool option"
  INT_PIN :: "bool option"

definition on_chip_static :: "(('d, 't, 'p) w6100, unit) sm \<Rightarrow> (('d, 't, 'p) firmware, unit) sm" where
  "on_chip_static m f =
     (case CHIP f of
        None \<Rightarrow> (Ok (), f)
      | Some w \<Rightarrow> (case ignore m w of (r, w') \<Rightarrow> (r, f\<lparr>CHIP := Some w'\<rparr>)))"

definition isr_service :: "('d, 't) spi_dma_device \<Rightarrow> 'p output_pin \<Rightarrow> (('d, 't, 'p) firmware, unit) sm" where
  "isr_service D P = on_chip_static (w6100_service D P)"

definition TIM2 :: "('d, 't) spi_dma_device \<Rightarrow> 'p output_pin \<Rightarrow> (('d, 't, 'p) firmware, unit) sm" where
  "TIM2 D P = bnd (modify (\<lambda>f. f\<lparr>TIMER := map_option (\<lambda>_. False) (TIMER f)\<rparr>)) (\<lambda>_. isr_service D P)"

definition EXTI15_10 :: "('d, 't) spi_dma_device \<Rightarrow> 'p output_pin \<Rightarrow> (('d, 't, 'p) firmware, unit) sm" where
  "EXTI15_10 D P = bnd (modify (\<lambda>f. f\<lparr>INT_PIN := map_option (\<lambda>_. False) (INT_PIN f)\<rparr>)) (\<lambda>_. isr_service D P)"

definition DMA1_CHANNEL2 :: "('d, 't) spi_dma_device \<Rightarrow> 'p output_pin \<Rightarrow> (('d, 't, 'p) firmware, unit) sm" where
  "DMA1_CHANNEL2 D P = on_chip_static (dma_complete D P)"

subsection \<open>The board\<close>

text \<open>The start of \<^verbatim>\<open>main\<close>: transport, scratch buffers, chip, statics. \<open>Panic\<close> is the failed \<^verbatim>\<open>expect\<close>.\<close>

definition main_mac :: bytes where
  "main_mac = [0xfc, 0xd7, 0xfd, 0xab, 0x8b, 0xe4]"

definition boot_on ::
  "('d, 't) spi_dma_device \<Rightarrow> 'p output_pin \<Rightarrow> 'd \<Rightarrow> 'p \<Rightarrow> (main_state \<times> ('d, 't, 'p) firmware) res" where
  "boot_on D P dev pin =
     (case w6100_new D P dev pin \<lparr>rx_buf = replicate SCRATCH 0, tx_buf = replicate SCRATCH 0, dma_len = 0\<rparr> main_mac of
        Ok w \<Rightarrow> Ok (\<lparr>pc = AwaitLink, tcp_sock = None, udp_sock = None, app = fresh_app False\<rparr>,
                   \<lparr>CHIP = Some w, TIMER = Some False, INT_PIN = Some False\<rparr>)
      | _ \<Rightarrow> Panic)"

definition boot ::
  "('h, 'x) hal \<Rightarrow> 'p output_pin \<Rightarrow> 'h \<Rightarrow> bool \<Rightarrow> 'p \<Rightarrow> u32 \<Rightarrow>
     (main_state \<times> ('h hal_spi, 'x hal_transaction, 'p) firmware) res" where
  "boot H P h level pin f = boot_on (hal_device H) P (hal_spi_new h level f) pin"

datatype board_event = MainRuns | TimerFires | LineFalls | DmaDone

text \<open>\<open>None\<close> is a call of \<^verbatim>\<open>main\<close> that never returns. The timer and the line set the flag their handler clears.\<close>

fun board_exec ::
  "('d, 't) spi_dma_device \<Rightarrow> 'p output_pin \<Rightarrow> board_event \<Rightarrow> main_state \<times> ('d, 't, 'p) firmware \<Rightarrow>
     (unit res \<times> main_state \<times> ('d, 't, 'p) firmware) option" where
  "board_exec D P MainRuns (m, f) =
     (case CHIP f of
        None \<Rightarrow> Some (Panic, (m, f))
      | Some w \<Rightarrow> map_option (\<lambda>(r, (m', w')). (r, (m', f\<lparr>CHIP := Some w'\<rparr>))) (main_call (m, w)))"
| "board_exec D P TimerFires (m, f) =
     Some (case TIM2 D P (f\<lparr>TIMER := map_option (\<lambda>_. True) (TIMER f)\<rparr>) of (r, f') \<Rightarrow> (r, (m, f')))"
| "board_exec D P LineFalls (m, f) =
     Some (case EXTI15_10 D P (f\<lparr>INT_PIN := map_option (\<lambda>_. True) (INT_PIN f)\<rparr>) of (r, f') \<Rightarrow> (r, (m, f')))"
| "board_exec D P DmaDone (m, f) = Some (case DMA1_CHANNEL2 D P f of (r, f') \<Rightarrow> (r, (m, f')))"

fun board_run ::
  "('d, 't) spi_dma_device \<Rightarrow> 'p output_pin \<Rightarrow> board_event list \<Rightarrow> main_state \<times> ('d, 't, 'p) firmware \<Rightarrow>
     (unit res \<times> main_state \<times> ('d, 't, 'p) firmware) option" where
  "board_run D P [] s = Some (Ok (), s)"
| "board_run D P (e # es) s =
     (case board_exec D P e s of
        None \<Rightarrow> None
      | Some (Ok _, s') \<Rightarrow> board_run D P es s'
      | Some (r, s') \<Rightarrow> Some (r, s'))"

subsection \<open>What the interrupts leave alone\<close>

text \<open>
  \<open>calm fs w\<close>: no cell that \<^verbatim>\<open>main\<close> locks is held, and the slots marked in \<open>fs\<close> are free.
\<close>

definition calm_slot :: "bool \<Rightarrow> socket \<Rightarrow> bool" where
  "calm_slot f s \<longleftrightarrow> \<not> busy (backend s) \<and> (f \<longrightarrow> is_free (cell (backend s)))"

definition calm :: "bool list \<Rightarrow> ('d, 't, 'p) w6100 \<Rightarrow> bool" where
  "calm fs w \<longleftrightarrow> \<not> busy (config w) \<and> list_all2 calm_slot fs (sockets w)"

lemma calm_update [simp]:
  "calm fs (w\<lparr>device := d\<rparr>) = calm fs w" "calm fs (w\<lparr>bulk := b\<rparr>) = calm fs w"
  "calm fs (w\<lparr>link_up := l\<rparr>) = calm fs w" "calm fs (w\<lparr>config_dirty := l\<rparr>) = calm fs w"
  by (simp_all add: calm_def)

lemma calm_put_bulk [simp]: "calm fs (put_bulk v w) = calm fs w"
  by (simp add: put_bulk_def split: prod.split sum.split)

lemma pres_frames: "frames snd m \<Longrightarrow> pres (\<lambda>s. I (snd s)) m"
  by (simp add: pres_def frames_def)

lemma pres_calm_device:
  assumes "pres (\<lambda>s. calm fs (snd s)) m"
  shows "pres (calm fs) (with_device m)"
proof (rule presI)
  fix w r w' assume w: "calm fs w" and run: "with_device m w = (r, w')"
  obtain r1 d1 w1 where m: "m (cell (device w), w\<lparr>device := (device w)\<lparr>busy := True\<rparr>\<rparr>) = (r1, (d1, w1))" by (metis prod_cases3)
  have "calm fs w1" using presD [OF assms _ m] w by simp
  with m run w show "calm fs w'"
    by (auto simp: with_device_def lock_mut_def try_lock_internal_def drop_guard_def split: if_splits)
qed

lemma reset_sockets_calm:
  "reset_sockets D ss t = (r, ss', t') \<Longrightarrow> list_all2 calm_slot fs ss \<Longrightarrow> list_all2 calm_slot fs ss'"
proof (induction D ss t arbitrary: fs r ss' t' rule: reset_sockets.induct)
  case (2 D s ss t)
  obtain f fs0 where fs: "fs = f # fs0" "calm_slot f s" "list_all2 calm_slot fs0 ss" using 2(3) by (cases fs) auto
  obtain r1 t1 b1 where b: "backend_reset D (t, cell (backend s)) = (r1, (t1, b1))" by (metis prod_cases3)
  have "f \<longrightarrow> is_free b1" using b fs(2)
    by (auto simp: backend_reset_def calm_slot_def is_free_def reset_state_def split: prod.splits res.splits)
  then have s1: "calm_slot f (s\<lparr>backend := drop_guard b1 c\<rparr>)" for c by (simp add: calm_slot_def drop_guard_def)
  have l: "lock_mut (backend s) = (Inr (cell (backend s)), (backend s)\<lparr>busy := True\<rparr>)"
    using fs(2) by (simp add: calm_slot_def lock_mut_def try_lock_internal_def)
  obtain r2 ss2 t2 where rec: "reset_sockets D ss t1 = (r2, ss2, t2)" by (metis prod_cases3)
  show ?case
  proof (cases r1)
    case (Ok u)
    have "list_all2 calm_slot fs0 ss2" by (rule "2.IH" [OF l [symmetric] refl b [symmetric] Ok refl rec fs(3)])
    then show ?thesis using 2(2) Ok b rec l s1 fs by auto
  qed (use 2(2) b l s1 fs in auto)
qed simp


lemma reset_body_calm: "pres (\<lambda>s. calm fs (snd s)) (reset_body D P)"
proof -
  have "pres (\<lambda>s. calm fs (snd s)) (modify (\<lambda>(d, w). (d, put_bulk None w)))"
    by (auto simp: pres_def modify_def)
  moreover have "pres (\<lambda>s. calm fs (snd s)) (\<lambda>(d, w). case reset_sockets D (sockets w) (transport d) of
       (r, ss, t) \<Rightarrow> (r, (d\<lparr>transport := t\<rparr>, w\<lparr>sockets := ss\<rparr>)))"
    by (rule presI) (auto simp: calm_def dest: reset_sockets_calm split: prod.splits)
  ultimately show ?thesis unfolding reset_body_def
    by (intro pres_bnd pres_basic pres_frames [OF frames_spi] pres_frames [OF frames_pin] pres_frames [OF frames_delay]
        pres_frames [OF frames_wait])
qed

lemma backend_run_calm:
  assumes "backend_run D c = (r, c')"
  shows "is_free (proto c) \<longrightarrow> is_free (proto c')"
  using backend_run_drive [OF assms] drive_kind by (fastforce simp: is_free_def free_if_released_def)

lemma run_loop_calm:
  "run_loop D i ss t = (r, ss', t') \<Longrightarrow> list_all2 calm_slot fs ss \<Longrightarrow> list_all2 calm_slot fs ss'"
proof (induction D i ss t arbitrary: fs r ss' t' rule: run_loop.induct)
  case (2 D i s ss t)
  obtain f fs0 where fs: "fs = f # fs0" "calm_slot f s" "list_all2 calm_slot fs0 ss" using 2(5) by (cases fs) auto
  have l: "lock_mut (backend s) = (Inr (cell (backend s)), (backend s)\<lparr>busy := True\<rparr>)"
    using fs(2) by (simp add: calm_slot_def lock_mut_def try_lock_internal_def)
  obtain r1 c1 where b: "backend_run D \<lparr>trans = t, rings = sock_rings s, proto = cell (backend s)\<rparr> = (r1, c1)"
    by (metis prod.exhaust)
  have s1: "calm_slot f (s\<lparr>backend := drop_guard (proto c1) c, sock_rings := q\<rparr>)" for c q
    using backend_run_calm [OF b] fs(2) by (simp add: calm_slot_def drop_guard_def)
  obtain r2 ss2 t2 where rec: "run_loop D (i + 1) ss (trans c1) = (r2, ss2, t2)" by (metis prod_cases3)
  have rest: "r1 = Ok ActNone \<or> r1 = Err WouldBlock \<Longrightarrow> list_all2 calm_slot fs0 ss2"
    using "2.IH"(2) [OF l [symmetric] refl b [symmetric] _ _ _ rec fs(3)] "2.IH"(3) [OF l [symmetric] refl b [symmetric] _ _ _ rec fs(3)] by auto
  show ?case
    using 2(4) l b rec rest s1 fs by (auto simp: Let_def split: res.splits bulk_action.splits error.splits)
qed simp


lemma reset_calm: "pres (calm fs) (w6100_reset D P)"
  unfolding w6100_reset_def by (rule pres_calm_device [OF reset_body_calm])

lemma run_calm: "pres (calm fs) (w6100_run D)"
proof -
  have "pres (\<lambda>s. calm fs (snd s)) (run_body D)"
    by (rule presI) (auto simp: run_body_def calm_def Let_def put_bulk_def dest: run_loop_calm split: prod.splits res.splits option.splits sum.splits)
  then show ?thesis unfolding w6100_run_def by (rule pres_calm_device)
qed

lemma service_calm: "pres (calm fs) (w6100_service D P)"
proof -
  have flags: "pres (calm fs) (modify (\<lambda>w. w\<lparr>link_up := l\<rparr>))" "pres (calm fs) (modify (\<lambda>w. w\<lparr>config_dirty := l\<rparr>))" for l
    by (auto simp: pres_def modify_def)
  have net: "pres (calm fs) (setup_network D a g m)" "pres (calm fs) (is_link_up D)" for a g m
    unfolding setup_network_def is_link_up_def
    by (intro pres_calm_device pres_bnd pres_basic pres_frames [OF frames_spi])+
  have cfg: "pres (calm fs) (case cfg of None \<Rightarrow> ret () | Some c \<Rightarrow> if dirty then
      bnd (setup_network D (cfg_ip c) (cfg_gateway c) (cfg_subnet c)) (\<lambda>_. modify (\<lambda>w. w\<lparr>config_dirty := False\<rparr>)) else ret ())" for cfg dirty
    by (cases cfg) (auto intro: pres_bnd pres_basic flags net)
  show ?thesis unfolding w6100_service_def
    by (intro pres_bnd pres_basic flags net run_calm reset_calm) (auto intro!: pres_bnd cfg run_calm split: prod.split)
qed

lemma ignore_calm: "pres I m \<Longrightarrow> pres I (ignore m)"
  by (auto simp: pres_def ignore_def split: prod.splits res.splits)

lemma dma_complete_calm: "pres (calm fs) (dma_complete D P)"
proof (rule presI)
  fix w r w' assume w: "calm fs w" and run: "dma_complete D P w = (r, w')"
  have fin: "pres (\<lambda>s. calm fs (snd s)) (finish_body D op)" for op
    by (rule presI)
      (auto simp: finish_body_def calm_def calm_slot_def list_all2_conv_all_nth nth_list_update split: prod.splits if_splits)
  have "pres (calm fs) (bnd (ignore (with_device (finish_body D op))) (\<lambda>_. bnd (modify (put_bulk None)) (\<lambda>_. ignore (w6100_service D P))))" for op
    by (intro pres_bnd ignore_calm pres_calm_device fin service_calm) (simp add: pres_def modify_def)
  then show "calm fs w'" using run w by (auto simp: dma_complete_def split: if_splits option.splits dest: presD)
qed

subsection \<open>The handles on any ring\<close>

text \<open>
  Without assuming that a ring is framed: \<^verbatim>\<open>recv_from\<close> takes bytes out of a sound ring or
  spins, and \<^verbatim>\<open>send_to\<close> returns.
\<close>

definition drains :: "spsc_ring \<Rightarrow> spsc_ring \<Rightarrow> bool" where
  "drains r r' \<longleftrightarrow> ring_inv r' \<and> free_space r \<le> free_space r'"

lemma ring_read_drains:
  assumes "ring_inv r" "ring_read n r = (x, r')"
  shows "(\<exists>ys. x = Ok ys \<and> length ys \<le> n) \<and> drains r r'"
proof -
  obtain q where "ring_read n r = (Ok (take n (contents r)), q)" "contents q = drop n (contents r)" "ring_inv q" "cap q = cap r"
    using ring.fifo_read [OF assms(1), of n] by blast
  with assms free_space_read [OF assms(1), of q n] show ?thesis by (auto simp: drains_def)
qed

lemma recv_copy_drains:
  assumes "recv_copy n xs r = Some (x, r')" "ring_inv r" "length xs \<le> n"
  shows "(\<exists>ys. x = Ok ys \<and> length ys = n) \<and> drains r r'"
proof -
  have "ring_inv r \<longrightarrow> length xs \<le> n \<longrightarrow> (\<exists>ys. fst (x, r') = Ok ys \<and> length ys = n) \<and> drains r (snd (x, r'))"
  proof (rule recv_copy.raw_induct [where P = "\<lambda>n xs r y. ring_inv r \<longrightarrow> length xs \<le> n \<longrightarrow>
      (\<exists>ys. fst y = Ok ys \<and> length ys = n) \<and> drains r (snd y)", OF _ assms(1)])
    fix f n xs r y
    assume 1: "\<And>n xs r y. f n xs r = Some y \<Longrightarrow> ring_inv r \<longrightarrow> length xs \<le> n \<longrightarrow> (\<exists>ys. fst y = Ok ys \<and> length ys = n) \<and> drains r (snd y)"
      "(if length xs < n then (case ring_read (n - length xs) r of (Ok ys, r') \<Rightarrow> f n (xs @ ys) r'
         | (Err e, r') \<Rightarrow> Some (Err e, r') | (Panic, r') \<Rightarrow> Some (Panic, r')) else Some (Ok xs, r)) = Some y"
    show "ring_inv r \<longrightarrow> length xs \<le> n \<longrightarrow> (\<exists>ys. fst y = Ok ys \<and> length ys = n) \<and> drains r (snd y)"
    proof (intro impI)
      assume r: "ring_inv r" "length xs \<le> n"
      show "(\<exists>ys. fst y = Ok ys \<and> length ys = n) \<and> drains r (snd y)"
      proof (cases "length xs < n")
        case True
        obtain z r1 where rd: "ring_read (n - length xs) r = (z, r1)" by (cases "ring_read (n - length xs) r")
        then obtain ys where ys: "z = Ok ys" "length ys \<le> n - length xs" "drains r r1" using ring_read_drains [OF r(1)] by blast
        have "f n (xs @ ys) r1 = Some y" using 1(2) True rd ys(1) by simp
        from 1(1) [OF this] ys True show ?thesis by (auto simp: drains_def)
      qed (use 1(2) r in \<open>auto simp: drains_def\<close>)
    qed
  qed
  with assms(2,3) show ?thesis by simp
qed

lemma recv_discard_drains:
  assumes "recv_discard n r = Some (x, r')" "ring_inv r"
  shows "x = Ok () \<and> drains r r'"
proof -
  have "ring_inv r \<longrightarrow> fst (x, r') = Ok () \<and> drains r (snd (x, r'))"
  proof (rule recv_discard.raw_induct [where P = "\<lambda>n r y. ring_inv r \<longrightarrow> fst y = Ok () \<and> drains r (snd y)", OF _ assms(1)])
    fix f n r y
    assume 1: "\<And>n r y. f n r = Some y \<Longrightarrow> ring_inv r \<longrightarrow> fst y = Ok () \<and> drains r (snd y)"
      "(if 0 < n then (case ring_read (min n 64) r of (Ok ys, r') \<Rightarrow> f (n - length ys) r'
         | (Err e, r') \<Rightarrow> Some (Err e, r') | (Panic, r') \<Rightarrow> Some (Panic, r')) else Some (Ok (), r)) = Some y"
    show "ring_inv r \<longrightarrow> fst y = Ok () \<and> drains r (snd y)"
    proof
      assume r: "ring_inv r"
      obtain z r1 where rd: "ring_read (min n 64) r = (z, r1)" by (cases "ring_read (min n 64) r")
      then obtain ys where "z = Ok ys" "drains r r1" using ring_read_drains [OF r] by blast
      with 1 rd r show "fst y = Ok () \<and> drains r (snd y)" by (fastforce simp: drains_def split: if_splits)
    qed
  qed
  with assms(2) show ?thesis by simp
qed

lemma udp_recv_drains:
  assumes "udp_recv_from n r = Some (x, r')" "ring_inv r"
  shows "(\<exists>got. x = Ok got \<and> (\<forall>xs peer. got = Some (xs, peer) \<longrightarrow> length xs \<le> n)) \<and> drains r r'"
proof (cases "ring_frames r = 0")
  case True
  then show ?thesis using assms by (auto simp: udp_recv_from_def drains_def)
next
  case False
  obtain z r1 where rd: "ring_read FRAME_HEADER r = (z, r1)" by (cases "ring_read FRAME_HEADER r")
  then obtain ys where ys: "z = Ok ys" "drains r r1" using ring_read_drains [OF assms(2)] by blast
  obtain p peer where h: "parse_frame_header (copy_at 0 ys (replicate FRAME_HEADER 0)) = (p, peer)" by (metis prod.exhaust)
  obtain c r2 where c: "recv_copy (min p n) [] r1 = Some (c, r2)"
    using assms(1) False rd ys h by (auto simp: udp_recv_from_def read_head_def bnd_def ret_def Let_def split: option.splits)
  have c': "(\<exists>out. c = Ok out \<and> length out = min p n)" "drains r1 r2"
    using recv_copy_drains [OF c] ys(2) by (auto simp: drains_def)
  obtain u r3 where u: "recv_discard (p - min p n) r2 = Some (u, r3)"
    using assms(1) False rd ys h c c' by (auto simp: udp_recv_from_def read_head_def bnd_def ret_def Let_def split: option.splits)
  have "u = Ok ()" "drains r2 r3" using recv_discard_drains [OF u] c' by (auto simp: drains_def)
  then show ?thesis using assms(1) False rd ys h c c' u
    by (auto simp: udp_recv_from_def read_head_def bnd_def ret_def Let_def drains_def frame_counter_contents)
qed

lemma udp_send_returns:
  assumes "ring_inv r"
  shows "wp (udp_send_to src peer) (\<lambda>x r'. (\<exists>n. x = Ok n) \<and> ring_inv r') r"
proof -
  have w: "wp (ring_write xs) (\<lambda>x r'. (\<exists>n. x = Ok n) \<and> ring_inv r') q" if "ring_inv q" for xs q
    by (rule ring.write_wp [OF that]) auto
  have f: "ring_free r = (Ok (free_space r), r)" using ring_free_spec ring_inv_ok assms by blast
  obtain n1 r1 where w1: "ring_write (frame_header (of_nat (length src)) peer) r = (Ok n1, r1)" "ring_inv r1"
    using wpD [OF w [OF assms]] by (metis prod.exhaust)
  obtain n2 r2 where w2: "ring_write src r1 = (Ok n2, r2)" "ring_inv r2"
    using wpD [OF w [OF w1(2)]] by (metis prod.exhaust)
  show ?thesis using assms f w1 w2
    by (simp add: udp_send_to_def wp_def bnd_def ret_def modify_def Let_def frame_counter_contents)
qed

subsection \<open>The invariant of the board\<close>

text \<open>The slots that no handle of \<^verbatim>\<open>main\<close> refers to.\<close>

definition spare :: "main_state \<Rightarrow> bool list" where
  "spare m = map (\<lambda>k. tcp_sock m \<noteq> Some k \<and> udp_sock m \<noteq> Some k) [0..<8]"

definition app_fits :: "echo_app \<Rightarrow> bool" where
  "app_fits a \<longleftrightarrow> carry_ok a \<and> (\<forall>n peer. udp_pending a = Some (n, peer) \<longrightarrow> n \<le> length (udp_buf a))"

text \<open>The handles and the lengths \<^verbatim>\<open>main\<close> counts on where it is.\<close>

definition pc_ok :: "main_state \<Rightarrow> bool" where
  "pc_ok m \<longleftrightarrow> (pc m \<notin> {AwaitLink, SetConfig, ArmTcp} \<longrightarrow> tcp_sock m \<noteq> None) \<and>
     (pc m \<notin> {AwaitLink, SetConfig, ArmTcp, ArmUdp} \<longrightarrow> udp_sock m \<noteq> None) \<and>
     (pc m = TcpPush \<longrightarrow> carry (app m) \<noteq> []) \<and>
     (\<forall>n peer. pc m = UdpSend n peer \<longrightarrow> n \<le> length (udp_buf (app m)))"

definition main_ok :: "main_state \<Rightarrow> bool" where
  "main_ok m \<longleftrightarrow> app_fits (app m) \<and> pc_ok m \<and>
     (\<forall>i. tcp_sock m = Some i \<longrightarrow> i < 8) \<and> (\<forall>j. udp_sock m = Some j \<longrightarrow> j < 8)"

definition chip_ok :: "('d, 't) spi_dma_device \<Rightarrow> nat \<Rightarrow> bool list \<Rightarrow> ('d, 't, 'p) w6100 \<Rightarrow> bool" where
  "chip_ok D L fs w \<longleftrightarrow> w_inv D L w \<and> calm fs w"

subsection \<open>Calls on a slot\<close>

definition slot_call :: "(socket, 'a) sm \<Rightarrow> bool" where
  "slot_call m \<longleftrightarrow> (\<forall>s. rings_inv (sock_rings s) \<longrightarrow> \<not> busy (backend s) \<longrightarrow>
     wp m (\<lambda>r s'. sock_step s s' \<and> \<not> busy (backend s') \<and> (\<exists>x. r = Ok x)) s)"

lemma calm_slot_update:
  assumes "calm fs w" "j < length (sockets w)" "\<not> busy (backend s)"
    "is_free (cell (backend (sockets w ! j))) \<Longrightarrow> is_free (cell (backend s))"
  shows "calm fs (w\<lparr>sockets := (sockets w)[j := s]\<rparr>)"
  using assms by (auto simp: calm_def calm_slot_def list_all2_conv_all_nth nth_list_update)

lemma slot_call_returns:
  assumes "slot_call m" "chip_ok D L fs w" "i < 8"
  shows "\<exists>x w'. on_socket i m w = (Ok x, w') \<and> chip_ok D L fs w'"
proof -
  let ?s = "sockets w ! i"
  have w: "length (sockets w) = 8" "rings_inv (sock_rings ?s)"
    using assms(2,3) by (auto simp: chip_ok_def w_inv_def rest_ok_def socks_ok_nth sock_ok_def)
  have fs: "length fs = 8" "calm_slot (fs ! i) ?s"
    using assms(2,3) w(1) by (auto simp: chip_ok_def calm_def list_all2_conv_all_nth)
  obtain x s' where m: "m ?s = (Ok x, s')" "sock_step ?s s'" "\<not> busy (backend s')"
    using assms(1) w(2) fs(2) by (cases "m ?s") (fastforce simp: slot_call_def calm_slot_def wp_def)
  have "calm fs (w\<lparr>sockets := (sockets w)[i := s']\<rparr>)"
    by (rule calm_slot_update) (use assms(2,3) w(1) m(2,3) in \<open>auto simp: chip_ok_def is_free_def sock_step_def\<close>)
  moreover have "w_inv D L (w\<lparr>sockets := (sockets w)[i := s']\<rparr>)"
    using w_inv_update [OF _ assms(3) m(2)] assms(2) by (simp add: chip_ok_def)
  ultimately show ?thesis using m(1) w(1) assms(3) by (simp add: on_socket_def chip_ok_def)
qed

lemma slot_calls:
  "slot_call (tcp_read n)" "slot_call (tcp_write xs)" "slot_call tcp_handle_status"
  "slot_call tcp_reconnect" "slot_call udp_reconnect"
proof -
  have rd: "\<exists>r'. ring_read n r = (Ok (take n (contents r)), r') \<and> drains r r'" if "ring_inv r" for r
    using ring_read_drains [OF that] ring.fifo_read [OF that, of n] by (metis prod.exhaust)
  show "slot_call (tcp_read n)"
    unfolding slot_call_def tcp_read_def wp_zoom
    by (auto simp: wp_def sock_step_def rings_inv_def drains_def dest!: rd)
  show "slot_call (tcp_write xs)"
    unfolding slot_call_def tcp_write_def wp_zoom
    by (intro allI impI ring.write_wp) (auto simp: sock_step_def rings_inv_def)
  show "slot_call tcp_handle_status"
    by (auto simp: slot_call_def tcp_handle_status_def on_backend_def wp_rules sock_step_def)
  show "slot_call tcp_reconnect" "slot_call udp_reconnect"
    by (auto simp: slot_call_def tcp_reconnect_def udp_reconnect_def wp_def sock_step_def rings_inv_def rings_clear_def
        free_space_clear ring_inv_clear split: backend_state.splits)
qed

lemma send_call:
  "slot_call (zoom (\<lambda>s. tx (sock_rings s)) (\<lambda>r s. s\<lparr>sock_rings := (sock_rings s)\<lparr>tx := r\<rparr>\<rparr>) (udp_send_to src peer))"
  unfolding slot_call_def wp_zoom
proof (intro allI impI)
  fix s :: socket assume s: "rings_inv (sock_rings s)" "\<not> busy (backend s)"
  then have "ring_inv (tx (sock_rings s))" by (simp add: rings_inv_def)
  from udp_send_returns [OF this, of src peer] s
  show "wp (udp_send_to src peer) (\<lambda>r t. sock_step s (s\<lparr>sock_rings := (sock_rings s)\<lparr>tx := t\<rparr>\<rparr>) \<and>
      \<not> busy (backend (s\<lparr>sock_rings := (sock_rings s)\<lparr>tx := t\<rparr>\<rparr>)) \<and> (\<exists>x. r = Ok x)) (tx (sock_rings s))"
    by (auto simp: wp_def sock_step_def rings_inv_def split: prod.splits)
qed


lemma udp_handle_send_returns:
  "chip_ok D L fs w \<Longrightarrow> j < 8 \<Longrightarrow> \<exists>n w'. udp_handle_send j src peer w = (Ok n, w') \<and> chip_ok D L fs w'"
  unfolding udp_handle_send_def by (rule slot_call_returns [OF send_call])

lemma udp_handle_recv_returns:
  assumes "chip_ok D L fs w" "j < 8" "udp_handle_recv j k w = Some (r, w')"
  shows "(\<exists>got. r = Ok got \<and> (\<forall>xs peer. got = Some (xs, peer) \<longrightarrow> length xs \<le> k)) \<and> chip_ok D L fs w'"
proof -
  let ?s = "sockets w ! j"
  have w: "w_inv D L w" "rings_inv (sock_rings ?s)" "j < length (sockets w)" using slot_inv [of D L w j] assms(1,2)
    by (auto simp: chip_ok_def slot_rings_def)
  then obtain q where q: "udp_recv_from k (rx (sock_rings ?s)) = Some (r, q)"
    "w' = w\<lparr>sockets := (sockets w)[j := ?s\<lparr>sock_rings := (sock_rings ?s)\<lparr>rx := q\<rparr>\<rparr>]\<rparr>"
    using assms(3) by (auto simp: udp_handle_recv_def Let_def split: option.splits)
  have d: "(\<exists>got. r = Ok got \<and> (\<forall>xs peer. got = Some (xs, peer) \<longrightarrow> length xs \<le> k))" "drains (rx (sock_rings ?s)) q"
    using udp_recv_drains [OF q(1)] w(2) by (auto simp: rings_inv_def)
  have "sock_step ?s (?s\<lparr>sock_rings := (sock_rings ?s)\<lparr>rx := q\<rparr>\<rparr>)"
    using d(2) w(2) by (simp add: sock_step_def drains_def rings_inv_def)
  from w_inv_update [OF w(1) assms(2) this] have "w_inv D L w'" unfolding q(2) .
  moreover have "calm fs w'" unfolding q(2)
    by (rule calm_slot_update) (use assms(1) w(3) in \<open>auto simp: chip_ok_def calm_def calm_slot_def list_all2_conv_all_nth\<close>)
  ultimately show ?thesis using d(1) by (simp add: chip_ok_def)
qed

text \<open>Opening takes a slot that is free; there is one as long as a handle is missing.\<close>

lemma open_loop_takes:
  assumes "list_all2 calm_slot fs ss" "True \<in> set fs" "\<And>b. is_free b \<Longrightarrow> fst (claim b)"
  shows "\<exists>k ss'. k < length ss \<and> open_loop claim rxb txb i ss = (Ok (i + k), ss') \<and> list_all2 calm_slot (fs[k := False]) ss'"
  using assms
proof (induction ss arbitrary: fs i rule: list.induct)
  case (Cons s ss)
  obtain f fs0 where fs: "fs = f # fs0" "calm_slot f s" "list_all2 calm_slot fs0 ss" using Cons.prems(1) by (cases fs) auto
  have l: "lock_mut (backend s) = (Inr (cell (backend s)), (backend s)\<lparr>busy := True\<rparr>)"
    using fs(2) by (simp add: calm_slot_def lock_mut_def try_lock_internal_def)
  show ?case
  proof (cases "is_free (cell (backend s))")
    case True
    moreover have "\<not> busy (backend s)" using fs(2) by (simp add: calm_slot_def)
    ultimately show ?thesis using fs(1,3) l Cons.prems(3) by (intro exI [of _ 0]) (simp add: calm_slot_def [of False] drop_guard_def)
  next
    case False
    then have "True \<in> set fs0" using Cons.prems(2) fs(1,2) by (auto simp: calm_slot_def)
    from Cons.IH [OF fs(3) this Cons.prems(3), of "i + 1"] obtain k ss' where
      "k < length ss" "open_loop claim rxb txb (i + 1) ss = (Ok (i + 1 + k), ss')" "list_all2 calm_slot (fs0[k := False]) ss'"
      by blast
    moreover have "\<not> busy (backend s)" "\<not> f" using fs(2) False by (auto simp: calm_slot_def)
    ultimately show ?thesis using fs(1) l False by (intro exI [of _ "Suc k"]) (simp add: calm_slot_def [of False] drop_guard_def)
  qed
qed simp

lemma open_returns:
  assumes "chip_ok D L fs w" "True \<in> set fs" "buffer_ok rxb" "buffer_ok txb"
    "\<And>b. bk_block (snd (claim b)) = bk_block b" "\<And>b. is_free b \<Longrightarrow> fst (claim b)"
  shows "\<exists>k w'. k < 8 \<and> on_sockets (open_loop claim rxb txb 0) w = (Ok k, w') \<and> chip_ok D L (fs[k := False]) w'"
proof -
  have "w_inv D L w" "calm fs w" "length (sockets w) = 8" using assms(1) by (auto simp: chip_ok_def w_inv_def rest_ok_def)
  then obtain k ss where k: "k < 8" "open_loop claim rxb txb 0 (sockets w) = (Ok k, ss)" "list_all2 calm_slot (fs[k := False]) ss"
    using open_loop_takes [of fs "sockets w" claim rxb txb 0] assms(2,6) by (auto simp: calm_def)
  have o: "on_sockets (open_loop claim rxb txb 0) w = (Ok k, w\<lparr>sockets := ss\<rparr>)"
    by (simp add: on_sockets_def zoom_def k(2))
  have "quietly (on_sockets (open_loop claim rxb txb 0)) w = (Ok (), w\<lparr>sockets := ss\<rparr>)"
    using o by (simp add: quietly_def bnd_def ret_def)
  from wpD [OF open_keeps [OF _ assms(3-5)] this] \<open>w_inv D L w\<close> have "w_inv D L (w\<lparr>sockets := ss\<rparr>)" by blast
  with k o \<open>calm fs w\<close> show ?thesis by (auto simp: chip_ok_def calm_def)
qed

lemma set_config_returns:
  assumes "chip_ok D L fs w"
  shows "\<exists>w'. set_network_config cfg w = (Ok (), w') \<and> chip_ok D L fs w'"
proof -
  obtain r w' where run: "set_network_config cfg w = (r, w')" by (cases "set_network_config cfg w")
  have "w_inv D L w'" using wpD [OF set_config_keeps run] assms by (auto simp: chip_ok_def)
  moreover have "r = Ok () \<and> calm fs w'"
    using run assms by (auto simp: set_network_config_def bnd_def zoom_def locked_def lock_mut_def try_lock_internal_def modify_def
        drop_guard_def chip_ok_def calm_def)
  ultimately show ?thesis using run by (simp add: chip_ok_def)
qed

subsection \<open>Main keeps the invariant\<close>

definition ends_ok :: "('d, 't) spi_dma_device \<Rightarrow> nat \<Rightarrow> (main_state \<times> ('d, 't, 'p) w6100, unit) sm \<Rightarrow> main_state \<times> ('d, 't, 'p) w6100 \<Rightarrow> bool" where
  "ends_ok D L f s \<longleftrightarrow> (\<exists>m w. f s = (Ok (), (m, w)) \<and> main_ok m \<and> chip_ok D L (spare m) w)"

lemma spare_simps [simp]:
  "spare (m\<lparr>pc := p\<rparr>) = spare m" "spare (m\<lparr>app := a\<rparr>) = spare m" "length (spare m) = 8"
  by (simp_all add: spare_def)

lemma spare_open: "k < 8 \<Longrightarrow> tcp_sock m = None \<Longrightarrow> spare (m\<lparr>tcp_sock := Some k\<rparr>) = (spare m)[k := False]"
  "k < 8 \<Longrightarrow> udp_sock m = None \<Longrightarrow> spare (m\<lparr>udp_sock := Some k\<rparr>) = (spare m)[k := False]"
  by (auto simp: spare_def list_eq_iff_nth_eq nth_list_update)

lemma spare_left:
  assumes "tcp_sock m = None \<or> udp_sock m = None"
  shows "True \<in> set (spare m)"
proof -
  have "tcp_sock m \<noteq> Some 0 \<and> udp_sock m \<noteq> Some 0 \<or> tcp_sock m \<noteq> Some 1 \<and> udp_sock m \<noteq> Some 1" using assms by auto
  then have "\<exists>k \<in> {0..<8}. tcp_sock m \<noteq> Some k \<and> udp_sock m \<noteq> Some k"
    by (elim disjE) (rule bexI [of _ 0], simp, simp, rule bexI [of _ 1], simp, simp)
  then show ?thesis unfolding spare_def by force
qed

lemma buffer_512: "buffer_ok (replicate 512 0)"
proof -
  have "(512 :: nat) dvd 2 ^ 32" by (rule dvdI [of _ _ "2 ^ 23"]) simp
  then show ?thesis by (simp add: buffer_ok_def)
qed

lemma fresh_fits: "app_fits (fresh_app l)"
  by (simp add: app_fits_def fresh_app_def carry_ok_def)

lemma open_tcp_returns:
  assumes "chip_ok D L (spare m) w" "tcp_sock m = None"
  shows "\<exists>k w'. k < 8 \<and> open_tcp_listen p (replicate 512 0) (replicate 512 0) w = (Ok k, w') \<and> chip_ok D L (spare (m\<lparr>tcp_sock := Some k\<rparr>)) w'"
  using open_returns [OF assms(1) spare_left buffer_512 buffer_512, of "claim_tcp (tcp_listen p)"] assms(2)
  by (auto simp: open_tcp_listen_def claim_block claim_tcp_def is_free_def spare_open)

lemma open_udp_returns:
  assumes "chip_ok D L (spare m) w" "udp_sock m = None"
  shows "\<exists>k w'. k < 8 \<and> open_udp p (replicate 512 0) (replicate 512 0) w = (Ok k, w') \<and> chip_ok D L (spare (m\<lparr>udp_sock := Some k\<rparr>)) w'"
  using open_returns [OF assms(1) spare_left buffer_512 buffer_512, of "claim_udp (udp_bind p)"] assms(2)
  by (auto simp: open_udp_def claim_block claim_udp_def is_free_def spare_open)

lemmas part_defs = bnd_def gets_def modify_def goto_def set_led_def expect_def attempt_def unwrap_def on_app_def zoom_def ret_def panic_def

lemma arm_tcp_ends:
  assumes "main_ok m" "chip_ok D L (spare m) w"
  shows "\<exists>i w'. i < 8 \<and> arm_tcp (m, w) = (Ok (), (m\<lparr>tcp_sock := Some i\<rparr>, w')) \<and> chip_ok D L (spare (m\<lparr>tcp_sock := Some i\<rparr>)) w'"
proof (cases "tcp_sock m")
  case None
  from open_tcp_returns [OF assms(2) None, of 5555] None show ?thesis by (auto simp: arm_tcp_def part_defs)
next
  case (Some i)
  then have "i < 8" "spare (m\<lparr>tcp_sock := Some i\<rparr>) = spare m" using assms(1) by (auto simp: main_ok_def spare_def)
  with slot_call_returns [OF slot_calls(4) assms(2) this(1)] Some show ?thesis
    by (intro exI [of _ i]) (auto simp: arm_tcp_def part_defs)
qed

lemma arm_udp_ends:
  assumes "main_ok m" "chip_ok D L (spare m) w"
  shows "\<exists>i w'. i < 8 \<and> arm_udp (m, w) = (Ok (), (m\<lparr>udp_sock := Some i\<rparr>, w')) \<and> chip_ok D L (spare (m\<lparr>udp_sock := Some i\<rparr>)) w'"
proof (cases "udp_sock m")
  case None
  from open_udp_returns [OF assms(2) None, of 5556] None show ?thesis by (auto simp: arm_udp_def part_defs)
next
  case (Some i)
  then have "i < 8" "spare (m\<lparr>udp_sock := Some i\<rparr>) = spare m" using assms(1) by (auto simp: main_ok_def spare_def)
  with slot_call_returns [OF slot_calls(5) assms(2) this(1)] Some show ?thesis
    by (intro exI [of _ i]) (auto simp: arm_udp_def part_defs)
qed

text \<open>The TCP echo: what the calls do to the carry-over is known from the loop; what they do to the chip, from the calls.\<close>

lemma refill_chip:
  assumes "chip_ok D L fs w" "i < 8" "app_fits a"
  shows "\<exists>a' w'. echo_refill (\<lambda>n. on_socket i (tcp_read n)) (a, w) = (Ok (carry a' \<noteq> []), (a', w')) \<and> app_fits a' \<and> chip_ok D L fs w'"
proof -
  have "w_inv D L w \<and> i < 8" "carry_ok a" using assms by (simp_all add: chip_ok_def app_fits_def)
  from tcp_handle.refill_ends [OF this] obtain a' w' where
    e: "echo_refill (\<lambda>n. on_socket i (tcp_read n)) (a, w) = (Ok (carry a' \<noteq> []), (a', w'))" "carry_ok a'" by blast
  moreover obtain x w1 where "on_socket i (tcp_read (length (app_buf a))) w = (Ok x, w1)" "chip_ok D L fs w1"
    using slot_call_returns [OF slot_calls(1) assms(1,2)] by blast
  ultimately have "chip_ok D L fs w' \<and> udp_pending a' = udp_pending a \<and> udp_buf a' = udp_buf a"
    using assms(1) by (auto simp: echo_refill_def unwrap_or_def split: if_splits)
  with e assms(3) show ?thesis by (auto simp: app_fits_def)
qed

lemma push_chip:
  assumes "chip_ok D L fs w" "i < 8" "app_fits a" "carry a \<noteq> []"
  shows "\<exists>go a' w'. echo_push (\<lambda>xs. on_socket i (tcp_write xs)) (a, w) = (Ok go, (a', w')) \<and> app_fits a' \<and> chip_ok D L fs w'"
proof -
  have "w_inv D L w \<and> i < 8" "carry_ok a" using assms by (simp_all add: chip_ok_def app_fits_def)
  from tcp_handle.push_ends [OF this assms(4)] obtain go a' w' where
    e: "echo_push (\<lambda>xs. on_socket i (tcp_write xs)) (a, w) = (Ok go, (a', w'))" "carry_ok a'" by blast
  moreover obtain x w1 where "on_socket i (tcp_write (take (app_len a - app_off a) (drop (app_off a) (app_buf a)))) w = (Ok x, w1)" "chip_ok D L fs w1"
    using slot_call_returns [OF slot_calls(2) assms(1,2)] by blast
  ultimately have "chip_ok D L fs w' \<and> udp_pending a' = udp_pending a \<and> udp_buf a' = udp_buf a"
    using assms(1) by (auto simp: echo_push_def unwrap_or_def split: if_splits)
  with e assms(3) show ?thesis by (auto simp: app_fits_def)
qed

lemma flush_chip:
  assumes "chip_ok D L fs w" "j < 8" "app_fits a"
  shows "\<exists>go a' w'. udp_flush (udp_handle_send j) (a, w) = (Ok go, (a', w')) \<and> app_fits a' \<and> chip_ok D L fs w'"
proof (cases "udp_pending a")
  case None
  then show ?thesis using assms by (auto simp: udp_flush_def)
next
  case (Some np)
  then obtain n peer where np: "udp_pending a = Some (n, peer)" by (cases np) auto
  obtain k w' where "udp_handle_send j (take n (udp_buf a)) peer w = (Ok k, w')" "chip_ok D L fs w'"
    using udp_handle_send_returns [OF assms(1,2)] by blast
  moreover have "carry_ok (a\<lparr>udp_pending := None\<rparr>) = carry_ok a" by (simp add: carry_ok_def)
  ultimately show ?thesis using np assms(3)
    by (cases "k = 0") (auto simp: udp_flush_def unwrap_or_def app_fits_def)
qed

lemma carry_ok_led [simp]: "carry_ok (a\<lparr>led_on := b\<rparr>) = carry_ok a" "carry_ok (a\<lparr>udp_buf := v\<rparr>) = carry_ok a"
  "carry_ok (a\<lparr>udp_pending := p\<rparr>) = carry_ok a"
  by (simp_all add: carry_ok_def)

lemma udp_take_ends:
  assumes "main_ok m" "chip_ok D L (spare m) w" "udp_sock m = Some j" "tcp_sock m \<noteq> None" "udp_take (m, w) = Some (r, (m', w'))"
  shows "r = Ok () \<and> main_ok m' \<and> chip_ok D L (spare m') w'"
proof -
  have j: "j < 8" using assms(1,3) by (simp add: main_ok_def)
  obtain r1 w1 where rv: "udp_handle_recv j (length (udp_buf (app m))) w = Some (r1, w1)"
    using assms(3,5) by (auto simp: udp_take_def split: option.splits)
  from udp_handle_recv_returns [OF assms(2) j rv] obtain got where
    got: "r1 = Ok got" "\<forall>xs peer. got = Some (xs, peer) \<longrightarrow> length xs \<le> length (udp_buf (app m))" "chip_ok D L (spare m) w1" by blast
  show ?thesis
  proof (cases got)
    case None
    then show ?thesis using assms rv got by (auto simp: udp_take_def main_ok_def pc_ok_def)
  next
    case (Some g)
    then obtain xs peer where g: "got = Some (xs, peer)" by (cases g) auto
    then have "length (copy_at 0 xs (udp_buf (app m))) = length (udp_buf (app m))" using got(2) by simp
    then show ?thesis using assms rv got g by (auto simp: udp_take_def main_ok_def pc_ok_def app_fits_def)
  qed
qed

lemma udp_give_ends:
  assumes "main_ok m" "chip_ok D L (spare m) w" "pc m = UdpSend n peer"
  shows "ends_ok D L (udp_give n peer) (m, w)"
proof -
  obtain j where j: "udp_sock m = Some j" "j < 8" "tcp_sock m \<noteq> None" "n \<le> length (udp_buf (app m))"
    using assms(1,3) by (auto simp: main_ok_def pc_ok_def)
  obtain k w' where "udp_handle_send j (take n (udp_buf (app m))) peer w = (Ok k, w')" "chip_ok D L (spare m) w'"
    using udp_handle_send_returns [OF assms(2) j(2)] by blast
  then show ?thesis using j assms(1)
    by (auto simp: ends_ok_def udp_give_def part_defs unwrap_or_def main_ok_def pc_ok_def app_fits_def)
qed

lemma on_status_ends:
  assumes "main_ok m" "chip_ok D L (spare m) w" "tcp_sock m \<noteq> None" "udp_sock m \<noteq> None"
  shows "ends_ok D L (on_status st) (m, w)"
proof -
  have "carry_ok (a\<lparr>app_len := 0, app_off := 0\<rparr>)" if "carry_ok a" for a :: echo_app using that by (simp add: carry_ok_def)
  then show ?thesis using assms
    by (auto simp: ends_ok_def on_status_def part_defs main_ok_def pc_ok_def app_fits_def)
qed


text \<open>One call of \<^verbatim>\<open>main\<close> returns without a panic, or is a \<^verbatim>\<open>recv_from\<close> that spins.\<close>

lemma main_call_ends:
  assumes "main_ok m" "chip_ok D L (spare m) w" "main_call (m, w) = Some (r, (m', w'))"
  shows "r = Ok () \<and> main_ok m' \<and> chip_ok D L (spare m') w'"
proof -
  note m = assms(1) [unfolded main_ok_def pc_ok_def]
  have ends: "r = Ok () \<and> main_ok m' \<and> chip_ok D L (spare m') w'" if "ends_ok D L f (m, w)" "main_call (m, w) = Some (f (m, w))" for f
    using that assms(3) by (auto simp: ends_ok_def)
  have fits: "app_fits ((app m)\<lparr>led_on := b\<rparr>)" for b using m by (simp add: app_fits_def)
  show ?thesis
  proof (cases "pc m")
    case AwaitLink
    then show ?thesis using assms by (auto simp: main_call_def part_defs main_ok_def pc_ok_def split: if_splits)
  next
    case SetConfig
    obtain w1 where "set_network_config echo_config w = (Ok (), w1)" "chip_ok D L (spare m) w1"
      using set_config_returns [OF assms(2)] by blast
    then show ?thesis using SetConfig assms by (auto simp: main_call_def part_defs main_ok_def pc_ok_def)
  next
    case ArmTcp
    obtain i w1 where "i < 8" "arm_tcp (m, w) = (Ok (), (m\<lparr>tcp_sock := Some i\<rparr>, w1))" "chip_ok D L (spare (m\<lparr>tcp_sock := Some i\<rparr>)) w1"
      using arm_tcp_ends [OF assms(1,2)] by blast
    then show ?thesis using ArmTcp assms(1,3) by (auto simp: main_call_def part_defs main_ok_def pc_ok_def)
  next
    case ArmUdp
    obtain i w1 where "i < 8" "arm_udp (m, w) = (Ok (), (m\<lparr>udp_sock := Some i\<rparr>, w1))" "chip_ok D L (spare (m\<lparr>udp_sock := Some i\<rparr>)) w1"
      using arm_udp_ends [OF assms(1,2)] by blast
    then show ?thesis using ArmUdp assms(1,3) fresh_fits by (auto simp: main_call_def part_defs main_ok_def pc_ok_def)
  next
    case CheckLink
    then show ?thesis using assms fits by (auto simp: main_call_def part_defs main_ok_def pc_ok_def split: if_splits)
  next
    case TcpStatus
    then obtain i where i: "tcp_sock m = Some i" "i < 8" "udp_sock m \<noteq> None" using m by auto
    obtain st w1 where "on_socket i tcp_handle_status w = (Ok st, w1)" "chip_ok D L (spare m) w1"
      using slot_call_returns [OF slot_calls(3) assms(2) i(2)] by blast
    then show ?thesis using on_status_ends [OF assms(1), of D L w1 "Some st"] TcpStatus i assms(3)
      by (auto simp: main_call_def bnd_def unwrap_def attempt_def ends_ok_def)
  next
    case TcpRefill
    then obtain i where i: "tcp_sock m = Some i" "i < 8" "udp_sock m \<noteq> None" using m by auto
    obtain a w1 where "echo_refill (\<lambda>n. on_socket i (tcp_read n)) (app m, w) = (Ok (carry a \<noteq> []), (a, w1))"
      "app_fits a" "chip_ok D L (spare m) w1" using refill_chip [OF assms(2) i(2)] m by blast
    then show ?thesis using TcpRefill i assms(1,3)
      by (cases "carry a = []") (auto simp: main_call_def part_defs main_ok_def pc_ok_def)
  next
    case TcpPush
    then obtain i where i: "tcp_sock m = Some i" "i < 8" "udp_sock m \<noteq> None" "carry (app m) \<noteq> []" using m by auto
    obtain go a w1 where "echo_push (\<lambda>xs. on_socket i (tcp_write xs)) (app m, w) = (Ok go, (a, w1))"
      "app_fits a" "chip_ok D L (spare m) w1" using push_chip [OF assms(2) i(2) _ i(4)] m by blast
    then show ?thesis using TcpPush i assms(1,3)
      by (cases go) (auto simp: main_call_def part_defs main_ok_def pc_ok_def)
  next
    case TcpRearm
    then obtain i where i: "tcp_sock m = Some i" "i < 8" "udp_sock m \<noteq> None" using m by auto
    obtain x w1 where "on_socket i tcp_reconnect w = (Ok x, w1)" "chip_ok D L (spare m) w1"
      using slot_call_returns [OF slot_calls(4) assms(2) i(2)] by blast
    then show ?thesis using TcpRearm i assms(1,3) by (auto simp: main_call_def part_defs main_ok_def pc_ok_def)
  next
    case UdpFlush
    then obtain j where j: "udp_sock m = Some j" "j < 8" "tcp_sock m \<noteq> None" using m by auto
    obtain go a w1 where "udp_flush (udp_handle_send j) (app m, w) = (Ok go, (a, w1))" "app_fits a" "chip_ok D L (spare m) w1"
      using flush_chip [OF assms(2) j(2)] m by blast
    then show ?thesis using UdpFlush j assms(1,3)
      by (cases go) (auto simp: main_call_def part_defs main_ok_def pc_ok_def)
  next
    case UdpRecv
    then obtain j where "udp_sock m = Some j" "tcp_sock m \<noteq> None" using m by auto
    with udp_take_ends [OF assms(1,2)] UdpRecv assms(3) show ?thesis by (simp add: main_call_def)
  next
    case (UdpSend n peer)
    then show ?thesis using ends [OF udp_give_ends [OF assms(1,2)]] by (simp add: main_call_def)
  qed
qed


subsection \<open>The board in every interleaving\<close>

definition board_ok :: "('d, 't) spi_dma_device \<Rightarrow> nat \<Rightarrow> main_state \<times> ('d, 't, 'p) firmware \<Rightarrow> bool" where
  "board_ok D L = (\<lambda>(m, f). main_ok m \<and> (\<exists>w. CHIP f = Some w \<and> chip_ok D L (spare m) w))"

context spi_contract
begin

lemma isr_ends:
  assumes "wp m (\<lambda>r w'. w_inv D L w' \<and> r \<noteq> Panic) w" "pres (calm fs) m" "calm fs w" "CHIP f = Some w" "on_chip_static m f = (r, f')"
  shows "r = Ok () \<and> (\<exists>w'. CHIP f' = Some w' \<and> chip_ok D L fs w')"
proof -
  obtain r1 w1 where m: "m w = (r1, w1)" by (cases "m w")
  have "r1 \<noteq> Panic" "chip_ok D L fs w1" using wpD [OF assms(1) m] presD [OF assms(2,3) m] by (auto simp: chip_ok_def)
  then show ?thesis using assms(4,5) m by (cases r1) (auto simp: on_chip_static_def ignore_def)
qed

lemma board_exec_ends:
  assumes "board_ok D L (m, f)" "board_exec D P e (m, f) = Some (r, s')"
  shows "r = Ok () \<and> board_ok D L s'"
proof -
  obtain w where w: "main_ok m" "CHIP f = Some w" "w_inv D L w" "calm (spare m) w"
    using assms(1) by (auto simp: board_ok_def chip_ok_def)
  have svc: "r1 = Ok () \<and> board_ok D L (m, f2)" if "isr_service D P f1 = (r1, f2)" "CHIP f1 = CHIP f" for f1 r1 f2
    using isr_ends [OF service_spec [OF w(3)] service_calm w(4) _ that(1) [unfolded isr_service_def]] that(2) w by (simp add: board_ok_def)
  have "wp (dma_complete D P) (\<lambda>r w'. w_inv D L w' \<and> r \<noteq> Panic) w"
    using dma_complete_spec [OF w(3), of P] by (auto simp: wp_def)
  note finished = isr_ends [OF this dma_complete_calm w(4,2)]
  have dma: "r1 = Ok () \<and> board_ok D L (m, f2)" if "DMA1_CHANNEL2 D P f = (r1, f2)" for r1 f2
    using finished [OF that [unfolded DMA1_CHANNEL2_def]] w by (simp add: board_ok_def)
  show ?thesis
  proof (cases e)
    case MainRuns
    then obtain m' w' where "main_call (m, w) = Some (r, (m', w'))" "s' = (m', f\<lparr>CHIP := Some w'\<rparr>)"
      using assms(2) w(2) by auto
    with main_call_ends [OF w(1) _ this(1)] w(3,4) show ?thesis by (auto simp: board_ok_def chip_ok_def)
  next
    case TimerFires
    then show ?thesis using assms(2) svc by (auto simp: TIM2_def bnd_def modify_def split: prod.splits)
  next
    case LineFalls
    then show ?thesis using assms(2) svc by (auto simp: EXTI15_10_def bnd_def modify_def split: prod.splits)
  next
    case DmaDone
    then show ?thesis using assms(2) dma by (auto split: prod.splits)
  qed
qed

lemma board_run_ends:
  "board_ok D L s \<Longrightarrow> board_run D P es s = Some (r, s') \<Longrightarrow> r = Ok () \<and> board_ok D L s'"
proof (induction es arbitrary: s)
  case (Cons e es)
  obtain m f where s: "s = (m, f)" by (cases s)
  obtain r1 s1 where "board_exec D P e (m, f) = Some (r1, s1)" using Cons.prems(2) s by (auto split: option.splits)
  with board_exec_ends [OF Cons.prems(1) [unfolded s] this] Cons.IH [of s1] Cons.prems(2) s show ?case by auto
qed simp

end


lemma new_calm:
  fixes D :: "('d, 't) spi_dma_device"
  assumes "w6100_new D P dev pin b m = Ok w"
  shows "calm (replicate 8 True) w"
proof -
  obtain t :: "('d, 't) transceiver" where "transceiver_new dev b = Some t"
    using assms by (auto simp: w6100_new_def split: option.splits)
  let ?w0 = "\<lparr>device = cell_new \<lparr>transport = t, rst = pin\<rparr>, mac = m, config = cell_new None, config_dirty = False,
    link_up = False, sockets = map make_socket [0..<8], bulk = cell_new None\<rparr>"
  have "calm (replicate 8 True) ?w0"
    by (auto simp: calm_def calm_slot_def list_all2_conv_all_nth make_socket_def cell_new_def is_free_def backend_new_def)
  moreover obtain u where "w6100_reset D P ?w0 = (Ok u, w)"
    using assms \<open>transceiver_new dev b = Some t\<close> by (auto simp: w6100_new_def split: prod.splits res.splits)
  ultimately show ?thesis using presD [OF reset_calm] by blast
qed

context full_duplex_dma
begin

lemma hal_contract: "spi_contract (hal_device H)"
  by (rule spi.spi_contract_axioms)

lemma boot_ok:
  assumes "boot H P h level pin f = Ok s"
  shows "board_ok (hal_device H) SCRATCH s"
proof -
  let ?b = "\<lparr>rx_buf = replicate SCRATCH 0, tx_buf = replicate SCRATCH 0, dma_len = 0\<rparr>"
  obtain w where w: "w6100_new (hal_device H) P (hal_spi_new h level f) pin ?b main_mac = Ok w"
    and s: "s = (\<lparr>pc = AwaitLink, tcp_sock = None, udp_sock = None, app = fresh_app False\<rparr>, \<lparr>CHIP = Some w, TIMER = Some False, INT_PIN = Some False\<rparr>)"
    using assms by (auto simp: boot_def boot_on_def split: res.splits)
  have "w_inv (hal_device H) SCRATCH w"
    using spi.new_spec [of ?b SCRATCH P "hal_spi_new h level f" pin main_mac] w by (simp add: spi.w_quiet_def)
  moreover have "spare (fst s) = replicate 8 True" by (simp add: s spare_def list_eq_iff_nth_eq)
  ultimately show ?thesis using new_calm [OF w] fresh_fits
    by (auto simp: s board_ok_def chip_ok_def main_ok_def pc_ok_def)
qed

end

subsection \<open>Properties\<close>

text \<open>
  C7. The echo firmware never panics. From a successful boot on a transport whose DMA keeps its
  documented contract, whatever the line answers and in whatever order \<^verbatim>\<open>main\<close>, timer, chip and DMA
  interrupts run between the calls of \<^verbatim>\<open>main\<close>: no \<^verbatim>\<open>expect\<close> or \<^verbatim>\<open>unwrap\<close> fails, no slice is out of
  range, the driver does not panic, and the bus is idle exactly when no transfer is recorded.
  The only call that may fail to return is a \<^verbatim>\<open>recv_from\<close> (on a ring that has lost its framing).
\<close>

theorem firmware_never_panics:
  assumes "full_duplex_dma H tcif tcie line exchange" "boot H P h level pin f = Ok s0"
    "board_run (hal_device H) P es s0 = Some (r, (m, fw))"
  shows "r = Ok () \<and>
    (\<exists>w. CHIP fw = Some w \<and>
       (case cell (bulk w) of
          None \<Rightarrow> idle SCRATCH (transport (cell (device w)))
        | Some op \<Rightarrow> in_flight (hal_device H) SCRATCH (transport (cell (device w))) \<and> op_idx op < 8)) \<and>
    (board_exec (hal_device H) P MainRuns (m, fw) = None \<longrightarrow> pc m = UdpRecv)"
proof -
  have ok: "r = Ok ()" "board_ok (hal_device H) SCRATCH (m, fw)"
    using spi_contract.board_run_ends [OF full_duplex_dma.hal_contract [OF assms(1)] full_duplex_dma.boot_ok [OF assms(1,2)] assms(3)]
    by blast+
  then obtain w where w: "CHIP fw = Some w" "w_inv (hal_device H) SCRATCH w" by (auto simp: board_ok_def chip_ok_def)
  have "pc m = UdpRecv" if "board_exec (hal_device H) P MainRuns (m, fw) = None"
    using that w(1) by (auto simp: main_call_def split: main_pc.splits)
  moreover have "case cell (bulk w) of None \<Rightarrow> idle SCRATCH (transport (cell (device w)))
      | Some op \<Rightarrow> in_flight (hal_device H) SCRATCH (transport (cell (device w))) \<and> op_idx op < 8"
    using w(2) by (auto simp: w_inv_def op_ok_def rest_ok_def split: option.splits)
  ultimately show ?thesis using ok(1) w(1) by blast
qed


definition demo_channel :: "chip_state dma_channel" where
  "demo_channel = \<lparr>ch_line = tiny_chip, ch_tcif = True, ch_tcie = False, ch_unmasked = False\<rparr>"

lemma demo_boots: "is_ok (boot (sticky_hal chip_line) mock_pin demo_channel True () 24000000)"
  by code_simp

lemma interrupts_return:
  assumes "MainRuns \<notin> set es"
  shows "\<exists>y. board_run D P es s = Some y"
  using assms
proof (induction es arbitrary: s)
  case (Cons e es)
  obtain m f where s: "s = (m, f)" by (cases s)
  have "\<exists>r s1. board_exec D P e (m, f) = Some (r, s1)" using Cons.prems by (cases e) (auto split: prod.split)
  then obtain r s1 where "board_exec D P e s = Some (r, s1)" using s by blast
  then show ?case using Cons.IH [of s1] Cons.prems by (cases r) auto
qed simp

theorem firmware_never_panics_witness:
  "\<exists>s0 m fw. boot (sticky_hal chip_line) mock_pin demo_channel True () 24000000 = Ok s0 \<and>
     board_run (hal_device (sticky_hal chip_line)) mock_pin [TimerFires, DmaDone, LineFalls] s0 = Some (Ok (), (m, fw)) \<and>
     (\<exists>w. CHIP fw = Some w)"
proof -
  let ?D = "hal_device (sticky_hal chip_line)"
  obtain s0 where s0: "boot (sticky_hal chip_line) mock_pin demo_channel True () 24000000 = Ok s0"
    using demo_boots is_okE by blast
  have "MainRuns \<notin> set [TimerFires, DmaDone, LineFalls]" by simp
  from interrupts_return [OF this, of ?D mock_pin s0] obtain r m fw where
    run: "board_run ?D mock_pin [TimerFires, DmaDone, LineFalls] s0 = Some (r, (m, fw))" by (metis prod_cases3)
  from firmware_never_panics [OF hal_chip.full_duplex_dma_axioms s0 run] s0 run show ?thesis by blast
qed

end
