(* ===== verification/Slots_On_Chip.thy ===== *)
theory Slots_On_Chip
  imports Firmware Udp_End_To_End
begin

text \<open>
  The two sockets of the echo firmware over the chip model: slot 0 as an instance of the contract of
  a TCP slot and slot 1 of the contract of a UDP slot, each from before it is opened. What an
  interrupt, a peer and each call of \<^verbatim>\<open>main\<close> does to the pair, and that the link stays up.
\<close>

subsection \<open>Both slots, before and after they are opened\<close>

type_synonym tcp_stage = "bytes \<times> bytes + bytes \<times> bytes"
type_synonym udp_stage = "datagram list \<times> datagram list + datagram list \<times> datagram list"

fun tcp_idle :: "bytes \<times> bytes \<Rightarrow> nat \<Rightarrow> chip_state \<Rightarrow> bool" where
  "tcp_idle (S, F) i c \<longleftrightarrow> at_rest i S F c"

fun udp_idle :: "datagram list \<times> datagram list \<Rightarrow> nat \<Rightarrow> chip_state \<Rightarrow> bool" where
  "udp_idle (S, P) i c \<longleftrightarrow> udp_chip i S P c"

interpretation tcp_slot: slot_flow "staged_rest tcp_idle (\<lambda>_. tcp_rest)" "staged_flight (\<lambda>_. tcp_flight)"
  by (rule tcp_flow.staged)
    (auto simp: frame_for_def at_rest_def write_reg_def Let_def run_command_def send_out_def)

interpretation udp_slot: slot_flow "staged_rest udp_idle (udp_rest N)" "staged_flight (udp_flight N)" for N
  by (rule udp_flow.staged)
    (auto simp: frame_for_def udp_chip_def udp_sent_def at_rest_def write_reg_def Let_def run_command_def send_out_def)

abbreviation tcp_staged :: "nat \<Rightarrow> nat \<Rightarrow> tcp_stage \<Rightarrow> chip_driver \<Rightarrow> bool" where
  "tcp_staged L i \<equiv> flow L i (staged_rest tcp_idle (\<lambda>_. tcp_rest) L i) (staged_flight (\<lambda>_. tcp_flight) L i)"

abbreviation udp_staged :: "nat \<Rightarrow> nat \<Rightarrow> nat \<Rightarrow> udp_stage \<Rightarrow> chip_driver \<Rightarrow> bool" where
  "udp_staged N L i \<equiv> flow L i (staged_rest udp_idle (udp_rest N) L i) (staged_flight (udp_flight N) L i)"

text \<open>\<open>both a u w\<close>: whether the TCP slot is open, and the stage of the UDP slot with what it carries.\<close>

definition both :: "bool \<Rightarrow> udp_stage \<Rightarrow> chip_driver \<Rightarrow> bool" where
  "both a u w \<longleftrightarrow> (\<exists>g. isl g = (\<not> a) \<and> tcp_staged SCRATCH 0 g w) \<and> udp_staged 512 SCRATCH 1 u w"

lemma scratch_515: "SCRATCH = 515"
  by (simp add: SCRATCH_def HAL_HEADER_def PAYLOAD_def)

lemma bothE:
  assumes "both a u w"
  obtains g where "isl g = (\<not> a)" "tcp_staged SCRATCH 0 g w" "udp_staged 512 SCRATCH 1 u w"
  using assms unfolding both_def by blast

lemma both_open:
  "both True u w \<Longrightarrow> \<exists>A R. carried SCRATCH 0 A R w"
  "both a (Inr (A, R)) w \<Longrightarrow> udp_carried 512 SCRATCH 1 A R w"
proof -
  assume "both True u w"
  then obtain g where g: "isl g = (\<not> True)" "tcp_staged SCRATCH 0 g w" by (rule bothE)
  obtain A R where e: "g = Inr (A, R)" using g(1) by (cases g) auto
  have "carried SCRATCH 0 A R w" using g(2) unfolding e carried_def flow_staged .
  then show "\<exists>A R. carried SCRATCH 0 A R w" by blast
next
  assume "both a (Inr (A, R)) w"
  then show "udp_carried 512 SCRATCH 1 A R w" unfolding both_def udp_carried_def flow_staged by blast
qed

lemma both_inv: "both a u w \<Longrightarrow> w_inv chip SCRATCH w"
  by (auto simp: both_def flow_def)

lemma both_service:
  assumes "both a u w"
  shows "both a u (snd (w6100_service chip P w))" "both a u (snd (dma_complete chip P w))"
proof -
  obtain g where g: "isl g = (\<not> a)" "tcp_staged SCRATCH 0 g w" "udp_staged 512 SCRATCH 1 u w" by (rule bothE [OF assms])
  have L: "67 \<le> SCRATCH" "0 < (8 :: nat)" "1 < (8 :: nat)" by (simp_all add: scratch_515)
  obtain r w1 where s: "w6100_service chip P w = (r, w1)" by (cases "w6100_service chip P w")
  show "both a u (snd (w6100_service chip P w))"
    using tcp_slot.service_flow [OF g(2) s L(1,2)] udp_slot.service_flow [OF g(3) s L(1,3)] g(1) s unfolding both_def by auto
  obtain r w2 where d: "dma_complete chip P w = (r, w2)" by (cases "dma_complete chip P w")
  show "both a u (snd (dma_complete chip P w))"
    using tcp_slot.dma_complete_flow [OF g(2) d L(1,2)] udp_slot.dma_complete_flow [OF g(3) d L(1,3)] g(1) d unfolding both_def by auto
qed

lemma both_config: "both a u w \<Longrightarrow> both a u (snd (set_network_config cfg w))"
  unfolding both_def
  by (elim exE conjE) (rule conjI, intro exI conjI, assumption, erule tcp_slot.config_flow, erule udp_slot.config_flow)

text \<open>A call on one slot is nothing to the other.\<close>

lemma both_tcp:
  assumes "both True u w" "sock_safe m" "\<And>A R. carried SCRATCH 0 A R w \<Longrightarrow> \<exists>A R. carried SCRATCH 0 A R (snd (on_socket 0 m w))"
  shows "both True u (snd (on_socket 0 m w))"
proof -
  have u: "udp_staged 512 SCRATCH 1 u w" using assms(1) by (simp add: both_def)
  obtain r s' where m: "m (sockets w ! 0) = (r, s')" by (cases "m (sockets w ! 0)")
  have "on_socket 0 m w = (r, w\<lparr>sockets := (sockets w)[0 := s']\<rparr>) \<and> udp_staged 512 SCRATCH 1 u (w\<lparr>sockets := (sockets w)[0 := s']\<rparr>)"
    by (rule udp_slot.on_socket_flow [OF _ u assms(2) m]) simp_all
  moreover obtain A R where "carried SCRATCH 0 A R (snd (on_socket 0 m w))"
    using both_open(1) [OF assms(1)] assms(3) by blast
  then have "tcp_staged SCRATCH 0 (Inr (A, R)) (snd (on_socket 0 m w))" unfolding carried_def flow_staged .
  ultimately show ?thesis unfolding both_def by (intro conjI exI [of _ "Inr (A, R)"]) simp_all
qed

lemma both_udp:
  fixes w :: chip_driver
  assumes "both a u w" "udp_carried 512 SCRATCH 1 A R (w\<lparr>sockets := (sockets w)[1 := s']\<rparr>)"
  shows "both a (Inr (A, R)) (w\<lparr>sockets := (sockets w)[1 := s']\<rparr>)"
proof -
  obtain g where g: "isl g = (\<not> a)" "tcp_staged SCRATCH 0 g w" by (rule bothE [OF assms(1)])
  have "w_inv chip SCRATCH (w\<lparr>sockets := (sockets w)[1 := s']\<rparr>)" using assms(2) by (simp add: udp_carried_def flow_def)
  then have "tcp_staged SCRATCH 0 g (w\<lparr>sockets := (sockets w)[1 := s']\<rparr>)"
    by (rule tcp_slot.update_flow [OF g(2)]) simp_all
  then show ?thesis using g(1) assms(2) unfolding both_def udp_carried_def flow_staged by blast
qed

subsection \<open>Opening\<close>

lemma open_loop_at:
  assumes "j < length ss" "\<And>k. k < j \<Longrightarrow> \<not> busy (backend (ss ! k)) \<and> \<not> is_free (cell (backend (ss ! k)))"
    "\<not> busy (backend (ss ! j))" "is_free (cell (backend (ss ! j)))"
  shows "open_loop claim rxb txb i ss = (Ok (i + j), ss[j := (ss ! j)\<lparr>backend := \<lparr>cell = snd (claim (cell (backend (ss ! j)))), busy = False\<rparr>,
    sock_rings := rings_install rxb txb (sock_rings (ss ! j))\<rparr>])"
  using assms
proof (induction ss arbitrary: i j)
  case (Cons s ss)
  have l: "\<not> busy (backend s) \<Longrightarrow> lock_mut (backend s) = (Inr (cell (backend s)), (backend s)\<lparr>busy := True\<rparr>)"
    by (simp add: lock_mut_def try_lock_internal_def)
  show ?case
  proof (cases j)
    case 0
    then show ?thesis using Cons.prems l by (simp add: drop_guard_def)
  next
    case (Suc k)
    have s: "\<not> busy (backend s)" "\<not> is_free (cell (backend s))" using Cons.prems(2) [of 0] Suc by simp_all
    have "drop_guard (cell (backend s)) ((backend s)\<lparr>busy := True\<rparr>) = backend s" using s by (simp add: drop_guard_def)
    moreover have "\<And>n. n < k \<Longrightarrow> \<not> busy (backend (ss ! n)) \<and> \<not> is_free (cell (backend (ss ! n)))"
      using Cons.prems(2) Suc by (metis Suc_less_eq nth_Cons_Suc)
    ultimately show ?thesis using Cons.IH [of k "i + 1"] Cons.prems(1,3,4) Suc s l by simp
  qed
qed simp

text \<open>A slot that is still free is at rest.\<close>

lemma staged_free:
  assumes "flow L i (staged_rest K rest L i) (staged_flight flight L i) (Inl k) w"
  shows "is_free (cell (backend (sockets w ! i))) \<and> (\<exists>c. chip_of w = Some c \<and> K k i c)"
  using assms by (auto simp: flow_def slot_bus_def bus_any_def chip_of_def on_chip_def flying_def split: option.splits if_splits)

lemma staged_live:
  assumes "flow L i (staged_rest K rest L i) (staged_flight flight L i) (Inr g) w"
    "\<And>q c. rest L i g b q c \<Longrightarrow> \<not> is_free b" "\<And>op q p c. flight L i g op b q p c \<Longrightarrow> \<not> is_free b" "b = cell (backend (sockets w ! i))"
  shows "\<not> is_free (cell (backend (sockets w ! i)))"
  using assms by (auto simp: flow_staged flow_def slot_bus_def bus_any_def split: option.splits if_splits)

lemma both_open_tcp:
  fixes w :: chip_driver
  assumes "both False u w" "\<not> busy (backend (sockets w ! 0))"
  shows "\<exists>w'. open_tcp_listen p (replicate 512 0) (replicate 512 0) w = (Ok 0, w') \<and> both True u w' \<and> link_up w' = link_up w"
proof -
  obtain g where g: "isl g = (\<not> False)" "tcp_staged SCRATCH 0 g w" "udp_staged 512 SCRATCH 1 u w" by (rule bothE [OF assms(1)])
  obtain S F where e: "g = Inl (S, F)" using g(1) by (cases g) auto
  have w: "w_inv chip SCRATCH w" "length (sockets w) = 8" using both_inv [OF assms(1)] by (auto simp: w_inv_def rest_ok_def)
  have c: "is_free (cell (backend (sockets w ! 0)))" by (rule staged_free [OF g(2) [unfolded e], THEN conjunct1])
  let ?claim = "claim_tcp (tcp_listen p)" and ?b = "replicate 512 (0 :: u8)"
  let ?s = "(sockets w ! 0)\<lparr>backend := \<lparr>cell = snd (?claim (cell (backend (sockets w ! 0)))), busy = False\<rparr>,
    sock_rings := rings_install ?b ?b (sock_rings (sockets w ! 0))\<rparr>"
  let ?w = "w\<lparr>sockets := (sockets w)[0 := ?s]\<rparr>"
  have o: "on_sockets (open_loop ?claim ?b ?b 0) w = (Ok 0, ?w)"
    using open_loop_at [of 0 "sockets w" ?claim ?b ?b 0] w(2) assms(2) c by (simp add: on_sockets_def zoom_def)
  then have "quietly (on_sockets (open_loop ?claim ?b ?b 0)) w = (Ok (), ?w)" by (simp add: quietly_def bnd_def ret_def)
  from wpD [OF open_keeps [OF w(1) buffer_512 buffer_512] this] have inv: "w_inv chip SCRATCH ?w" by (simp add: claim_block)
  have "tcp_staged SCRATCH 0 (Inr (S, F)) ?w"
    by (rule tcp_slot.update_flow [OF g(2) inv]) (use w(2) e tcp_opened [OF c] in \<open>auto simp del: tcp_rest.simps\<close>)
  moreover have "udp_staged 512 SCRATCH 1 u ?w"
    by (rule udp_slot.update_flow [OF g(3) inv]) simp_all
  ultimately have "both True u ?w" unfolding both_def by (intro conjI exI [of _ "Inr (S, F)"]) simp_all
  then show ?thesis using o by (auto simp: open_tcp_listen_def)
qed

lemma both_open_udp:
  fixes w :: chip_driver
  assumes "both True (Inl (S, P)) w" "\<not> busy (backend (sockets w ! 0))" "\<not> busy (backend (sockets w ! 1))"
  shows "\<exists>w'. open_udp p (replicate 512 0) (replicate 512 0) w = (Ok 1, w') \<and> both True (Inr (S, filter (fits 512) P)) w' \<and> link_up w' = link_up w"
proof -
  obtain g where g: "isl g = (\<not> True)" "tcp_staged SCRATCH 0 g w" "udp_staged 512 SCRATCH 1 (Inl (S, P)) w" by (rule bothE [OF assms(1)])
  obtain A R where e: "g = Inr (A, R)" using g(1) by (cases g) auto
  have w: "w_inv chip SCRATCH w" "length (sockets w) = 8" using both_inv [OF assms(1)] by (auto simp: w_inv_def rest_ok_def)
  have live: "\<not> is_free (cell (backend (sockets w ! 0)))"
    by (rule staged_live [OF g(2) [unfolded e] _ _ refl]) (auto simp: tcp_backend_def is_free_def)
  have c: "is_free (cell (backend (sockets w ! 1)))" by (rule staged_free [OF g(3), THEN conjunct1])
  let ?claim = "claim_udp (udp_bind p)" and ?b = "replicate 512 (0 :: u8)"
  let ?s = "(sockets w ! 1)\<lparr>backend := \<lparr>cell = snd (?claim (cell (backend (sockets w ! 1)))), busy = False\<rparr>,
    sock_rings := rings_install ?b ?b (sock_rings (sockets w ! 1))\<rparr>"
  let ?w = "w\<lparr>sockets := (sockets w)[1 := ?s]\<rparr>"
  have o: "on_sockets (open_loop ?claim ?b ?b 0) w = (Ok 1, ?w)"
    using open_loop_at [of 1 "sockets w" ?claim ?b ?b 0] w(2) assms(2,3) c live by (simp add: on_sockets_def zoom_def)
  then have "quietly (on_sockets (open_loop ?claim ?b ?b 0)) w = (Ok (), ?w)" by (simp add: quietly_def bnd_def ret_def)
  from wpD [OF open_keeps [OF w(1) buffer_512 buffer_512] this] have inv: "w_inv chip SCRATCH ?w" by (simp add: claim_block)
  have r: "udp_rest 512 SCRATCH 1 (S, filter (fits 512) P) (cell (backend ?s)) (sock_rings ?s) c" if "udp_chip 1 S P c" for c
    using udp_opened [OF c that buffer_512 buffer_512, of SCRATCH p] by (simp add: scratch_515 del: udp_rest.simps)
  have "udp_staged 512 SCRATCH 1 (Inr (S, filter (fits 512) P)) ?w"
    by (rule udp_slot.update_flow [OF g(3) inv]) (use w(2) r in \<open>simp_all del: udp_rest.simps\<close>)
  moreover have "tcp_staged SCRATCH 0 g ?w"
    by (rule tcp_slot.update_flow [OF g(2) inv]) simp_all
  ultimately have "both True (Inr (S, filter (fits 512) P)) ?w" using g(1) unfolding both_def by blast
  then show ?thesis using o by (auto simp: open_udp_def)
qed

subsection \<open>The wire\<close>

fun udp_arrived :: "datagram list \<Rightarrow> udp_stage \<Rightarrow> udp_stage" where
  "udp_arrived ds (Inl (S, P)) = Inl (S, P @ ds)"
| "udp_arrived ds (Inr (A, R)) = Inr (A, R @ filter (fits 512) ds)"

lemma both_chip: "both a u w \<Longrightarrow> \<exists>c. chip_of w = Some c"
  by (auto simp: both_def flow_def slot_bus_def bus_any_def chip_of_def on_chip_def flying_def split: option.splits if_splits)

lemma both_wire:
  fixes w :: chip_driver
  assumes "both a u w" "chip_of w = Some c"
    "\<And>S F. at_rest 0 S F c \<Longrightarrow> arrives 0 ys c (f c)"
    "length (csockets c) = 8 \<Longrightarrow> cb_ok (srx (csockets c ! 1)) \<Longrightarrow> udp_arrives 1 ds c (f c)"
  shows "both a (udp_arrived ds u) (on_wire f w)"
proof -
  obtain g where g: "isl g = (\<not> a)" "tcp_staged SCRATCH 0 g w" "udp_staged 512 SCRATCH 1 u w" by (rule bothE [OF assms(1)])
  have t: "\<exists>g. isl g = (\<not> a) \<and> tcp_staged SCRATCH 0 g (on_wire f w)"
  proof (cases g)
    case (Inl k)
    obtain S F where k: "k = (S, F)" by (cases k)
    have "tcp_staged SCRATCH 0 (Inl (S, F @ ys)) (on_wire f w)"
      by (rule tcp_slot.wire_flow [OF g(2) [unfolded Inl k]]) (use assms(2) arrives_rest [OF assms(3)] in auto)
    then show ?thesis using g(1) Inl by (intro exI [of _ "Inl (S, F @ ys)"]) simp
  next
    case (Inr k)
    obtain A R where k: "k = (A, R)" by (cases k)
    have "carried SCRATCH 0 A R w" using g(2) unfolding Inr k carried_def flow_staged .
    from wire_carried [OF this, of ys f] assms(2,3) have "carried SCRATCH 0 A (R @ ys) (on_wire f w)" by auto
    then have "tcp_staged SCRATCH 0 (Inr (A, R @ ys)) (on_wire f w)" unfolding carried_def flow_staged .
    then show ?thesis using g(1) Inr by (intro exI [of _ "Inr (A, R @ ys)"]) simp
  qed
  have "udp_staged 512 SCRATCH 1 (udp_arrived ds u) (on_wire f w)"
  proof (cases u)
    case (Inl k)
    obtain S P where k: "k = (S, P)" by (cases k)
    have a: "udp_chip 1 S P c \<Longrightarrow> udp_chip 1 S (P @ ds) (f c)"
      using arrives_chip(1) assms(4) unfolding udp_chip_def at_rest_def by blast
    show ?thesis unfolding Inl k udp_arrived.simps
      by (rule udp_slot.wire_flow [OF g(3) [unfolded Inl k]]) (use assms(2) a in auto)
  next
    case (Inr k)
    obtain A R where k: "k = (A, R)" by (cases k)
    have "udp_carried 512 SCRATCH 1 A R w" using g(3) unfolding Inr k udp_carried_def flow_staged .
    from udp_wire [OF this, of ds f] assms(2,4) have "udp_carried 512 SCRATCH 1 A (R @ filter (fits 512) ds) (on_wire f w)" by auto
    then show ?thesis unfolding Inr k udp_carried_def udp_arrived.simps flow_staged .
  qed
  with t show ?thesis unfolding both_def by blast
qed

lemma udp_arrived_nothing [simp]: "udp_arrived [] u = u"
  by (cases u) auto

lemma both_peer:
  fixes w :: chip_driver
  assumes "both a u w"
  shows "both a u (on_wire (peer_connect j) w)"
    "j \<noteq> 1 \<Longrightarrow> both a u (on_wire (\<lambda>c. snd (peer_send j data c)) w)"
    "j \<noteq> 0 \<Longrightarrow> chip_of w = Some c \<Longrightarrow> peer_send_udp j p data c = (ok, c') \<Longrightarrow>
       both a (udp_arrived (if j = 1 \<and> ok then [(p, data)] else []) u) (on_wire (\<lambda>_. c') w)"
proof -
  obtain c0 where c0: "chip_of w = Some c0" using both_chip [OF assms] by blast
  have "both a (udp_arrived [] u) (on_wire (peer_connect j) w)"
    by (rule both_wire [OF assms c0, of "[]"]) (simp add: arrives_connect, rule udp_unseen, simp_all)
  then show "both a u (on_wire (peer_connect j) w)" by simp
  have "both a (udp_arrived [] u) (on_wire (\<lambda>c. snd (peer_send j data c)) w)" if "j \<noteq> 1"
    by (rule both_wire [OF assms c0, of "if j = 0 then take (fst (peer_send j data c0)) data else []"])
      (simp only: arrives_send zero_less_numeral prod.collapse, rule udp_unseen, use that in simp_all)
  then show "j \<noteq> 1 \<Longrightarrow> both a u (on_wire (\<lambda>c. snd (peer_send j data c)) w)" by simp
  assume p: "j \<noteq> 0" "chip_of w = Some c" "peer_send_udp j p data c = (ok, c')"
  show "both a (udp_arrived (if j = 1 \<and> ok then [(p, data)] else []) u) (on_wire (\<lambda>_. c') w)"
  proof (rule both_wire [OF assms p(2), of "[]"])
    show "arrives 0 [] c c'" if "at_rest 0 S F c" for S F using arrives_udp [OF _ p(1) that, of p data] p(3) by simp
    show "udp_arrives 1 (if j = 1 \<and> ok then [(p, data)] else []) c c'" if "length (csockets c) = 8" "cb_ok (srx (csockets c ! 1))"
    proof (cases "j = 1")
      case True
      then show ?thesis using udp_arrives_own [OF _ that p(3) [unfolded True]] by simp
    next
      case False
      then show ?thesis using udp_unseen(3) [OF _ that, of j p data] p(3) by simp
    qed
  qed
qed

subsection \<open>The calls of main\<close>

lemma on_socket_link [simp]: "link_up (snd (on_socket j m w)) = link_up w"
  by (simp add: on_socket_def case_prod_beta)

lemma both_tcp_calls:
  fixes w :: chip_driver
  assumes "both True u w"
  shows "both True u (snd (on_socket 0 (tcp_read n) w))" "both True u (snd (on_socket 0 (tcp_write xs) w))"
    "both True u (snd (on_socket 0 tcp_handle_status w))" "both True u (snd (on_socket 0 tcp_reconnect w))"
proof -
  have safe: "sock_safe (tcp_read n)" "sock_safe (tcp_write xs)" "sock_safe tcp_handle_status" "sock_safe tcp_reconnect"
    using sock_safe_read sock_safe_write sock_safe_control sock_safe_reconnect by (simp_all add: sock_safe_quietly)
  have i: "(0 :: nat) < 8" by simp
  show "both True u (snd (on_socket 0 (tcp_read n) w))"
    by (rule both_tcp [OF assms safe(1)]) (metis read_carried [OF i i] snd_conv)
  show "both True u (snd (on_socket 0 (tcp_write xs) w))"
    by (rule both_tcp [OF assms safe(2)]) (metis write_carried [OF i i] snd_conv)
  have "sock_still tcp_handle_status" using sock_still_control(4) by (simp add: sock_still_def quietly_snd)
  then show "both True u (snd (on_socket 0 tcp_handle_status w))"
    by (intro both_tcp [OF assms safe(3)]) (metis still_carried [OF i i] safe(3))
  show "both True u (snd (on_socket 0 tcp_reconnect w))"
    by (rule both_tcp [OF assms safe(4)]) (rule tcp_reconnect_carried [OF i])
qed

lemma both_udp_slot:
  fixes w :: chip_driver
  assumes "both a (Inr (A, R)) w"
  shows "1 < length (sockets w)" "udp_carried 512 SCRATCH 1 A R w"
  using both_inv [OF assms] both_open(2) [OF assms] by (simp_all add: w_inv_def rest_ok_def)

lemma both_send:
  fixes w :: chip_driver
  assumes "both a (Inr (A, R)) w" "length src < 2 ^ 16"
  shows "\<exists>n w' es. udp_handle_send 1 src peer w = (Ok n, w') \<and> both a (Inr (A @ es, R)) w' \<and> link_up w' = link_up w \<and>
    (n, es) \<in> {(length src, [(peer, src)]), (0, [])}"
proof -
  have i: "(1 :: nat) < 8" by simp
  let ?ok = "FRAME_HEADER + length src \<le> free_space (tx (slot_rings 1 w))"
  obtain n w' where s: "udp_handle_send 1 src peer w = (Ok n, w')"
    "udp_carried 512 SCRATCH 1 (A @ (if ?ok then [(peer, src)] else [])) R w'" "n = (if ?ok then length src else 0)"
    using send_carried [OF both_udp_slot(2) [OF assms(1)] i disjI1 [OF assms(2)], of peer] by blast
  have w': "w' = w\<lparr>sockets := (sockets w)[1 := sockets w' ! 1]\<rparr>"
    using s(1) both_udp_slot(1) [OF assms(1)] by (auto simp: udp_handle_send_def on_socket_def split: prod.splits)
  have "both a (Inr (A @ (if ?ok then [(peer, src)] else []), R)) w'"
    by (subst w', rule both_udp [OF assms(1)]) (use s(2) w' in simp)
  moreover have "link_up w' = link_up w" by (subst w') simp
  ultimately show ?thesis using s(1,3)
    by - (rule exI [of _ n], rule exI [of _ w'], rule exI [of _ "if ?ok then [(peer, src)] else []"], simp)
qed

lemma both_recv:
  fixes w :: chip_driver
  assumes "both a (Inr (A, R)) w"
  shows "\<exists>x w' R'. udp_handle_recv 1 k w = Some (Ok x, w') \<and> both a (Inr (A, R')) w' \<and> link_up w' = link_up w \<and>
    (case x of None \<Rightarrow> R' = R | Some (out, peer) \<Rightarrow> \<exists>d. R = d # R' \<and> peer = fst d \<and> out = take k (snd d))"
proof -
  have i: "(1 :: nat) < 8" by simp
  obtain x w' R' where s: "udp_handle_recv 1 k w = Some (Ok x, w')" "udp_carried 512 SCRATCH 1 A R' w'"
    "case x of None \<Rightarrow> R' = R | Some (out, peer) \<Rightarrow> \<exists>d. R = d # R' \<and> delivered_as (k, out, peer) d"
    using recv_carried [OF both_udp_slot(2) [OF assms] i, of k] by blast
  have w': "w' = w\<lparr>sockets := (sockets w)[1 := sockets w' ! 1]\<rparr>"
    using s(1) both_udp_slot(1) [OF assms] by (auto simp: udp_handle_recv_def Let_def split: option.splits)
  have "both a (Inr (A, R')) w'"
    by (subst w', rule both_udp [OF assms]) (use s(2) w' in simp)
  moreover have "link_up w' = link_up w" by (subst w') simp
  ultimately show ?thesis using s(1,3)
    by - (rule exI [of _ x], rule exI [of _ w'], rule exI [of _ R'], cases x; auto simp: delivered_as_def)
qed

subsection \<open>The link stays up\<close>

lemma with_device_link:
  assumes "frames body_flags m"
  shows "link_up (snd (with_device m w)) = link_up w"
proof -
  obtain r w' where e: "with_device m w = (r, w')" by (cases "with_device m w")
  from with_device_flags [OF assms e] show ?thesis unfolding e by (simp add: link_flags_def)
qed

lemma run_link [simp]: "link_up (snd (w6100_run D w)) = link_up w"
proof -
  have "frames body_flags (run_body D)"
    by (auto simp: frames_def body_flags_def run_body_def link_flags_def Let_def put_bulk_def split: prod.split res.split option.split sum.split)
  then show ?thesis unfolding w6100_run_def by (rule with_device_link)
qed

lemma setup_link [simp]: "link_up (snd (setup_network D a b c w)) = link_up w"
proof -
  have "frames body_flags (gets (\<lambda>(d, w). mac w))" by (simp add: frames_def gets_def)
  then show ?thesis unfolding setup_network_def
    by (intro with_device_link frames_bnd frames_flags [OF frames_spi])
qed

lemma config_link [simp]: "link_up (snd (set_network_config cfg w)) = link_up w"
  by (auto simp: set_network_config_def bnd_def zoom_def modify_def split: res.split prod.split)

lemma service_link:
  fixes w :: chip_driver
  assumes "tcp_staged SCRATCH 0 g w" "link_up w"
  shows "link_up (snd (w6100_service chip P w))"
proof (cases "bulk_in_flight w")
  case True
  then show ?thesis using assms(2) by (simp add: w6100_service_def bnd_def gets_def ret_def)
next
  case False
  then have q: "\<not> busy (bulk w)" "cell (bulk w) = None" by (auto simp: bulk_in_flight_def split: if_splits)
  have w: "\<not> busy (device w)" "idle SCRATCH (transport (cell (device w)))"
    using q(2) assms(1) by (auto simp: flow_def w_inv_def rest_ok_def)
  have "bus_only SCRATCH (\<lambda>_. True) (sockets w) (bulk w) w"
    using assms(1) q(2) by (auto simp: bus_only_def flow_def slot_bus_def bus_any_def)
  from chip_link_up [OF _ this w(2,1)] obtain w1 where up: "is_link_up chip w = (Ok True, w1)" by (auto simp: scratch_515)
  show ?thesis
    unfolding service_up [OF False up refl]
    by (auto simp: bnd_def modify_def case_prod_beta split: option.split res.split)
qed

lemma finish_link [simp]: "link_up (snd (with_device (finish_body D op) w)) = link_up w"
proof -
  have "frames body_flags (finish_body D op)"
    by (auto simp: frames_def body_flags_def finish_body_def link_flags_def split: prod.split)
  then show ?thesis by (rule with_device_link)
qed

lemma both_link:
  assumes "both a u w" "link_up w"
  shows "link_up (snd (w6100_service chip P w))" "link_up (snd (dma_complete chip P w))"
proof -
  obtain g where g: "isl g = (\<not> a)" "tcp_staged SCRATCH 0 g w" by (rule bothE [OF assms(1)])
  show "link_up (snd (w6100_service chip P w))" by (rule service_link [OF g(2) assms(2)])
  show "link_up (snd (dma_complete chip P w))"
  proof (cases "cell (bulk w)")
    case None
    then show ?thesis using assms(2) by (simp add: dma_complete_def)
  next
    case (Some op)
    have inv: "w_inv chip SCRATCH w" by (rule both_inv [OF assms(1)])
    obtain r1 w1 where f: "with_device (finish_body chip op) w = (r1, w1)" by (cases "with_device (finish_body chip op) w")
    have post: "r1 \<noteq> Panic" "chip.w_quiet SCRATCH (put_bulk None w1)"
      using wpD [OF chip.finish_body_spec [OF inv Some] f] by simp_all
    have "tcp_staged SCRATCH 0 g (put_bulk None w1)"
      by (rule tcp_slot.complete_flow [OF g(2) Some f]) (simp_all add: scratch_515)
    moreover have "link_up (put_bulk None w1)"
      using finish_link [of chip op w] f assms(2) by (simp add: put_bulk_def split: sum.split prod.split)
    ultimately show ?thesis unfolding chip.dma_complete_unfold [OF inv Some f post] by (simp add: service_link)
  qed
qed

lemma wire_link [simp]: "link_up (on_wire f w) = link_up w"
  by (simp add: on_wire_def)

end
