(* ===== verification/Firmware_On_Chip.thy ===== *)
theory Firmware_On_Chip
  imports Slots_On_Chip
begin

text \<open>
  The echo firmware (\<^verbatim>\<open>examples/echo/src/main.rs\<close>) on the chip model: the calls of \<^verbatim>\<open>main\<close>, the
  interrupts and the peers in any order. No call of \<^verbatim>\<open>main\<close> spins, and the UDP echo returns the
  peers' own datagrams.
\<close>

subsection \<open>Board, chip and wire\<close>

text \<open>\<open>taken\<close> are the datagrams for the UDP socket that the chip had room for.\<close>

type_synonym chip_board = "main_state \<times> (chip_state, chip_state \<times> dma_buffers, unit) firmware"

record soc =
  soc_board :: chip_board
  taken :: "datagram list"

datatype soc_event = OnBoard board_event | Connects nat | Sends nat bytes | SendsUdp nat socket_addr bytes

definition line_chip :: "chip_board \<Rightarrow> chip_state option" where
  "line_chip = (\<lambda>(m, f). Option.bind (CHIP f) chip_of)"

definition on_line :: "(chip_state \<Rightarrow> chip_state) \<Rightarrow> chip_board \<Rightarrow> chip_board" where
  "on_line g = (\<lambda>(m, f). (m, f\<lparr>CHIP := map_option (on_wire g) (CHIP f)\<rparr>))"

fun soc_exec :: "soc_event \<Rightarrow> soc \<Rightarrow> (unit res \<times> soc) option" where
  "soc_exec (OnBoard e) y = map_option (\<lambda>(r, b). (r, y\<lparr>soc_board := b\<rparr>)) (board_exec chip mock_pin e (soc_board y))"
| "soc_exec (Connects j) y = Some (Ok (), y\<lparr>soc_board := on_line (peer_connect j) (soc_board y)\<rparr>)"
| "soc_exec (Sends j data) y = Some (Ok (), y\<lparr>soc_board := on_line (\<lambda>c. snd (peer_send j data c)) (soc_board y)\<rparr>)"
| "soc_exec (SendsUdp j a data) y =
     (case line_chip (soc_board y) of
        None \<Rightarrow> Some (Ok (), y)
      | Some c \<Rightarrow> (case peer_send_udp j a data c of
          (ok, c') \<Rightarrow> Some (Ok (), y\<lparr>soc_board := on_line (\<lambda>_. c') (soc_board y),
            taken := taken y @ (if j = 1 \<and> ok then [(a, data)] else [])\<rparr>)))"

fun soc_run :: "soc_event list \<Rightarrow> soc \<Rightarrow> (unit res \<times> soc) option" where
  "soc_run [] y = Some (Ok (), y)"
| "soc_run (e # es) y = (case soc_exec e y of
      None \<Rightarrow> None | Some (Ok _, y') \<Rightarrow> soc_run es y' | Some (r, y') \<Rightarrow> Some (r, y'))"

text \<open>\<^verbatim>\<open>main\<close> opens TCP on socket 0 and UDP on socket 1; the chip puts segments into the one and datagrams into the other.\<close>

fun soc_event_ok :: "soc_event \<Rightarrow> bool" where
  "soc_event_ok (OnBoard e) \<longleftrightarrow> True"
| "soc_event_ok (Connects j) \<longleftrightarrow> j < 8"
| "soc_event_ok (Sends j data) \<longleftrightarrow> j < 8 \<and> j \<noteq> 1"
| "soc_event_ok (SendsUdp j a data) \<longleftrightarrow> j < 8 \<and> j \<noteq> 0"

subsection \<open>What the echo keeps\<close>

text \<open>The handles of \<^verbatim>\<open>main\<close>: TCP is opened first and gets slot 0, UDP gets slot 1.\<close>

definition handles :: "bool \<Rightarrow> bool \<Rightarrow> main_state \<Rightarrow> bool" where
  "handles a b m \<longleftrightarrow> tcp_sock m = (if a then Some 0 else None) \<and> udp_sock m = (if b then Some 1 else None) \<and> (b \<longrightarrow> a)"

lemma handles_simps [simp]:
  "handles a b (m\<lparr>pc := p\<rparr>) = handles a b m" "handles a b (m\<lparr>app := v\<rparr>) = handles a b m"
  by (simp_all add: handles_def)

text \<open>The datagram \<^verbatim>\<open>main\<close> has received and not yet queued.\<close>

definition held_dgram :: "main_state \<Rightarrow> datagram list" where
  "held_dgram m = (case pc m of UdpSend n peer \<Rightarrow> [(peer, take n (udp_buf (app m)))] | _ \<Rightarrow> pend (app m))"

definition arming :: "main_pc set" where
  "arming = {AwaitLink, SetConfig, ArmTcp, ArmUdp}"

definition relaying :: "main_pc set" where
  "relaying = {CheckLink, TcpStatus, TcpRefill, TcpPush, TcpRearm, UdpFlush}"

definition nonempty :: "datagram list \<Rightarrow> bool" where
  "nonempty ds \<longleftrightarrow> (\<forall>d \<in> set ds. snd d \<noteq> [])"

text \<open>
  Of the datagrams that fit, \<open>Q\<close> have been echoed, then comes the one \<^verbatim>\<open>main\<close> holds, the others are
  still to be received. An empty one that \<^verbatim>\<open>main\<close> holds may have been queued any number of times, and
  is held for good; the others are queued once.
\<close>

definition echoing :: "datagram list \<Rightarrow> datagram list \<Rightarrow> datagram list \<Rightarrow> datagram list \<Rightarrow> bool" where
  "echoing G h A R \<longleftrightarrow> (\<exists>Q k. G = Q @ h @ R \<and> A = Q @ concat (replicate k h) \<and> nonempty Q \<and> (k = 0 \<or> \<not> nonempty h))"

lemma echoing_start: "echoing G [] [] G"
  by (auto simp: echoing_def nonempty_def)

lemma echoing_more: "echoing G h A R \<Longrightarrow> echoing (G @ ds) h A (R @ ds)"
  by (auto simp: echoing_def)

lemma echoing_take: "echoing G [] A (d # R) \<Longrightarrow> echoing G [d] A R"
  by (auto simp: echoing_def intro!: exI [of _ "0 :: nat"])

lemma echoing_queued:
  assumes "echoing G [d] A R"
  shows "echoing G (if snd d = [] then [d] else []) (A @ [d]) R"
proof -
  obtain Q k where q: "G = Q @ [d] @ R" "A = Q @ concat (replicate k [d])" "nonempty Q" "k = 0 \<or> \<not> nonempty [d]"
    using assms unfolding echoing_def by blast
  show ?thesis
  proof (cases "snd d = []")
    case True
    have "concat (replicate k [d]) @ [d] = concat (replicate (Suc k) [d])" by (induction k) auto
    then show ?thesis using q True unfolding echoing_def by (intro exI [of _ Q] exI [of _ "Suc k"]) (auto simp: nonempty_def)
  next
    case False
    then show ?thesis using q unfolding echoing_def by (intro exI [of _ "Q @ [d]"] exI [of _ "0 :: nat"]) (auto simp: nonempty_def)
  qed
qed

text \<open>
  Before the socket is opened all datagrams wait on the chip. The sockets are armed once, for the
  link stays up.
\<close>

definition echo_rel :: "datagram list \<Rightarrow> main_state \<Rightarrow> udp_stage \<Rightarrow> chip_driver \<Rightarrow> bool" where
  "echo_rel log m u w \<longleftrightarrow> (pc m \<noteq> AwaitLink \<longrightarrow> link_up w) \<and> (pc m \<in> arming \<longrightarrow> isl u) \<and>
     (pc m \<notin> arming \<union> relaying \<longrightarrow> udp_pending (app m) = None) \<and>
     (case u of Inl (S, P) \<Rightarrow> S = [] \<and> P = log
      | Inr (A, R) \<Rightarrow> echoing (filter (fits 512) log) (held_dgram m) A R)"

definition fine :: "datagram list \<Rightarrow> main_state \<Rightarrow> chip_driver \<Rightarrow> bool" where
  "fine log m w \<longleftrightarrow> (\<exists>a u. handles a (\<not> isl u) m \<and> both a u w \<and> length (udp_buf (app m)) = 512 \<and> echo_rel log m u w)"

lemma fineI:
  "handles a (\<not> isl u) m \<Longrightarrow> both a u w \<Longrightarrow> length (udp_buf (app m)) = 512 \<Longrightarrow> echo_rel log m u w \<Longrightarrow> fine log m w"
  unfolding fine_def by blast

lemma fineE:
  assumes "fine log m w"
  obtains a u where "handles a (\<not> isl u) m" "both a u w" "length (udp_buf (app m)) = 512" "echo_rel log m u w"
  using assms unfolding fine_def by blast

lemma pc_sets: "p \<notin> arming \<Longrightarrow> p \<notin> relaying \<Longrightarrow> p = UdpRecv \<or> (\<exists>n peer. p = UdpSend n peer)"
  by (cases p) (auto simp: arming_def relaying_def)

lemma held_relaying: "pc m \<in> relaying \<Longrightarrow> held_dgram m = pend (app m)"
  by (auto simp: held_dgram_def relaying_def)

lemma relaying_not_arming: "p \<in> relaying \<Longrightarrow> p \<notin> arming"
  by (auto simp: relaying_def arming_def)

text \<open>Between calls that are not its own the UDP echo stands still.\<close>

lemma echo_rel_stays:
  assumes "echo_rel log m u w" "link_up w' = link_up w" "udp_buf (app m') = udp_buf (app m)"
    "udp_pending (app m') = udp_pending (app m)" "pc m \<in> relaying" "pc m' \<in> relaying"
  shows "echo_rel log m' u w'"
proof -
  have "pend (app m') = pend (app m)" using assms(3,4) by (simp add: pend_def split: option.split)
  then have "held_dgram m' = held_dgram m" using assms(5,6) by (simp add: held_relaying)
  moreover have "pc m \<noteq> AwaitLink" "pc m' \<noteq> AwaitLink" using assms(5,6) by (auto simp: relaying_def)
  ultimately show ?thesis using assms by (cases u) (auto simp: echo_rel_def relaying_not_arming)
qed

text \<open>What holds before a part of the echo loops and after the one call it makes.\<close>

lemma echo_parts:
  assumes "I w"
  shows "(\<And>n. I (snd (rd n w))) \<Longrightarrow> I (snd (snd (echo_refill rd (a, w))))"
    "(\<And>xs. I (snd (wr xs w))) \<Longrightarrow> I (snd (snd (echo_push wr (a, w))))"
  using assms
  by (simp_all add: echo_refill_def echo_push_def unwrap_or_def case_prod_beta split: res.split option.split)

lemma echo_parts_app [simp]:
  "udp_buf (fst (snd (echo_refill rd (a, w)))) = udp_buf a" "udp_pending (fst (snd (echo_refill rd (a, w)))) = udp_pending a"
  "udp_buf (fst (snd (echo_push wr (a, w)))) = udp_buf a" "udp_pending (fst (snd (echo_push wr (a, w)))) = udp_pending a"
  for a :: echo_app
  by (auto simp: echo_refill_def echo_push_def split: prod.split res.split)

subsection \<open>The calls of main keep it\<close>

lemma idle_fine:
  assumes "fine log m w" "main_call (m, w) = Some (r, (m', w'))" "pc m \<in> {AwaitLink, SetConfig, CheckLink}"
  shows "fine log m' w'"
proof (rule fineE [OF assms(1)])
  fix a u assume f: "handles a (\<not> isl u) m" "both a u w" "length (udp_buf (app m)) = 512" "echo_rel log m u w"
  obtain rc wc where c: "set_network_config echo_config w = (rc, wc)" by (cases "set_network_config echo_config w")
  have wc: "both a u wc" "link_up wc = link_up w" using both_config [OF f(2), of echo_config] config_link [of echo_config w] c by simp_all
  have w': "w' = wc \<or> w' = w" using assms(2,3) c by (auto simp: main_call_def part_defs split: if_splits res.splits)
  then have w'': "both a u w'" "link_up w' = link_up w" using wc f(2) by auto
  have m: "handles a (\<not> isl u) m'" "udp_buf (app m') = udp_buf (app m)" "udp_pending (app m') = udp_pending (app m)"
    using assms(2,3) f(1) by (auto simp: main_call_def part_defs split: if_splits res.splits prod.splits)
  have "echo_rel log m' u w'" if "echo_rel log m u w"
  proof (cases "pc m = CheckLink")
    case True
    then have "link_up w" using that by (simp add: echo_rel_def)
    then have "pc m' = TcpStatus" using True assms(2) by (auto simp: main_call_def part_defs)
    then show ?thesis by (intro echo_rel_stays [OF that w''(2) m(2,3)]) (simp_all add: True relaying_def)
  next
    case False
    then have p: "pc m' \<in> arming" "pc m' \<noteq> AwaitLink \<longrightarrow> pc m \<noteq> AwaitLink \<or> link_up w" "pc m \<in> arming"
      using assms(2,3) by (auto simp: main_call_def part_defs arming_def split: if_splits res.splits prod.splits)
    then have "isl u" using that by (simp add: echo_rel_def)
    then show ?thesis using that p w''(2) by (cases u) (auto simp: echo_rel_def)
  qed
  then show ?thesis using f(3,4) m w'' by (intro fineI [of a u]) simp_all
qed

lemma arming_fine:
  assumes "main_ok m" "chip_ok chip SCRATCH (spare m) w" "fine log m w" "main_call (m, w) = Some (r, (m', w'))" "pc m \<in> {ArmTcp, ArmUdp}"
  shows "fine log m' w'"
proof (rule fineE [OF assms(3)])
  fix a u assume f: "handles a (\<not> isl u) m" "both a u w" "length (udp_buf (app m)) = 512" "echo_rel log m u w"
  have idle: "\<not> busy (backend (sockets w ! 0))" "\<not> busy (backend (sockets w ! 1))"
    using assms(2) by (auto simp: chip_ok_def calm_def calm_slot_def list_all2_conv_all_nth)
  show ?thesis
  proof (cases "pc m = ArmTcp")
    case True
    have w': "both True u w'" "link_up w' = link_up w" "handles True (\<not> isl u) m'"
    proof -
      have "both True u w' \<and> link_up w' = link_up w \<and> handles True (\<not> isl u) m'"
      proof (cases a)
        case True
        with both_tcp_calls(4) [of u w] on_socket_link [of 0 tcp_reconnect w] f(1,2) assms(4) \<open>pc m = ArmTcp\<close> show ?thesis
          by (auto simp: main_call_def arm_tcp_def part_defs handles_def simp del: on_socket_link split: res.splits prod.splits)
      next
        case False
        obtain w1 where "open_tcp_listen 5555 (replicate 512 0) (replicate 512 0) w = (Ok 0, w1)" "both True u w1" "link_up w1 = link_up w"
          using both_open_tcp [OF _ idle(1)] f(2) False by auto
        with False f(1) assms(4) \<open>pc m = ArmTcp\<close> show ?thesis
          by (auto simp: main_call_def arm_tcp_def part_defs handles_def split: res.splits prod.splits)
      qed
      then show "both True u w'" "link_up w' = link_up w" "handles True (\<not> isl u) m'" by simp_all
    qed
    have m': "pc m' \<in> {ArmTcp, ArmUdp}" "app m' = app m"
      using True assms(4) by (auto simp: main_call_def arm_tcp_def part_defs split: option.splits res.splits prod.splits)
    then have "echo_rel log m' u w'" if "echo_rel log m u w" using that w'(2) True
      by (cases u) (auto simp: echo_rel_def arming_def)
    then show ?thesis using w'(1,3) f(3,4) m'(2) by (intro fineI [of True u]) simp_all
  next
    case False
    then have p: "pc m = ArmUdp" using assms(5) by simp
    then have a using assms(1) f(1) by (cases a) (auto simp: main_ok_def pc_ok_def handles_def)
    then have b: "both True u w" using f(2) by simp
    show ?thesis
    proof (cases u)
      case (Inl SP)
      obtain S P where SP: "SP = (S, P)" by (cases SP)
      let ?u = "Inr (S, filter (fits 512) P) :: udp_stage"
      obtain w1 where w1: "open_udp 5556 (replicate 512 0) (replicate 512 0) w = (Ok 1, w1)" "both True ?u w1" "link_up w1 = link_up w"
        using both_open_udp [OF b [unfolded Inl SP] idle] by blast
      have w': "w' = w1" "pc m' = CheckLink" "handles True True m'" "app m' = fresh_app (led_on (app m))"
        using w1(1) f(1) \<open>a\<close> assms(4) p Inl
        by (auto simp: main_call_def arm_udp_def part_defs handles_def simp del: One_nat_def)
      moreover have "echo_rel log m' ?u w1" if "echo_rel log m u w" using that w1(3) w' p
        by (simp add: echo_rel_def Inl SP arming_def relaying_def held_dgram_def pend_def fresh_app_def echoing_start)
      ultimately show ?thesis using w1(2) f(4) by (intro fineI [of True ?u]) (simp_all add: fresh_app_def)
    next
      case (Inr AR)
      then show ?thesis using f(4) p by (simp add: echo_rel_def arming_def)
    qed
  qed
qed

lemma fine_open:
  assumes "main_ok m" "fine log m w" "pc m \<notin> arming"
  obtains A R where "tcp_sock m = Some 0" "udp_sock m = Some 1" "handles True True m" "both True (Inr (A, R)) w"
    "length (udp_buf (app m)) = 512" "echo_rel log m (Inr (A, R)) w"
proof (rule fineE [OF assms(2)])
  fix a u assume f: "handles a (\<not> isl u) m" "both a u w" "length (udp_buf (app m)) = 512" "echo_rel log m u w"
  have "a" "\<not> isl u" using assms(1,3) f(1) by (auto simp: main_ok_def pc_ok_def handles_def arming_def split: if_splits)
  then obtain A R where "u = Inr (A, R)" by (cases u) auto
  with f \<open>a\<close> show thesis by (intro that [of A R]) (auto simp: handles_def)
qed

lemma tcp_fine:
  assumes "main_ok m" "fine log m w" "main_call (m, w) = Some (r, (m', w'))" "pc m \<in> {TcpStatus, TcpRefill, TcpPush, TcpRearm}"
  shows "fine log m' w'"
proof -
  have p: "pc m \<in> relaying" "pc m \<notin> arming" using assms(4) by (auto simp: relaying_def arming_def)
  obtain A R where f: "tcp_sock m = Some 0" "udp_sock m = Some 1" "handles True True m" "both True (Inr (A, R)) w"
    "length (udp_buf (app m)) = 512" "echo_rel log m (Inr (A, R)) w"
    using fine_open [OF assms(1,2) p(2)] by blast
  let ?I = "\<lambda>w'. both True (Inr (A, R)) w' \<and> link_up w' = link_up w"
  note calls = both_tcp_calls [OF f(4)]
  have refill: "?I (snd (snd (echo_refill (\<lambda>n. on_socket 0 (tcp_read n)) (app m, w))))"
    by (rule echo_parts(1) [of ?I]) (simp_all add: f(4) calls)
  have push: "?I (snd (snd (echo_push (\<lambda>xs. on_socket 0 (tcp_write xs)) (app m, w))))"
    by (rule echo_parts(2) [of ?I]) (simp_all add: f(4) calls)
  have "?I w' \<and> handles True True m' \<and> udp_buf (app m') = udp_buf (app m) \<and> udp_pending (app m') = udp_pending (app m) \<and> pc m' \<in> relaying"
  proof (cases "pc m")
    case TcpRefill
    then show ?thesis using f(1,3,4) assms(3) refill echo_parts_app(1,2) [of "\<lambda>n. on_socket 0 (tcp_read n)" "app m" w]
      by (auto simp: main_call_def part_defs relaying_def simp del: echo_parts_app split: res.splits prod.splits if_splits)
  next
    case TcpPush
    then show ?thesis using f(1,3,4) assms(3) push echo_parts_app(3,4) [of "\<lambda>xs. on_socket 0 (tcp_write xs)" "app m" w]
      by (auto simp: main_call_def part_defs relaying_def simp del: echo_parts_app split: res.splits prod.splits if_splits)
  next
    case TcpStatus
    then show ?thesis using f(1,3,4) assms(3) calls(3) on_socket_link [of 0 tcp_handle_status w]
      by (auto simp: main_call_def part_defs on_status_def relaying_def simp del: on_socket_link split: res.splits prod.splits if_splits)
  next
    case TcpRearm
    then show ?thesis using f(1,3,4) assms(3) calls(4) on_socket_link [of 0 tcp_reconnect w]
      by (auto simp: main_call_def part_defs relaying_def simp del: on_socket_link split: res.splits prod.splits if_splits)
  qed (use assms(4) in simp_all)
  then show ?thesis using f(5,6) p(1) by (intro fineI [of True "Inr (A, R)"]) (auto intro: echo_rel_stays)
qed

lemma filter_fits: "filter (fits n) log = xs @ ys \<Longrightarrow> d \<in> set ys \<Longrightarrow> fits n d \<and> d \<in> set log"
proof -
  assume a: "filter (fits n) log = xs @ ys" "d \<in> set ys"
  have "d \<in> set (filter (fits n) log)" unfolding a(1) using a(2) by simp
  then show ?thesis by simp
qed

text \<open>After a \<^verbatim>\<open>send_to\<close> the datagram is held exactly if the call answered 0.\<close>

lemma sent_relation:
  assumes "echoing G [(peer, x)] A R" "(k, es) \<in> {(length x, [(peer, x)]), (0, [])}"
  shows "echoing G (if k = 0 then [(peer, x)] else []) (A @ es) R"
  using assms echoing_queued [OF assms(1)] by auto

lemma flush_fine:
  assumes "main_ok m" "fine log m w" "main_call (m, w) = Some (r, (m', w'))" "pc m = UdpFlush"
  shows "fine log m' w'"
proof -
  have p: "pc m \<in> relaying" "pc m \<notin> arming" using assms(4) by (auto simp: relaying_def arming_def)
  obtain A R where f: "tcp_sock m = Some 0" "udp_sock m = Some 1" "handles True True m" "both True (Inr (A, R)) w"
    "length (udp_buf (app m)) = 512" "echo_rel log m (Inr (A, R)) w"
    using fine_open [OF assms(1,2) p(2)] by blast
  show ?thesis
  proof (cases "udp_pending (app m)")
    case None
    then have m': "w' = w" "m' = m\<lparr>pc := UdpRecv\<rparr>" using assms(3,4) f(2) by (auto simp: main_call_def udp_flush_def part_defs)
    have "echo_rel log m' (Inr (A, R)) w" if "echo_rel log m (Inr (A, R)) w" using that None assms(4) m'
      by (simp add: echo_rel_def held_dgram_def arming_def relaying_def)
    then show ?thesis using f m' by (intro fineI [of True "Inr (A, R)"]) simp_all
  next
    case (Some np)
    obtain n peer where np: "np = (n, peer)" by (cases np)
    let ?x = "take n (udp_buf (app m))"
    have n: "n \<le> 512" using assms(1) Some np f(5) by (auto simp: main_ok_def app_fits_def)
    obtain k w1 es where s: "udp_handle_send 1 ?x peer w = (Ok k, w1)" "both True (Inr (A @ es, R)) w1" "link_up w1 = link_up w"
      "(k, es) \<in> {(length ?x, [(peer, ?x)]), (0, [])}"
    proof -
      have "length ?x < 2 ^ 16" using f(5) by simp
      from both_send [OF f(4) this, of peer] show ?thesis using that by blast
    qed
    have m': "w' = w1" "handles True True m'" "udp_buf (app m') = udp_buf (app m)"
      "if k = 0 then pc m' = CheckLink \<and> udp_pending (app m') = Some (n, peer) else pc m' = UdpRecv \<and> udp_pending (app m') = None"
      using assms(3,4) f(2,3,5) s(1) n Some np
      by (auto simp: main_call_def udp_flush_def part_defs unwrap_or_def simp del: One_nat_def split: if_splits)
    have "echo_rel log m' (Inr (A @ es, R)) w'"
    proof -
      have e: "echoing (filter (fits 512) log) [(peer, ?x)] A R" "link_up w" using f(6) assms(4) Some np
        by (simp_all add: echo_rel_def held_dgram_def pend_def)
      show ?thesis using sent_relation [OF e(1) s(4)] e(2) m' s(3)
        by (auto simp: echo_rel_def held_dgram_def pend_def arming_def relaying_def split: if_splits)
    qed
    then show ?thesis using f s(2) m' by (intro fineI [of True "Inr (A @ es, R)"]) simp_all
  qed
qed

lemma fits_512: "fits 512 d \<Longrightarrow> length (snd d) \<le> 512"
  by (simp add: fits_def)

lemma recv_fine:
  assumes "main_ok m" "fine log m w" "main_call (m, w) = Some (r, (m', w'))" "pc m = UdpRecv"
  shows "fine log m' w'"
proof -
  have p: "pc m \<notin> relaying" "pc m \<notin> arming" using assms(4) by (auto simp: relaying_def arming_def)
  obtain A R where f: "tcp_sock m = Some 0" "udp_sock m = Some 1" "handles True True m" "both True (Inr (A, R)) w"
    "length (udp_buf (app m)) = 512" "echo_rel log m (Inr (A, R)) w"
    using fine_open [OF assms(1,2) p(2)] by blast
  obtain x w1 R' where s: "udp_handle_recv 1 512 w = Some (Ok x, w1)" "both True (Inr (A, R')) w1" "link_up w1 = link_up w"
    "case x of None \<Rightarrow> R' = R | Some (out, peer) \<Rightarrow> \<exists>d. R = d # R' \<and> peer = fst d \<and> out = take 512 (snd d)"
    using both_recv [OF f(4), of 512] by blast
  have idle: "udp_pending (app m) = None" "held_dgram m = []" if "echo_rel log m (Inr (A, R)) w"
    using that p assms(4) by (simp_all add: echo_rel_def held_dgram_def pend_def)
  show ?thesis
  proof (cases x)
    case None
    then have m': "w' = w1" "m' = m\<lparr>pc := CheckLink\<rparr>" using assms(3,4) f(2,5) s(1)
      by (simp_all add: main_call_def udp_take_def del: One_nat_def)
    have "echo_rel log m' (Inr (A, R)) w'" if "echo_rel log m (Inr (A, R)) w" using that idle [OF that] m' s(3) assms(4)
      by (simp add: echo_rel_def held_dgram_def pend_def arming_def relaying_def)
    then show ?thesis using f m' s(2,4) None by (intro fineI [of True "Inr (A, R)"]) simp_all
  next
    case (Some y)
    obtain d where d: "R = d # R'" "y = (take 512 (snd d), fst d)" using s(4) Some by (cases y) auto
    let ?x = "take 512 (snd d)"
    let ?b = "copy_at 0 ?x (udp_buf (app m))"
    have m': "w' = w1" "m' = m\<lparr>app := (app m)\<lparr>udp_buf := ?b\<rparr>, pc := UdpSend (length ?x) (fst d)\<rparr>"
      using assms(3,4) f(2,5) s(1) Some d(2)
      by (simp_all add: main_call_def udp_take_def del: One_nat_def)
    have b: "length ?b = 512" "take (length ?x) ?b = ?x" using f(5) by (cases "length (snd d) \<le> 512"; simp add: copy_at_def)+
    have "echo_rel log m' (Inr (A, R')) w'"
    proof -
      have e: "echoing (filter (fits 512) log) [d] A R'" using f(6) idle [OF f(6)] d(1) echoing_take by (simp add: echo_rel_def)
      then obtain Q where "filter (fits 512) log = Q @ d # R'" by (auto simp: echoing_def)
      from filter_fits [OF this, of d] have "?x = snd d" by (simp add: fits_512)
      then show ?thesis using e f(6) b idle [OF f(6)] m' s(3) assms(4)
        by (simp add: echo_rel_def held_dgram_def arming_def relaying_def)
    qed
    then show ?thesis using f m' s(2) b by (intro fineI [of True "Inr (A, R')"]) simp_all
  qed
qed

lemma send_fine:
  assumes "main_ok m" "fine log m w" "main_call (m, w) = Some (r, (m', w'))" "pc m = UdpSend n peer"
  shows "fine log m' w'"
proof -
  have p: "pc m \<notin> relaying" "pc m \<notin> arming" using assms(4) by (auto simp: relaying_def arming_def)
  obtain A R where f: "tcp_sock m = Some 0" "udp_sock m = Some 1" "handles True True m" "both True (Inr (A, R)) w"
    "length (udp_buf (app m)) = 512" "echo_rel log m (Inr (A, R)) w"
    using fine_open [OF assms(1,2) p(2)] by blast
  let ?x = "take n (udp_buf (app m))"
  have n: "n \<le> 512" using assms(1,4) f(5) by (auto simp: main_ok_def pc_ok_def)
  have "length ?x < 2 ^ 16" using f(5) by simp
  then obtain k w1 es where s: "udp_handle_send 1 ?x peer w = (Ok k, w1)" "both True (Inr (A @ es, R)) w1" "link_up w1 = link_up w"
    "(k, es) \<in> {(length ?x, [(peer, ?x)]), (0, [])}"
    using both_send [OF f(4), of ?x peer] by blast
  have m': "w' = w1" "m' = (if k = 0 then m\<lparr>app := (app m)\<lparr>udp_pending := Some (n, peer)\<rparr>, pc := CheckLink\<rparr> else m\<lparr>pc := UdpFlush\<rparr>)"
    using assms(3,4) f(2,5) s(1) n
    by (auto simp: main_call_def udp_give_def part_defs unwrap_or_def simp del: One_nat_def split: if_splits)
  have "echo_rel log m' (Inr (A @ es, R)) w'"
  proof -
    have e: "echoing (filter (fits 512) log) [(peer, ?x)] A R" "link_up w" "udp_pending (app m) = None" using f(6) assms(4) p
      by (simp_all add: echo_rel_def held_dgram_def)
    show ?thesis using sent_relation [OF e(1) s(4)] e(2,3) m' s(3)
      by (auto simp: echo_rel_def held_dgram_def pend_def arming_def relaying_def split: if_splits)
  qed
  then show ?thesis using f s(2) m' by (intro fineI [of True "Inr (A @ es, R)"]) simp_all
qed

lemma main_call_fine:
  assumes "main_ok m" "chip_ok chip SCRATCH (spare m) w" "fine log m w" "main_call (m, w) = Some (r, (m', w'))"
  shows "fine log m' w'"
  using idle_fine [OF assms(3,4)] arming_fine [OF assms] tcp_fine [OF assms(1,3,4)] flush_fine [OF assms(1,3,4)]
    recv_fine [OF assms(1,3,4)] send_fine [OF assms(1,3,4)]
  by (cases "pc m") simp_all

lemma main_call_returns:
  assumes "main_ok m" "fine log m w"
  shows "main_call (m, w) \<noteq> None"
proof (cases "pc m = UdpRecv")
  case True
  then have "pc m \<notin> arming" by (simp add: arming_def)
  from fine_open [OF assms this] obtain A R where f: "udp_sock m = Some 1" "both True (Inr (A, R)) w" by blast
  obtain x w' where "udp_handle_recv 1 (length (udp_buf (app m))) w = Some (Ok x, w')" using both_recv [OF f(2)] by blast
  with True f(1) show ?thesis
    by (auto simp: main_call_def udp_take_def simp del: One_nat_def split: res.splits option.splits)
next
  case False
  then show ?thesis by (cases "pc m") (simp_all add: main_call_def)
qed

subsection \<open>The whole system\<close>

definition soc_ok :: "soc \<Rightarrow> bool" where
  "soc_ok y \<longleftrightarrow> (case soc_board y of (m, f) \<Rightarrow>
     main_ok m \<and> (\<exists>w. CHIP f = Some w \<and> chip_ok chip SCRATCH (spare m) w \<and> fine (taken y) m w))"

lemma fine_isr:
  assumes "fine log m w"
  shows "fine log m (snd (w6100_service chip P w))" "fine log m (snd (dma_complete chip P w))"
proof -
  obtain a u where f: "handles a (\<not> isl u) m" "both a u w" "length (udp_buf (app m)) = 512" "echo_rel log m u w"
    using assms unfolding fine_def by blast
  have "echo_rel log m u w'" if "link_up w \<Longrightarrow> link_up w'" for w' using f(4) that by (auto simp: echo_rel_def)
  then show "fine log m (snd (w6100_service chip P w))" "fine log m (snd (dma_complete chip P w))"
    using f(1,3) both_service [OF f(2)] both_link [OF f(2)] by (blast intro: fineI)+
qed

lemma fine_wire:
  fixes w :: chip_driver
  assumes "fine log m w" "\<And>a u. both a u w \<Longrightarrow> both a (udp_arrived ds u) (on_wire g w)"
  shows "fine (log @ ds) m (on_wire g w)"
proof -
  obtain a u where f: "handles a (\<not> isl u) m" "both a u w" "length (udp_buf (app m)) = 512" "echo_rel log m u w"
    using assms(1) unfolding fine_def by blast
  have "isl (udp_arrived ds u) = isl u" by (cases u) auto
  moreover have "echo_rel (log @ ds) m (udp_arrived ds u) (on_wire g w)"
    using f(4) by (cases u) (auto simp: echo_rel_def echoing_more)
  ultimately show ?thesis using f assms(2) [OF f(2)] by (intro fineI [of a "udp_arrived ds u"]) simp_all
qed

lemma soc_exec_ok:
  assumes "soc_ok y" "soc_event_ok e"
  shows "\<exists>y'. soc_exec e y = Some (Ok (), y') \<and> soc_ok y'"
proof -
  obtain m f where s: "soc_board y = (m, f)" by (cases "soc_board y")
  obtain w where w: "CHIP f = Some w" "main_ok m" "chip_ok chip SCRATCH (spare m) w" "fine (taken y) m w"
    using assms(1) by (auto simp: soc_ok_def s)
  have board: "board_ok chip SCRATCH (m, f)" using w by (auto simp: board_ok_def)
  note ends = chip.board_exec_ends [OF board, of mock_pin]
  have isr: "\<exists>y'. soc_exec (OnBoard e') y = Some (Ok (), y') \<and> soc_ok y'"
    if "board_exec chip mock_pin e' (m, f) = Some (case on_chip_static g fw of (r, f') \<Rightarrow> (r, (m, f')))" "CHIP fw = CHIP f"
      "fine (taken y) m (snd (g w))" for e' g fw
  proof -
    obtain r1 f1 where o: "on_chip_static g fw = (r1, f1)" by (cases "on_chip_static g fw")
    have "CHIP f1 = Some (snd (g w))" using o that(2) w(1)
      by (auto simp: on_chip_static_def ignore_def split: prod.splits res.splits)
    moreover have "r1 = Ok ()" "board_ok chip SCRATCH (m, f1)" using ends that(1) o by auto
    ultimately show ?thesis using that o w s by (auto simp: soc_ok_def board_ok_def)
  qed
  have wire: "soc_ok (y\<lparr>soc_board := on_line g (m, f), taken := taken y @ ds\<rparr>)"
    if "\<And>a u. both a u w \<Longrightarrow> both a (udp_arrived ds u) (on_wire g w)" for g ds
  proof -
    have g: "fine (taken y @ ds) m (on_wire g w)" by (rule fine_wire [OF w(4) that])
    then have "w_inv chip SCRATCH (on_wire g w)" using both_inv by (blast elim: fineE)
    moreover have "calm (spare m) (on_wire g w)" using w(3) by (simp add: chip_ok_def calm_def on_wire_def)
    ultimately show ?thesis using w g by (auto simp: soc_ok_def on_line_def chip_ok_def)
  qed
  show ?thesis
  proof (cases e)
    case (OnBoard be)
    show ?thesis
    proof (cases be)
      case MainRuns
      obtain r m' w' where run: "main_call (m, w) = Some (r, (m', w'))" using main_call_returns [OF w(2,4)] by auto
      have "fine (taken y) m' w'" by (rule main_call_fine [OF w(2-4) run])
      with main_call_ends [OF w(2,3) run] show ?thesis
        using OnBoard MainRuns run w(1) s by (auto simp: soc_ok_def)
    next
      case TimerFires
      then show ?thesis unfolding OnBoard
        by (intro isr [where g = "w6100_service chip mock_pin" and
            fw = "f\<lparr>TIMER := map_option (\<lambda>_. False) (map_option (\<lambda>_. True) (TIMER f))\<rparr>"])
          (simp_all add: TIM2_def isr_service_def bnd_def modify_def fine_isr [OF w(4)])
    next
      case LineFalls
      then show ?thesis unfolding OnBoard
        by (intro isr [where g = "w6100_service chip mock_pin" and
            fw = "f\<lparr>INT_PIN := map_option (\<lambda>_. False) (map_option (\<lambda>_. True) (INT_PIN f))\<rparr>"])
          (simp_all add: EXTI15_10_def isr_service_def bnd_def modify_def fine_isr [OF w(4)])
    next
      case DmaDone
      then show ?thesis unfolding OnBoard
        by (intro isr [where g = "dma_complete chip mock_pin"]) (simp_all add: DMA1_CHANNEL2_def fine_isr [OF w(4)])
    qed
  next
    case (Connects j)
    then show ?thesis using wire [of "[]"] both_peer(1) s by simp
  next
    case (Sends j data)
    then show ?thesis using wire [of "[]"] both_peer(2) s assms(2) by simp
  next
    case (SendsUdp j p data)
    then have j: "j \<noteq> 0" using assms(2) by simp
    obtain c where c: "chip_of w = Some c" using w(4) both_chip by (blast elim: fineE)
    obtain ok c' where p: "peer_send_udp j p data c = (ok, c')" by (cases "peer_send_udp j p data c")
    have "line_chip (m, f) = Some c" using w(1) c by (simp add: line_chip_def)
    then show ?thesis using wire [OF both_peer(3) [OF _ j c p]] p s SendsUdp by simp
  qed
qed

lemma soc_run_ok:
  "soc_ok y \<Longrightarrow> \<forall>e \<in> set es. soc_event_ok e \<Longrightarrow> \<exists>y'. soc_run es y = Some (Ok (), y') \<and> soc_ok y'"
proof (induction es arbitrary: y)
  case (Cons e es)
  obtain y1 where "soc_exec e y = Some (Ok (), y1)" "soc_ok y1" using soc_exec_ok [OF Cons.prems(1), of e] Cons.prems(2)
    unfolding set_simps by blast
  with Cons.IH [of y1] Cons.prems(2) show ?case by auto
qed simp

lemma soc_boots: "\<exists>b. boot_on chip mock_pin chip_new () = Ok b \<and> soc_ok \<lparr>soc_board = b, taken = []\<rparr>"
proof -
  let ?b = "\<lparr>rx_buf = replicate SCRATCH 0, tx_buf = replicate SCRATCH 0, dma_len = 0\<rparr> :: dma_buffers"
  have l: "67 \<le> SCRATCH" "length (rx_buf ?b) = SCRATCH" "length (tx_buf ?b) = SCRATCH" "length main_mac = 6"
    by (simp_all add: scratch_515 main_mac_def)
  obtain w where w: "w6100_new chip mock_pin chip_new () ?b main_mac = Ok w" "chip.w_quiet SCRATCH w"
    "bus_only SCRATCH all_rest (sockets w) (bulk w) w" "\<forall>s \<in> set (sockets w). fresh s"
    using new_on_chip [OF l] by blast
  let ?m = "\<lparr>pc = AwaitLink, tcp_sock = None, udp_sock = None, app = fresh_app False\<rparr>"
  let ?s = "(?m, \<lparr>CHIP = Some w, TIMER = Some False, INT_PIN = Some False\<rparr>)"
  have b: "boot_on chip mock_pin chip_new () = Ok ?s" using w(1) by (simp add: boot_on_def)
  have n: "length (sockets w) = 8" "cell (bulk w) = None" "length (mac w) = 6"
    using w(2,3) by (auto simp: chip.w_quiet_iff rest_ok_def bus_only_def)
  have inv: "w_inv chip SCRATCH w" using w(2) by (simp add: chip.w_quiet_def)
  have free: "is_free (cell (backend (sockets w ! j)))" if "j < 8" for j
    using w(4) n(1) that by (auto simp: fresh_def is_free_def)
  have rest: "tcp_idle ([], []) 0 c" "udp_idle ([], []) 1 c" if "all_rest c" for c
    using that all_rest_udp [OF that, of 1] by (simp_all add: all_rest_def)
  have "bus_any SCRATCH all_rest (transport (cell (device w)))" using w(3) by (simp add: bus_only_def)
  then have "tcp_staged SCRATCH 0 (Inl ([], [])) w" "udp_staged 512 SCRATCH 1 (Inl ([], [])) w"
    using n inv free [of 0] free [of 1] rest
    by (auto simp: flow_def slot_bus_def bus_any_def simp del: tcp_idle.simps udp_idle.simps)
  then have "both False (Inl ([], [])) w" unfolding both_def by (intro conjI exI [of _ "Inl ([], [])"]) simp_all
  then have "fine [] ?m w"
    by (rule fineI [rotated]) (simp_all add: handles_def fresh_app_def echo_rel_def arming_def)
  moreover have "spare ?m = replicate 8 True" by (simp add: spare_def list_eq_iff_nth_eq)
  ultimately have "soc_ok \<lparr>soc_board = ?s, taken = []\<rparr>" using inv new_calm [OF w(1)] fresh_fits
    by (auto simp: soc_ok_def chip_ok_def main_ok_def pc_ok_def)
  with b show ?thesis by blast
qed

text \<open>What the ghosts of the echo say about the chip.\<close>

lemma held_empty: "\<not> nonempty (held_dgram m) \<Longrightarrow> \<exists>peer. held_dgram m = [(peer, [])]"
proof -
  assume n: "\<not> nonempty (held_dgram m)"
  have "held_dgram m = [] \<or> (\<exists>d. held_dgram m = [d])"
    by (cases "pc m"; cases "udp_pending (app m)") (auto simp: held_dgram_def pend_def)
  then obtain d where d: "held_dgram m = [d]" using n by (auto simp: nonempty_def)
  then have "snd d = []" using n by (simp add: nonempty_def)
  then show ?thesis using d by (cases d) auto
qed

lemma fine_observed:
  assumes "fine log m w"
  shows "\<exists>c. chip_of w = Some c \<and>
    (if udp_sock m = None then sent_dgrams c ! 1 = []
     else \<exists>Q k tds rds P. filter (fits 512) log = Q @ held_dgram m @ rds @ filter (fits 512) P \<and>
       udp_ring rds (rx (slot_rings 1 w)) \<and> fifo (srx (csockets c ! 1)) = framed P \<and> udp_ring tds (tx (slot_rings 1 w)) \<and>
       map on_the_wire (Q @ concat (replicate k (held_dgram m))) = sent_dgrams c ! 1 @ in_transit 1 w c @ map on_the_wire tds \<and>
       (\<forall>d \<in> set Q. snd d \<noteq> []) \<and> (k = 0 \<or> (\<exists>peer. held_dgram m = [(peer, [])])))"
proof -
  obtain a u where f: "handles a (\<not> isl u) m" "both a u w" "echo_rel log m u w"
    using assms unfolding fine_def by blast
  show ?thesis
  proof (cases u)
    case (Inl SP)
    obtain S P where SP: "SP = (S, P)" by (cases SP)
    have "udp_staged 512 SCRATCH 1 (Inl (S, P)) w" using f(2) by (simp add: both_def Inl SP)
    from staged_free [OF this] obtain c where "chip_of w = Some c" "udp_chip 1 S P c" by auto
    moreover have "S = []" "udp_sock m = None" using f(1,3) by (simp_all add: echo_rel_def handles_def Inl SP)
    ultimately show ?thesis by (intro exI [of _ c]) (simp add: udp_chip_def udp_sent_def)
  next
    case (Inr AR)
    obtain A R where AR: "AR = (A, R)" by (cases AR)
    have "echoing (filter (fits 512) log) (held_dgram m) A R" "udp_sock m \<noteq> None"
      using f(1,3) by (simp_all add: echo_rel_def handles_def Inr AR)
    then obtain Q k where e: "filter (fits 512) log = Q @ held_dgram m @ R" "A = Q @ concat (replicate k (held_dgram m))"
      "nonempty Q" "k = 0 \<or> \<not> nonempty (held_dgram m)" unfolding echoing_def by blast
    have i: "(1 :: nat) < 8" by simp
    obtain c rds P tds where c: "chip_of w = Some c" "udp_ring rds (rx (slot_rings 1 w))" "fifo (srx (csockets c ! 1)) = framed P"
      "R = rds @ filter (fits 512) P" "udp_ring tds (tx (slot_rings 1 w))"
      "map on_the_wire A = sent_dgrams c ! 1 @ in_transit 1 w c @ map on_the_wire tds"
      using udp_carried_observed [OF i both_open(2) [OF f(2) [unfolded Inr AR]]] by (elim exE conjE) (rule that)
    have "k = 0 \<or> (\<exists>peer. held_dgram m = [(peer, [])])" using e(4) held_empty by blast
    moreover have "\<forall>d \<in> set Q. snd d \<noteq> []" using e(3) by (simp only: nonempty_def)
    ultimately show ?thesis unfolding if_not_P [OF \<open>udp_sock m \<noteq> None\<close>] using c e(1,2)
      by - (rule exI [of _ c], rule conjI, assumption, rule exI [of _ Q], rule exI [of _ k], rule exI [of _ tds],
        rule exI [of _ rds], rule exI [of _ P], simp only: simp_thms)
  qed
qed

lemma soc_end:
  assumes "\<forall>e \<in> set es. soc_event_ok e"
  obtains b y m f w where "boot_on chip mock_pin chip_new () = Ok b" "soc_run es \<lparr>soc_board = b, taken = []\<rparr> = Some (Ok (), y)"
    "soc_board y = (m, f)" "CHIP f = Some w" "main_ok m" "fine (taken y) m w"
proof -
  obtain b y where s: "boot_on chip mock_pin chip_new () = Ok b" "soc_run es \<lparr>soc_board = b, taken = []\<rparr> = Some (Ok (), y)" "soc_ok y"
    using soc_boots soc_run_ok [OF _ assms] by blast
  obtain m f where m: "soc_board y = (m, f)" by (cases "soc_board y")
  obtain w where "CHIP f = Some w" "main_ok m" "fine (taken y) m w" using s(3) m by (auto simp: soc_ok_def)
  with s(1,2) m show thesis by (rule that)
qed

subsection \<open>Properties\<close>

text \<open>
  C8. Every call of the firmware returns. The firmware boots on the chip model; then, whatever
  its peers do and in whatever order \<^verbatim>\<open>main\<close> and the timer, pin and DMA interrupts run, no call of
  \<^verbatim>\<open>main\<close> spins and none panics. TCP has slot 0 and UDP slot 1 from the moment they are opened, and the
  rings of the UDP slot hold whole datagrams at every moment, also across a re-arming and
  while a transfer is in flight.
\<close>

theorem firmware_returns_on_chip:
  assumes "\<forall>e \<in> set es. soc_event_ok e"
  shows "\<exists>b y m f w. boot_on chip mock_pin chip_new () = Ok b \<and> soc_run es \<lparr>soc_board = b, taken = []\<rparr> = Some (Ok (), y) \<and>
    soc_board y = (m, f) \<and> CHIP f = Some w \<and> tcp_sock m \<in> {None, Some 0} \<and> udp_sock m \<in> {None, Some 1} \<and>
    (udp_sock m \<noteq> None \<longrightarrow> (\<exists>rds tds. udp_ring rds (rx (slot_rings 1 w)) \<and> udp_ring tds (tx (slot_rings 1 w))))"
proof -
  obtain b y m f w where s: "boot_on chip mock_pin chip_new () = Ok b" "soc_run es \<lparr>soc_board = b, taken = []\<rparr> = Some (Ok (), y)"
    "soc_board y = (m, f)" "CHIP f = Some w" "fine (taken y) m w" by (rule soc_end [OF assms])
  obtain a u where h: "handles a (\<not> isl u) m" "both a u w" using s(5) unfolding fine_def by blast
  have "\<exists>rds tds. udp_ring rds (rx (slot_rings 1 w)) \<and> udp_ring tds (tx (slot_rings 1 w))" if "udp_sock m \<noteq> None"
  proof -
    have "\<not> isl u" using that h(1) by (simp add: handles_def split: if_splits)
    then obtain A R where "u = Inr (A, R)" by (cases u) auto
    with h(2) have "both a (Inr (A, R)) w" by simp
    then have "udp_carried 512 SCRATCH 1 A R w" by (rule both_open(2))
    from udp_slot [OF this] show ?thesis by (auto simp: udp_view_def)
  qed
  moreover have "tcp_sock m \<in> {None, Some 0}" "udp_sock m \<in> {None, Some 1}" using h(1) by (auto simp: handles_def split: if_splits)
  ultimately show ?thesis using s(1-4) by blast
qed

text \<open>The link comes up, both sockets are opened, a datagram arrives and is echoed.\<close>

definition soc_demo :: "soc_event list" where
  "soc_demo = replicate 2 (OnBoard TimerFires) @ replicate 4 (OnBoard MainRuns) @ replicate 2 (OnBoard TimerFires) @
     [SendsUdp 1 \<lparr>ip = 7, port = 9\<rparr> [1, 2, 3], OnBoard LineFalls, OnBoard DmaDone] @ replicate 6 (OnBoard MainRuns) @
     [OnBoard LineFalls, OnBoard DmaDone]"

lemma soc_demo_ok: "\<forall>e \<in> set soc_demo. soc_event_ok e"
  by (auto simp: soc_demo_def)

theorem firmware_returns_on_chip_witness:
  "\<exists>b y m f. boot_on chip mock_pin chip_new () = Ok b \<and> soc_run soc_demo \<lparr>soc_board = b, taken = []\<rparr> = Some (Ok (), y) \<and>
     soc_board y = (m, f) \<and> tcp_sock m \<in> {None, Some 0} \<and> udp_sock m \<in> {None, Some 1}"
  using firmware_returns_on_chip [OF soc_demo_ok] by blast

text \<open>
  C4. The UDP echo of the firmware, from boot to wire. Boot the firmware on the chip and let \<^verbatim>\<open>main\<close>, the interrupts
  and the peers act in any order (segments go to TCP sockets, datagrams to UDP sockets). Take the
  datagrams the chip took in for the UDP socket, less those that the receive ring of 512 bytes can
  never hold. They are, in order: those echoed (\<open>Q\<close>, none of them empty), the one \<^verbatim>\<open>main\<close> holds, those
  in the receive ring, those in the chip's FIFO. What went out on the wire, with its destinations,
  followed by a datagram in flight and those in the transmit ring, is exactly \<open>Q\<close>: nothing is lost,
  repeated, cut or sent to another peer. The one exception is an empty datagram: once \<^verbatim>\<open>main\<close> holds
  one, copies of it may follow \<open>Q\<close>, as \<open>udp_echo_stuck_on_empty\<close> shows they do.
\<close>

theorem udp_echo_on_chip:
  assumes "\<forall>e \<in> set es. soc_event_ok e"
  shows "\<exists>b y m f w c. boot_on chip mock_pin chip_new () = Ok b \<and> soc_run es \<lparr>soc_board = b, taken = []\<rparr> = Some (Ok (), y) \<and>
    soc_board y = (m, f) \<and> CHIP f = Some w \<and> chip_of w = Some c \<and>
    (if udp_sock m = None then sent_dgrams c ! 1 = []
     else \<exists>Q k tds rds P. filter (fits 512) (taken y) = Q @ held_dgram m @ rds @ filter (fits 512) P \<and>
       udp_ring rds (rx (slot_rings 1 w)) \<and> fifo (srx (csockets c ! 1)) = framed P \<and> udp_ring tds (tx (slot_rings 1 w)) \<and>
       map on_the_wire (Q @ concat (replicate k (held_dgram m))) = sent_dgrams c ! 1 @ in_transit 1 w c @ map on_the_wire tds \<and>
       (\<forall>d \<in> set Q. snd d \<noteq> []) \<and> (k = 0 \<or> (\<exists>peer. held_dgram m = [(peer, [])])))"
proof -
  obtain b y m f w where s: "boot_on chip mock_pin chip_new () = Ok b" "soc_run es \<lparr>soc_board = b, taken = []\<rparr> = Some (Ok (), y)"
    "soc_board y = (m, f)" "CHIP f = Some w" "main_ok m" "fine (taken y) m w" by (rule soc_end [OF assms])
  obtain c where c: "chip_of w = Some c" "(if udp_sock m = None then sent_dgrams c ! 1 = []
     else \<exists>Q k tds rds P. filter (fits 512) (taken y) = Q @ held_dgram m @ rds @ filter (fits 512) P \<and>
       udp_ring rds (rx (slot_rings 1 w)) \<and> fifo (srx (csockets c ! 1)) = framed P \<and> udp_ring tds (tx (slot_rings 1 w)) \<and>
       map on_the_wire (Q @ concat (replicate k (held_dgram m))) = sent_dgrams c ! 1 @ in_transit 1 w c @ map on_the_wire tds \<and>
       (\<forall>d \<in> set Q. snd d \<noteq> []) \<and> (k = 0 \<or> (\<exists>peer. held_dgram m = [(peer, [])])))"
    using fine_observed [OF s(6)] by blast
  show ?thesis
    by (rule exI [of _ b], rule exI [of _ y], rule exI [of _ m], rule exI [of _ f], rule exI [of _ w], rule exI [of _ c],
      intro conjI, rule s(1), rule s(2), rule s(3), rule s(4), rule c(1), rule c(2))
qed

theorem udp_echo_on_chip_witness:
  "\<exists>b y m f w c. boot_on chip mock_pin chip_new () = Ok b \<and> soc_run soc_demo \<lparr>soc_board = b, taken = []\<rparr> = Some (Ok (), y) \<and>
    soc_board y = (m, f) \<and> CHIP f = Some w \<and> chip_of w = Some c \<and>
    (if udp_sock m = None then sent_dgrams c ! 1 = []
     else \<exists>Q k tds rds P. filter (fits 512) (taken y) = Q @ held_dgram m @ rds @ filter (fits 512) P \<and>
       udp_ring rds (rx (slot_rings 1 w)) \<and> fifo (srx (csockets c ! 1)) = framed P \<and> udp_ring tds (tx (slot_rings 1 w)) \<and>
       map on_the_wire (Q @ concat (replicate k (held_dgram m))) = sent_dgrams c ! 1 @ in_transit 1 w c @ map on_the_wire tds \<and>
       (\<forall>d \<in> set Q. snd d \<noteq> []) \<and> (k = 0 \<or> (\<exists>peer. held_dgram m = [(peer, [])])))"
  by (rule udp_echo_on_chip [OF soc_demo_ok])

end
