(* ===== verification/Cell_Guards.thy ===== *)
theory Cell_Guards
  imports Atomic_Cell
begin

text \<open>
  The guards of \<^verbatim>\<open>wiznet-rs/src/atomic_cell.rs\<close> as values that live beside the cell, in any number of
  places (the locals of interrupt handlers and of the application). The cell is \<^verbatim>\<open>Sync\<close> by an
  \<^verbatim>\<open>unsafe impl\<close>; shown is what makes it sound: the flag leaves no room for a second reference.
\<close>

subsection \<open>Guards\<close>

text \<open>\<^verbatim>\<open>AtomicCellGuard\<close> and \<^verbatim>\<open>MutAtomicCellGuard\<close>; both refer to the value and to the flag.\<close>

datatype cell_guard = SharedGuard | MutGuard

text \<open>\<^verbatim>\<open>lock\<close> takes the same flag as \<^verbatim>\<open>lock_mut\<close> and gives out a shared reference.\<close>

definition lock_shared :: "'a atomic_cell \<Rightarrow> (atomic_error + 'a) \<times> 'a atomic_cell" where
  "lock_shared c =
     (case try_lock_internal c of
        (Inl e, c') \<Rightarrow> (Inl e, c')
      | (Inr _, c') \<Rightarrow> (Inr (cell c'), c'))"

text \<open>\<^verbatim>\<open>as_ref\<close> of both guards, \<^verbatim>\<open>as_mut\<close> with a store through it, and \<^verbatim>\<open>Drop\<close> of both.\<close>

definition guard_as_ref :: "'a atomic_cell \<Rightarrow> 'a" where
  "guard_as_ref c = cell c"

definition guard_as_mut :: "'a \<Rightarrow> 'a atomic_cell \<Rightarrow> 'a atomic_cell" where
  "guard_as_mut v c = c\<lparr>cell := v\<rparr>"

definition guard_drop :: "'a atomic_cell \<Rightarrow> 'a atomic_cell" where
  "guard_drop c = c\<lparr>busy := False\<rparr>"

subsection \<open>Places and calls\<close>

type_synonym 'a places = "'a atomic_cell \<times> (nat \<rightharpoonup> cell_guard)"

datatype 'a cell_call = Lock nat | LockMut nat | AsRef nat | AsMut nat 'a | DropGuard nat

datatype 'a cell_answer = Held | Refused atomic_error | Seen 'a | Done

definition keep_guard ::
  "nat \<Rightarrow> cell_guard \<Rightarrow> (atomic_error + 'a) \<times> 'a atomic_cell \<Rightarrow> (nat \<rightharpoonup> cell_guard) \<Rightarrow> 'a cell_answer \<times> 'a places" where
  "keep_guard p g l gs = (case l of (Inl e, c) \<Rightarrow> (Refused e, (c, gs)) | (Inr _, c) \<Rightarrow> (Held, (c, gs(p \<mapsto> g))))"

text \<open>\<open>None\<close> is a program that does not compile: a guard is used only where there is one, and only \<^verbatim>\<open>MutAtomicCellGuard\<close> has \<^verbatim>\<open>as_mut\<close>.\<close>

fun cell_exec :: "'a cell_call \<Rightarrow> 'a places \<Rightarrow> ('a cell_answer \<times> 'a places) option" where
  "cell_exec (Lock p) (c, gs) = (if gs p = None then Some (keep_guard p SharedGuard (lock_shared c) gs) else None)"
| "cell_exec (LockMut p) (c, gs) = (if gs p = None then Some (keep_guard p MutGuard (lock_mut c) gs) else None)"
| "cell_exec (AsRef p) (c, gs) = (if gs p = None then None else Some (Seen (guard_as_ref c), (c, gs)))"
| "cell_exec (AsMut p v) (c, gs) = (if gs p = Some MutGuard then Some (Done, (guard_as_mut v c, gs)) else None)"
| "cell_exec (DropGuard p) (c, gs) = (if gs p = None then None else Some (Done, (guard_drop c, gs(p := None))))"

fun cell_run :: "'a cell_call list \<Rightarrow> 'a places \<Rightarrow> ('a cell_answer list \<times> 'a places) option" where
  "cell_run [] s = Some ([], s)"
| "cell_run (e # es) s =
     (case cell_exec e s of
        None \<Rightarrow> None
      | Some (a, s') \<Rightarrow> map_option (\<lambda>(as, s''). (a # as, s'')) (cell_run es s'))"

subsection \<open>One reference at a time\<close>

definition guards_ok :: "'a places \<Rightarrow> bool" where
  "guards_ok s \<longleftrightarrow> (if busy (fst s) then \<exists>p g. snd s = [p \<mapsto> g] else snd s = Map.empty)"

lemmas guard_defs = keep_guard_def lock_shared_def lock_mut_def try_lock_internal_def guard_as_mut_def guard_drop_def guard_as_ref_def

lemma one_guard [simp]: "\<exists>p' g'. [p \<mapsto> g] = [p' \<mapsto> g']"
  by blast

lemma cell_exec_ok: "cell_exec e s = Some (a, s') \<Longrightarrow> guards_ok s \<Longrightarrow> guards_ok s'"
  by (cases s; cases e) (auto simp: guards_ok_def guard_defs split: if_splits)

lemma cell_run_ok: "cell_run es s = Some (as, s') \<Longrightarrow> guards_ok s \<Longrightarrow> guards_ok s'"
  by (induction es arbitrary: s as) (auto split: option.splits dest: cell_exec_ok)

text \<open>The stores of a run, and its attempts to lock with their answers.\<close>

definition stores :: "'a cell_call list \<Rightarrow> 'a list" where
  "stores es = concat (map (\<lambda>e. case e of AsMut _ v \<Rightarrow> [v] | _ \<Rightarrow> []) es)"

definition lock_answers :: "'a cell_call list \<Rightarrow> 'a cell_answer list \<Rightarrow> 'a cell_answer list" where
  "lock_answers es as = map snd (filter (\<lambda>(e, a). case e of Lock _ \<Rightarrow> True | LockMut _ \<Rightarrow> True | _ \<Rightarrow> False) (zip es as))"

lemma held_step:
  assumes "cell_exec e (c, [p \<mapsto> g]) = Some (a, (c', gs'))" "busy c" "e \<noteq> DropGuard p"
  shows "gs' = [p \<mapsto> g] \<and> busy c' \<and> cell c' = last (cell c # stores [e]) \<and> (stores [e] \<noteq> [] \<longrightarrow> g = MutGuard \<and> e = AsMut p (cell c')) \<and>
    set (lock_answers [e] [a]) \<subseteq> {Refused Busy}"
  using assms by (cases e) (auto simp: guard_defs stores_def lock_answers_def split: if_splits)

lemma held_run:
  assumes "cell_run es (c, [p \<mapsto> g]) = Some (as, (c', gs'))" "busy c" "DropGuard p \<notin> set es"
  shows "gs' = [p \<mapsto> g] \<and> busy c' \<and> cell c' = last (cell c # stores es) \<and> (stores es \<noteq> [] \<longrightarrow> g = MutGuard) \<and>
    set (lock_answers es as) \<subseteq> {Refused Busy}"
  using assms
proof (induction es arbitrary: c as)
  case Nil
  then show ?case by (simp add: stores_def lock_answers_def)
next
  case (Cons e es)
  have "cell_exec e (c, [p \<mapsto> g]) \<noteq> None"
    using Cons.prems(1) by (intro notI) (simp only: cell_run.simps option.case option.distinct)
  then obtain x where x: "cell_exec e (c, [p \<mapsto> g]) = Some x" by blast
  obtain a c1 gs1 where "x = (a, (c1, gs1))" by (metis prod_cases3)
  with x have e: "cell_exec e (c, [p \<mapsto> g]) = Some (a, (c1, gs1))" by (simp only:)
  have "e \<noteq> DropGuard p" and d: "DropGuard p \<notin> set es" using Cons.prems(3) by auto
  from held_step [OF e Cons.prems(2) this(1)] have h: "gs1 = [p \<mapsto> g]" "busy c1" "cell c1 = last (cell c # stores [e])"
    "stores [e] \<noteq> [] \<longrightarrow> g = MutGuard" "set (lock_answers [e] [a]) \<subseteq> {Refused Busy}" by blast+
  have "map_option (\<lambda>(as, s''). (a # as, s'')) (cell_run es (c1, [p \<mapsto> g])) = Some (as, (c', gs'))"
    using Cons.prems(1) unfolding cell_run.simps e option.case prod.case h(1) .
  then obtain as1 where r: "cell_run es (c1, [p \<mapsto> g]) = Some (as1, (c', gs'))" "as = a # as1"
    by (cases "cell_run es (c1, [p \<mapsto> g])") (simp_all del: fun_upd_apply split: prod.splits)
  note ih = Cons.IH [OF r(1) h(2) d]
  have "stores (e # es) = stores [e] @ stores es" "lock_answers (e # es) as = lock_answers [e] [a] @ lock_answers es as1"
    by (simp_all add: stores_def lock_answers_def r(2))
  then show ?case using ih h(3-5) by (cases "stores es") (simp_all del: fun_upd_apply)
qed

text \<open>
  C31. A guard is the only reference. In any run of calls on a cell, from any number of places,
  the flag is set exactly while one guard lives, and there is never a second one. As long as it
  lives every attempt to lock, shared or not, is refused with \<^verbatim>\<open>Busy\<close>; the value behind it changes
  only by its own stores, so not at all behind a shared guard; and when it is dropped the cell
  is free.
\<close>

theorem guard_is_only_reference:
  assumes "cell_run es (cell_new v, Map.empty) = Some (as, (c, gs))"
  shows "(if busy c then \<exists>p g. gs = [p \<mapsto> g] else gs = Map.empty) \<and>
    (\<forall>p g es' as' c' gs'. gs p = Some g \<longrightarrow> cell_run es' (c, gs) = Some (as', (c', gs')) \<longrightarrow> DropGuard p \<notin> set es' \<longrightarrow>
       gs' = [p \<mapsto> g] \<and> set (lock_answers es' as') \<subseteq> {Refused Busy} \<and>
       cell c' = last (cell c # stores es') \<and> (g = SharedGuard \<longrightarrow> cell c' = cell c) \<and>
       cell_exec (DropGuard p) (c', gs') = Some (Done, (c'\<lparr>busy := False\<rparr>, Map.empty)))"
proof -
  have "guards_ok (c, gs)" by (rule cell_run_ok [OF assms]) (simp add: guards_ok_def cell_new_def)
  then have one: "if busy c then \<exists>p g. gs = [p \<mapsto> g] else gs = Map.empty" by (simp only: guards_ok_def fst_conv snd_conv)
  moreover have "gs' = [p \<mapsto> g] \<and> set (lock_answers es' as') \<subseteq> {Refused Busy} \<and>
       cell c' = last (cell c # stores es') \<and> (g = SharedGuard \<longrightarrow> cell c' = cell c) \<and>
       cell_exec (DropGuard p) (c', gs') = Some (Done, (c'\<lparr>busy := False\<rparr>, Map.empty))"
    if "gs p = Some g" "cell_run es' (c, gs) = Some (as', (c', gs'))" "DropGuard p \<notin> set es'" for p g es' as' c' gs'
  proof -
    have "busy c" "gs = [p \<mapsto> g]" using one that(1) by (auto split: if_splits)
    with held_run [OF _ _ that(3), of c g as' c' gs'] that(2) show ?thesis by (cases "stores es'") (auto simp: guard_drop_def)
  qed
  ultimately show ?thesis by blast
qed

theorem guard_is_only_reference_witness:
  "\<exists>c gs. cell_run [LockMut 1, AsMut 1 (5 :: nat), LockMut 2, DropGuard 1, Lock 2] (cell_new 3, Map.empty) =
      Some ([Held, Done, Refused Busy, Done, Held], (c, gs)) \<and> gs = [2 \<mapsto> SharedGuard] \<and>
    cell_run [LockMut 3, AsRef 2] (c, gs) = Some ([Refused Busy, Seen 5], (c, gs))"
proof -
  let ?es = "[LockMut 1, AsMut 1 (5 :: nat), LockMut 2, DropGuard 1, Lock 2]"
  let ?c = "\<lparr>cell = 5 :: nat, busy = True\<rparr>" and ?gs = "(Map.empty(1 := Some MutGuard, 1 := None)) (2 := Some SharedGuard)"
  have r: "cell_run ?es (cell_new 3, Map.empty) = Some ([Held, Done, Refused Busy, Done, Held], (?c, ?gs))"
    by (simp add: guard_defs cell_new_def)
  have "?gs = [2 \<mapsto> SharedGuard]" using guard_is_only_reference [OF r] by (auto simp: fun_eq_iff split: if_splits)
  moreover have "cell_run [LockMut 3, AsRef 2] (?c, ?gs) = Some ([Refused Busy, Seen 5], (?c, ?gs))"
    by (simp add: guard_defs)
  ultimately show ?thesis using r by blast
qed

text \<open>A scope of \<^verbatim>\<open>lock_mut\<close> as the driver models it is lock, stores, drop.\<close>

lemma scope_is_guard:
  assumes "\<not> busy c" "gs p = None" "m (cell c) = (r, v)"
  shows "\<exists>c'. locked m c = (r, c') \<and> cell_run [LockMut p, AsRef p, AsMut p v, DropGuard p] (c, gs) = Some ([Held, Seen (cell c), Done, Done], (c', gs))"
  using assms by (auto simp: locked_free guard_defs fun_upd_idem)

end
