(* ===== verification/Clear_Race.thy ===== *)
theory Clear_Race
  imports Echo_App
begin

text \<open>
  \<^verbatim>\<open>SpscRing::clear\<close> is four stores, and its comment allows it only while nobody moves bytes
  through the ring. \<^verbatim>\<open>TcpSocket::reconnect\<close> calls it with the cell of its slot locked, but
  \<^verbatim>\<open>dma_complete\<close> does not take that lock: it reaches the rings of the slot directly. This theory
  interrupts a \<^verbatim>\<open>reconnect\<close> between two of those stores by the completion of a bulk receive.
\<close>

subsection \<open>Clearing store by store\<close>

text \<open>The ring after the first \<open>k\<close> stores of \<^verbatim>\<open>clear\<close>.\<close>

definition clear_upto :: "nat \<Rightarrow> spsc_ring \<Rightarrow> spsc_ring" where
  "clear_upto k r = fold (\<lambda>store. store) (take k
     [\<lambda>r. r\<lparr>head := 0\<rparr>, \<lambda>r. r\<lparr>frames_out := 0\<rparr>, \<lambda>r. r\<lparr>frames_in := 0\<rparr>, \<lambda>r. r\<lparr>tail := 0\<rparr>]) r"

lemma clear_upto_all: "clear_upto 0 r = r" "clear_upto 4 r = ring_clear r"
  by (simp_all add: clear_upto_def ring_clear_def)

lemma clear_upto_mid:
  assumes "0 < k" "k < 4"
  shows "head (clear_upto k r) = 0 \<and> tail (clear_upto k r) = tail r \<and> cap (clear_upto k r) = cap r"
proof -
  have "k = 1 \<or> k = 2 \<or> k = 3" using assms by auto
  then show ?thesis by (auto simp: clear_upto_def eval_nat_numeral)
qed

lemma write_panics: "cap r < unat (tail r - head r) \<Longrightarrow> cap r \<noteq> 0 \<Longrightarrow> ring_write xs r = (Panic, r)"
  by (simp add: ring_write_def)

subsection \<open>A reconnect preempted by a completion\<close>

text \<open>
  \<^verbatim>\<open>reconnect\<close> under way: its guard holds the slot, the machine is re-armed and \<open>k\<close> stores of
  \<^verbatim>\<open>rings.rx.clear()\<close> are done.
\<close>

definition mid_reconnect :: "nat \<Rightarrow> socket \<Rightarrow> socket" where
  "mid_reconnect k s =
     (case bk_state (cell (backend s)) of
        BTcp t \<Rightarrow> s\<lparr>backend := \<lparr>cell = (cell (backend s))\<lparr>bk_state := BTcp (tcp_rearm t)\<rparr>, busy = True\<rparr>,
                    sock_rings := (sock_rings s)\<lparr>rx := clear_upto k (rx (sock_rings s))\<rparr>\<rparr>
      | _ \<Rightarrow> s)"

text \<open>What is left to do from there gives the outcome of \<open>tcp_reconnect\<close>.\<close>

lemma mid_reconnect_completes:
  assumes "\<not> busy (backend s)" "bk_state (cell (backend s)) = BTcp t"
  shows "tcp_reconnect s = (Ok (), (mid_reconnect 4 s)
    \<lparr>backend := (backend (mid_reconnect 4 s))\<lparr>busy := False\<rparr>,
     sock_rings := (sock_rings (mid_reconnect 4 s))\<lparr>tx := ring_clear (tx (sock_rings s))\<rparr>\<rparr>)"
  using assms by (cases "backend s") (simp add: tcp_reconnect_def mid_reconnect_def rings_clear_def clear_upto_all)

text \<open>
  C39. Clearing the rings under a transfer is a panic waiting to happen. Take any driver in its
  invariant with a bulk receive recorded for a TCP slot whose tail counter has passed the
  capacity of its receive ring. Completing the transfer succeeds; but if the interrupt comes
  after the first store of \<^verbatim>\<open>clear\<close> and before the last one, the ring shows more bytes than its
  capacity, the subtraction of \<^verbatim>\<open>write\<close> underflows, and \<^verbatim>\<open>dma_complete\<close> panics.
\<close>

theorem clear_preempted_panics:
  assumes "spi_contract D" "w_inv D L w" "cell (bulk w) = Some op" "op_kind op \<noteq> BulkTransmit"
    "bk_state (cell (backend (sockets w ! op_idx op))) = BTcp t"
    "cap (rx (slot_rings (op_idx op) w)) < unat (tail (rx (slot_rings (op_idx op) w)))"
    "0 < k" "k < 4"
  shows "fst (dma_complete D P w) = Ok () \<and>
    fst (dma_complete D P (w\<lparr>sockets := (sockets w)[op_idx op := mid_reconnect k (sockets w ! op_idx op)]\<rparr>)) = Panic"
proof
  show "fst (dma_complete D P w) = Ok ()"
    using spi_contract.dma_complete_spec [OF assms(1,2), of P] by (auto simp: wp_def split: prod.splits)
  let ?i = "op_idx op" and ?q = "slot_rings (op_idx op) w" and ?t = "transport (cell (device w))"
  let ?s = "mid_reconnect k (sockets w ! ?i)"
  let ?w = "w\<lparr>sockets := (sockets w)[?i := ?s]\<rparr>"
  have w: "?i < length (sockets w)" "\<not> busy (device w)" "\<not> busy (bulk w)" "in_flight D L ?t" "HEADER + op_bytes op \<le> L"
    "bulk_need (op_kind op) (op_bytes op) \<le> free_space (rx ?q)" "0 < op_bytes op"
    using assms(2,3) by (auto simp: w_inv_def rest_ok_def op_ok_def slot_rings_def)
  have "0 < bulk_need (op_kind op) (op_bytes op)" using w(7) assms(4) by (cases "op_kind op") (auto simp: FRAME_HEADER_def)
  then have c: "cap (rx ?q) \<noteq> 0" using w(6) by (auto simp: free_space_def)
  let ?r = "clear_upto k (rx ?q)"
  have pan: "ring_write xs ?r = (Panic, ?r)" for xs
    by (rule write_panics) (use clear_upto_mid [OF assms(7,8), of "rx ?q"] assms(6) c in simp_all)
  obtain payload t1 where f: "finish_read D (op_bytes op) ?t = (Ok payload, t1)"
    using spi_contract.finish_read_in_flight [OF assms(1) w(4) _ w(5)] by (cases "finish_read D (op_bytes op) ?t") blast
  have "fst (finish_bulk D op (?t, ?q\<lparr>rx := ?r\<rparr>)) = Panic"
    using assms(4) pan f by (cases "op_kind op") (auto simp: finish_bulk_def Let_def bnd_def deliver_def bus_def zoom_def)
  then have "fst (with_device (finish_body D op) ?w) = Panic"
    using w(1,2) by (auto simp: with_device_def lock_mut_def try_lock_internal_def finish_body_def mid_reconnect_def assms(5) slot_rings_def split: prod.split)
  then show "fst (dma_complete D P ?w) = Panic"
    using w(3) assms(3) by (auto simp: dma_complete_def bnd_def ignore_def split: prod.split res.split)
qed

text \<open>The tiny driver after eight bytes have passed through its receive ring.\<close>

definition used_slot :: socket where
  "used_slot = tiny_slot\<lparr>sock_rings := (sock_rings tiny_slot)\<lparr>rx := (rx (sock_rings tiny_slot))\<lparr>head := 8, tail := 8\<rparr>\<rparr>\<rparr>"

definition used_w :: "(chip_state, chip_state \<times> dma_buffers, unit) w6100" where
  "used_w = tiny_w\<lparr>sockets := (sockets tiny_w)[0 := used_slot]\<rparr>"

lemma used_w_inv: "w_inv chip 16 used_w"
proof -
  have "free_space (rx (sock_rings tiny_slot)) = 4" "free_space (rx (sock_rings used_slot)) = 4" by code_simp+
  moreover have "(4 :: nat) dvd 2 ^ 32" by (rule dvdI [of _ _ "2 ^ 30"]) simp
  then have "rings_inv (sock_rings used_slot)"
    by (simp add: used_slot_def tiny_slot_def rings_inv_def rings_install_def rings_new_def ring_inv_install
        ring_inv_def ring_ok_def ring_install_def ring_len_def no_wrap_def)
  ultimately have "sock_step (sockets tiny_w ! 0) used_slot"
    by (simp add: tiny_w_def sock_step_def) (simp add: used_slot_def)
  then show ?thesis unfolding used_w_def by (intro w_inv_update [OF tiny_w_inv]) auto
qed

theorem clear_preempted_panics_witness:
  "fst (dma_complete chip mock_pin used_w) = Ok () \<and>
   fst (dma_complete chip mock_pin (used_w\<lparr>sockets := (sockets used_w)[0 := mid_reconnect 1 used_slot]\<rparr>)) = Panic"
proof -
  have op: "cell (bulk used_w) = Some tiny_op" "op_idx tiny_op = 0" "op_kind tiny_op = BulkReceive" "sockets used_w ! 0 = used_slot"
    by (simp_all add: used_w_def tiny_w_def tiny_op_def cell_new_def)
  have t: "bk_state (cell (backend used_slot)) = BTcp tiny_tcp"
    by (simp add: used_slot_def tiny_slot_def claim_tcp_def backend_new_def is_free_def cell_new_def)
  have c: "cap (rx (slot_rings 0 used_w)) < unat (tail (rx (slot_rings 0 used_w)))" by code_simp
  show ?thesis
    using clear_preempted_panics [OF chip.spi_contract_axioms used_w_inv op(1), of tiny_tcp 1 mock_pin] t c op by simp
qed

end
