(* ===== verification/Unit_Tests.thy ===== *)
theory Unit_Tests
  imports Spi_Contract Spsc_Ring
begin

text \<open>
  The unit tests of \<^verbatim>\<open>spsc_ring.rs\<close> and \<^verbatim>\<open>transiver.rs\<close> as programs over the model, each under the
  name it has there: an assertion that fails is a \<open>Panic\<close>. They all pass, which ties the model
  to what the authors checked of the code. The streaming test is proved for every capacity and
  number of rounds.
\<close>

subsection \<open>Assertions\<close>

definition check :: "bool \<Rightarrow> ('s, unit) sm" where
  "check b = (if b then ret () else panic)"

text \<open>\<^verbatim>\<open>result.unwrap()\<close> and \<^verbatim>\<open>result.unwrap_err()\<close>.\<close>

definition unwrapped :: "('s, 'a) sm \<Rightarrow> ('s, 'a) sm" where
  "unwrapped m s = (case m s of (Err _, s') \<Rightarrow> (Panic, s') | (r, s') \<Rightarrow> (r, s'))"

definition unwrapped_err :: "('s, 'a) sm \<Rightarrow> ('s, error) sm" where
  "unwrapped_err m s = (case m s of (Err e, s') \<Rightarrow> (Ok e, s') | (_, s') \<Rightarrow> (Panic, s'))"

subsection \<open>The tests of the ring\<close>

definition ring_with :: "nat \<Rightarrow> spsc_ring" where
  "ring_with n = ring_install (replicate n 0) ring_new"

text \<open>A read into a fresh array of zeros: the count and the array.\<close>

definition read_zeroed :: "nat \<Rightarrow> (spsc_ring, nat \<times> bytes) sm" where
  "read_zeroed n = bnd (ring_read n) (\<lambda>xs. ret (length xs, copy_at 0 xs (replicate n 0)))"

definition peek_zeroed :: "nat \<Rightarrow> (spsc_ring, nat \<times> bytes) sm" where
  "peek_zeroed n = bnd (ring_peek n) (\<lambda>xs. ret (length xs, copy_at 0 xs (replicate n 0)))"

definition len_is :: "nat \<Rightarrow> (spsc_ring, unit) sm" where
  "len_is n = bnd (gets ring_len) (\<lambda>k. check (k = n))"

definition free_is :: "nat \<Rightarrow> (spsc_ring, unit) sm" where
  "free_is n = bnd ring_free (\<lambda>k. check (k = n))"

definition frames_is :: "nat \<Rightarrow> (spsc_ring, unit) sm" where
  "frames_is n = bnd (gets ring_frames) (\<lambda>k. check (unat k = n))"

definition write_is :: "bytes \<Rightarrow> nat \<Rightarrow> (spsc_ring, unit) sm" where
  "write_is xs n = bnd (ring_write xs) (\<lambda>k. check (k = n))"

definition empty_ring_is_noop :: "(spsc_ring, unit) sm" where
  "empty_ring_is_noop =
     bnd (gets cap) (\<lambda>c. bnd (check (c = 0)) (\<lambda>_.
     bnd (write_is [1, 2, 3] 0) (\<lambda>_.
     bnd (read_zeroed 4) (\<lambda>(n, _). check (n = 0)))))"

definition write_then_read_roundtrip :: "(spsc_ring, unit) sm" where
  "write_then_read_roundtrip =
     bnd (free_is 8) (\<lambda>_.
     bnd (write_is [1, 2, 3, 4] 4) (\<lambda>_.
     bnd (len_is 4) (\<lambda>_.
     bnd (free_is 4) (\<lambda>_.
     bnd (read_zeroed 4) (\<lambda>(n, out). bnd (check (n = 4 \<and> out = [1, 2, 3, 4])) (\<lambda>_.
     len_is 0))))))"

definition write_saturates_at_capacity :: "(spsc_ring, unit) sm" where
  "write_saturates_at_capacity =
     bnd (write_is [1, 2, 3, 4, 5, 6] 4) (\<lambda>_. bnd (len_is 4) (\<lambda>_. write_is [7] 0))"

definition read_is_bounded_by_stored_len :: "(spsc_ring, unit) sm" where
  "read_is_bounded_by_stored_len =
     bnd (ring_write [1, 2, 3]) (\<lambda>_. bnd (read_zeroed 8) (\<lambda>(n, out). check (n = 3 \<and> take 3 out = [1, 2, 3])))"

definition wraps_around_the_seam :: "(spsc_ring, unit) sm" where
  "wraps_around_the_seam =
     bnd (ring_write [0, 1, 2, 3, 4, 5]) (\<lambda>_.
     bnd (read_zeroed 4) (\<lambda>(n, sink). bnd (check (n = 4 \<and> sink = [0, 1, 2, 3])) (\<lambda>_.
     bnd (write_is [10, 11, 12, 13, 14] 5) (\<lambda>_.
     bnd (len_is 7) (\<lambda>_.
     bnd (read_zeroed 7) (\<lambda>(n, out). check (n = 7 \<and> out = [4, 5, 10, 11, 12, 13, 14])))))))"

fun stream_rounds :: "nat \<Rightarrow> u8 \<Rightarrow> bytes \<Rightarrow> (spsc_ring, bytes) sm" where
  "stream_rounds 0 next_write drained = ret drained"
| "stream_rounds (Suc k) next_write drained =
     bnd (ring_write [next_write, next_write + 1, next_write + 2]) (\<lambda>w.
     bnd (read_zeroed 2) (\<lambda>(got, out).
     stream_rounds k (next_write + of_nat w) (drained @ take got out)))"

partial_function (option) stream_flush :: "bytes \<Rightarrow> spsc_ring \<Rightarrow> (bytes res \<times> spsc_ring) option" where
  "stream_flush drained r =
     (case read_zeroed 5 r of
        (Ok (got, out), r') \<Rightarrow> if got = 0 then Some (Ok drained, r') else stream_flush (drained @ take got out) r'
      | (Err e, r') \<Rightarrow> Some (Err e, r')
      | (Panic, r') \<Rightarrow> Some (Panic, r'))"

declare stream_flush.simps [code]

fun in_order :: "u8 \<Rightarrow> bytes \<Rightarrow> bool" where
  "in_order next_read [] = True"
| "in_order next_read (b # bs) = (b = next_read \<and> in_order (next_read + 1) bs)"

definition peek_does_not_consume :: "(spsc_ring, unit) sm" where
  "peek_does_not_consume =
     bnd (ring_write [1, 2, 3, 4]) (\<lambda>_.
     bnd (peek_zeroed 2) (\<lambda>(n, a). bnd (check (n = 2 \<and> a = [1, 2])) (\<lambda>_.
     bnd (len_is 4) (\<lambda>_.
     bnd (read_zeroed 4) (\<lambda>(n, b). check (n = 4 \<and> b = [1, 2, 3, 4]))))))"

definition frame_counter_tracks_complete_datagrams :: "(spsc_ring, unit) sm" where
  "frame_counter_tracks_complete_datagrams =
     bnd (frames_is 0) (\<lambda>_.
     bnd (ring_write [0xAA, 0xBB]) (\<lambda>_. bnd (modify commit_frame) (\<lambda>_.
     bnd (ring_write [0xCC]) (\<lambda>_. bnd (modify commit_frame) (\<lambda>_.
     bnd (frames_is 2) (\<lambda>_.
     bnd (read_zeroed 2) (\<lambda>(n, _). bnd (check (n = 2)) (\<lambda>_. bnd (modify release_frame) (\<lambda>_.
     bnd (frames_is 1) (\<lambda>_.
     bnd (read_zeroed 1) (\<lambda>(n, _). bnd (check (n = 1)) (\<lambda>_. bnd (modify release_frame) (\<lambda>_.
     frames_is 0)))))))))))))"

definition clear_resets_frame_counters :: "(spsc_ring, unit) sm" where
  "clear_resets_frame_counters =
     bnd (ring_write [1, 2, 3]) (\<lambda>_. bnd (modify commit_frame) (\<lambda>_.
     bnd (frames_is 1) (\<lambda>_. bnd (modify ring_clear) (\<lambda>_. bnd (frames_is 0) (\<lambda>_. len_is 0)))))"

lemma ring_tests_pass:
  "fst (empty_ring_is_noop ring_new) = Ok ()"
  "fst (write_then_read_roundtrip (ring_with 8)) = Ok ()"
  "fst (write_saturates_at_capacity (ring_with 4)) = Ok ()"
  "fst (read_is_bounded_by_stored_len (ring_with 8)) = Ok ()"
  "fst (wraps_around_the_seam (ring_with 8)) = Ok ()"
  "fst (peek_does_not_consume (ring_with 8)) = Ok ()"
  "fst (frame_counter_tracks_complete_datagrams (ring_with 16)) = Ok ()"
  "fst (clear_resets_frame_counters (ring_with 8)) = Ok ()"
  by code_simp+

text \<open>
  The streaming test holds for every capacity and number of rounds, as long as no more bytes are
  offered than the counters count without a wrap.
\<close>

lemma in_order_append: "in_order s (xs @ ys) \<longleftrightarrow> in_order s xs \<and> in_order (s + of_nat (length xs)) ys"
  by (induction xs arbitrary: s) (auto simp: algebra_simps)

lemma in_order_chunk: "in_order s (take k [s, s + 1, s + 2])"
  by (cases k; cases "k - 1"; cases "k - 2") (auto simp: take_Cons' algebra_simps)

text \<open>The ring after at most \<open>m\<close> bytes were put in.\<close>

definition early :: "nat \<Rightarrow> spsc_ring \<Rightarrow> bool" where
  "early m r \<longleftrightarrow> ring_ok r \<and> unat (head r) + ring_len r \<le> m"

lemma early_write:
  assumes "early m r" "m + length src < 2 ^ 32"
  shows "\<exists>r'. ring_write src r = (Ok (min (length src) (free_space r)), r') \<and>
     contents r' = contents r @ take (free_space r) src \<and> early (m + length src) r'"
proof -
  have nw: "no_wrap r (length src)" using assms by (simp add: early_def no_wrap_def)
  from ring_write_spec [OF _ nw] assms(1) obtain r' where r': "ring_write src r = (Ok (min (length src) (free_space r)), r')"
    "contents r' = contents r @ take (free_space r) src" "ring_ok r'" "head r' = head r" by (auto simp: early_def)
  have "ring_len r' = ring_len r + length (take (free_space r) src)"
    using arg_cong [OF r'(2), of length] by simp
  then have "ring_len r' \<le> ring_len r + length src" by simp
  then have "early (m + length src) r'" using r'(3,4) assms(1) by (simp add: early_def)
  with r' show ?thesis by blast
qed

lemma early_read:
  assumes "early m r"
  shows "\<exists>r'. ring_read k r = (Ok (take k (contents r)), r') \<and> contents r' = drop k (contents r) \<and> early m r'"
proof -
  obtain r' where r': "ring_read k r = (Ok (take k (contents r)), r')" "contents r' = drop k (contents r)" "ring_ok r'"
    using ring_read_spec [of r k] assms by (auto simp: early_def)
  define n where "n = min k (ring_len r)"
  have len: "ring_len r' = ring_len r - n"
    using arg_cong [OF r'(2), of length] by (simp add: n_def)
  have "head r' = head r + of_nat n \<or> n = 0 \<and> head r' = head r"
    using r'(1) by (auto simp: ring_read_def n_def ring_len_def Let_def split: if_splits option.splits)
  then have "unat (head r') \<le> unat (head r) + n" by (auto simp: unat_add_of_nat)
  moreover have "n \<le> ring_len r" by (simp add: n_def)
  ultimately have "unat (head r') + ring_len r' \<le> unat (head r) + ring_len r" unfolding len by linarith
  then have "early m r'" using assms r'(3) by (simp add: early_def)
  with r' show ?thesis by blast
qed

lemma read_zeroed_early:
  assumes "early m r"
  shows "\<exists>r'. read_zeroed k r = (Ok (min k (ring_len r), take k (contents r) @ replicate (k - ring_len r) 0), r') \<and>
    contents r' = drop k (contents r) \<and> early m r'"
  using early_read [OF assms, of k] by (auto simp: read_zeroed_def bnd_def ret_def copy_at_def min_def)


lemma stream_rounds_order:
  assumes "early m r" "m + 3 * k < 2 ^ 32" "in_order 0 (drained @ contents r)" "nw = of_nat (length (drained @ contents r))"
  shows "\<exists>all r'. stream_rounds k nw drained r = (Ok all, r') \<and> early (m + 3 * k) r' \<and> in_order 0 (all @ contents r')"
  using assms
proof (induction k arbitrary: m r drained nw)
  case (Suc k)
  let ?chunk = "[nw, nw + 1, nw + 2]"
  have len: "length ?chunk = 3" by simp
  have "m + length ?chunk < 2 ^ 32" using Suc.prems(2) unfolding len by simp
  then obtain r1 where w: "ring_write ?chunk r = (Ok (min 3 (free_space r)), r1)"
    "contents r1 = contents r @ take (free_space r) ?chunk" "early (m + 3) r1"
    using early_write [OF Suc.prems(1), of ?chunk] unfolding len by blast
  obtain r2 where rd: "read_zeroed 2 r1 = (Ok (min 2 (ring_len r1), take 2 (contents r1) @ replicate (2 - ring_len r1) 0), r2)"
    "contents r2 = drop 2 (contents r1)" "early (m + 3) r2" using read_zeroed_early [OF w(3)] by blast
  let ?d = "drained @ take 2 (contents r1)"
  have all: "?d @ contents r2 = (drained @ contents r) @ take (free_space r) ?chunk"
    unfolding rd(2) append_assoc append_take_drop_id w(2) by simp
  have "in_order 0 (?d @ contents r2)"
    unfolding all in_order_append using Suc.prems(3,4) in_order_chunk by (simp add: in_order_append)
  moreover have "nw + of_nat (min 3 (free_space r)) = of_nat (length (?d @ contents r2))"
    unfolding all length_append length_take len using Suc.prems(4) by (simp add: min.commute)
  ultimately obtain out r3 where "stream_rounds k (nw + of_nat (min 3 (free_space r))) ?d r2 = (Ok out, r3)"
    "early (m + 3 + 3 * k) r3" "in_order 0 (out @ contents r3)"
    using Suc.IH [OF rd(3)] Suc.prems(2) by (metis add.assoc mult_Suc_right)
  moreover have "take (min 2 (ring_len r1)) (take 2 (contents r1) @ replicate (2 - ring_len r1) 0) = take 2 (contents r1)"
    by (simp add: min_def)
  ultimately show ?case using w(1) rd(1) by (simp add: bnd_def add.assoc)
qed (simp add: ret_def)

lemma stream_flush_ends:
  assumes "early m r"
  shows "\<exists>r'. stream_flush drained r = Some (Ok (drained @ contents r), r')"
  using assms
proof (induction "ring_len r" arbitrary: r drained rule: less_induct)
  case less
  obtain r1 where rd: "read_zeroed 5 r = (Ok (min 5 (ring_len r), take 5 (contents r) @ replicate (5 - ring_len r) 0), r1)"
    "contents r1 = drop 5 (contents r)" "early m r1" using read_zeroed_early [OF less.prems] by blast
  show ?case
  proof (cases "ring_len r = 0")
    case True
    then show ?thesis using rd(1) by (simp add: stream_flush.simps [of drained r])
  next
    case False
    have "ring_len r1 < ring_len r" using arg_cong [OF rd(2), of length] False by simp
    from less.hyps [OF this rd(3), of "drained @ take 5 (contents r)"] obtain r' where
      "stream_flush (drained @ take 5 (contents r)) r1 = Some (Ok (drained @ contents r), r')" by (auto simp: rd(2))
    moreover have "take (min 5 (ring_len r)) (take 5 (contents r) @ replicate (5 - ring_len r) 0) = take 5 (contents r)"
      by (simp add: min_def)
    ultimately show ?thesis using rd(1) False by (simp add: stream_flush.simps [of drained r])
  qed
qed

definition streaming_test :: "nat \<Rightarrow> spsc_ring \<Rightarrow> bool" where
  "streaming_test k r =
     (case stream_rounds k 0 [] r of
        (Ok drained, r1) \<Rightarrow> (case stream_flush drained r1 of Some (Ok all, _) \<Rightarrow> in_order 0 all | _ \<Rightarrow> False)
      | _ \<Rightarrow> False)"

lemma streaming_test_passes:
  assumes "n < 2 ^ 32" "3 * k < 2 ^ 32"
  shows "streaming_test k (ring_with n)"
proof -
  have "early 0 (ring_with n)" "contents (ring_with n) = []"
    using ring_install_spec [of "replicate n 0" ring_new] assms(1)
    by (auto simp: early_def ring_with_def ring_install_def ring_len_def)
  with stream_rounds_order [of 0 "ring_with n" k "[]" 0] assms(2) obtain out r' where
    "stream_rounds k 0 [] (ring_with n) = (Ok out, r')" "early (3 * k) r'" "in_order 0 (out @ contents r')" by auto
  with stream_flush_ends [OF this(2), of out] show ?thesis by (auto simp: streaming_test_def)
qed

subsection \<open>The tests of the transceiver\<close>

definition TEST_ADDR :: address where
  "TEST_ADDR = \<lparr>addr = 0x1234, block = CommonRegister\<rparr>"

type_synonym 'a rig = "((mock_device, mock_device \<times> dma_buffers) transceiver, 'a) sm"

text \<open>The log the test shares with the device.\<close>

definition log :: "(mock_device, mock_device \<times> dma_buffers) transceiver \<Rightarrow> mock_device" where
  "log t = (case cell (dev_cell t) of Idle d _ \<Rightarrow> d | InFlight (d, _) \<Rightarrow> d | Pending \<Rightarrow> \<lparr>transfers = [], delays = []\<rparr>)"

definition log_has :: "(mock_device \<Rightarrow> bool) \<Rightarrow> unit rig" where
  "log_has P = bnd (gets log) (\<lambda>l. check (P l))"

definition read_copies_payload_window_not_header :: "unit rig" where
  "read_copies_payload_window_not_header =
     bnd (unwrapped (spi_read mock TEST_ADDR (replicate 4 0))) (\<lambda>buf.
     bnd (check (buf = [3, 4, 5, 6])) (\<lambda>_.
     log_has (\<lambda>l. length (transfers l) = 1 \<and> (let mosi = transfers l ! 0 in
       length mosi = 3 + 4 \<and> take 2 mosi = to_be 2 (0x1234 :: u16) \<and> mosi ! 2 AND 4 = 0))))"

definition write_stages_header_and_payload :: "unit rig" where
  "write_stages_header_and_payload =
     bnd (unwrapped (spi_write mock TEST_ADDR [0xAA, 0xBB])) (\<lambda>_.
     log_has (\<lambda>l. let mosi = transfers l ! 0 in
       length mosi = 3 + 2 \<and> mosi ! 2 AND 4 = 4 \<and> drop 3 mosi = [0xAA, 0xBB]))"

definition read_u16_decodes_payload :: "unit rig" where
  "read_u16_decodes_payload = bnd (unwrapped (read_u16 mock TEST_ADDR)) (\<lambda>v. check (v = 0x0304))"

definition batch_splits_across_chunks_with_correct_offsets :: "unit rig" where
  "batch_splits_across_chunks_with_correct_offsets =
     bnd (unwrapped (transaction mock [OpWrite [0x10, 0x20], OpRead [0, 0], OpRead [0, 0]])) (\<lambda>ops.
     bnd (check (drop 1 ops = [OpRead [2, 3], OpRead [0, 1]])) (\<lambda>_.
     log_has (\<lambda>l. length (transfers l) = 2)))"

definition oversized_single_op_reports_overrun :: "unit rig" where
  "oversized_single_op_reports_overrun =
     bnd (unwrapped_err (transaction mock [OpWrite (replicate 8 0)])) (\<lambda>e. check (e = Other ScratchBufferOverrun))"

definition delay_is_executed_without_transfer :: "unit rig" where
  "delay_is_executed_without_transfer =
     bnd (unwrapped (transaction mock [OpDelayNs 1000])) (\<lambda>_. log_has (\<lambda>l. delays l = [1000] \<and> transfers l = []))"

definition async_read_starts_and_finishes :: "unit rig" where
  "async_read_starts_and_finishes =
     bnd (unwrapped (start_read mock TEST_ADDR 4)) (\<lambda>_.
     bnd (unwrapped_err (transaction mock [OpRead [0]])) (\<lambda>e. bnd (check (e = WouldBlock)) (\<lambda>_.
     bnd (unwrapped (finish_read mock 4)) (\<lambda>got. bnd (check (got = [3, 4, 5, 6])) (\<lambda>_.
     bnd (log_has (\<lambda>l. length (transfers l) = 1 \<and> (let mosi = transfers l ! 0 in length mosi = 3 + 4 \<and> mosi ! 2 AND 4 = 0))) (\<lambda>_.
     bnd (unwrapped (read_u8 mock TEST_ADDR)) (\<lambda>_. ret ())))))))"

text \<open>The closure that fills the buffer needs no state of its own.\<close>

definition start_write_const :: "address \<Rightarrow> bytes \<Rightarrow> unit rig" where
  "start_write_const a xs t = (case start_write mock a (length xs) (\<lambda>_. ret xs) (t, ()) of (r, (t', _)) \<Rightarrow> (r, t'))"

definition async_write_starts_and_finishes :: "unit rig" where
  "async_write_starts_and_finishes =
     bnd (unwrapped (start_write_const TEST_ADDR [0xAA, 0xBB])) (\<lambda>_.
     bnd (unwrapped (finish_write mock)) (\<lambda>_.
     log_has (\<lambda>l. let mosi = transfers l ! 0 in
       length mosi = 3 + 2 \<and> mosi ! 2 AND 4 = 4 \<and> drop 3 mosi = [0xAA, 0xBB])))"

definition async_oversized_read_reports_overrun :: "unit rig" where
  "async_oversized_read_reports_overrun =
     bnd (unwrapped_err (start_read mock TEST_ADDR 8)) (\<lambda>e.
     bnd (check (e = Other ScratchBufferOverrun)) (\<lambda>_.
     bnd (log_has (\<lambda>l. transfers l = [])) (\<lambda>_.
     bnd (unwrapped (read_u8 mock TEST_ADDR)) (\<lambda>_. ret ()))))"

definition abort_drains_in_flight :: "unit rig" where
  "abort_drains_in_flight =
     bnd (unwrapped (start_read mock TEST_ADDR 4)) (\<lambda>_.
     bnd (abort mock) (\<lambda>_.
     bnd (unwrapped (read_u8 mock TEST_ADDR)) (\<lambda>_.
     bnd (unwrapped_err (finish_write mock)) (\<lambda>e. check (e = WouldBlock)))))"

lemma transceiver_tests_pass:
  "fst (read_copies_payload_window_not_header (mock_rig 16)) = Ok ()"
  "fst (write_stages_header_and_payload (mock_rig 16)) = Ok ()"
  "fst (read_u16_decodes_payload (mock_rig 16)) = Ok ()"
  "fst (batch_splits_across_chunks_with_correct_offsets (mock_rig 4)) = Ok ()"
  "fst (oversized_single_op_reports_overrun (mock_rig 4)) = Ok ()"
  "fst (delay_is_executed_without_transfer (mock_rig 16)) = Ok ()"
  "fst (async_read_starts_and_finishes (mock_rig 16)) = Ok ()"
  "fst (async_write_starts_and_finishes (mock_rig 16)) = Ok ()"
  "fst (async_oversized_read_reports_overrun (mock_rig 4)) = Ok ()"
  "fst (abort_drains_in_flight (mock_rig 16)) = Ok ()"
  by code_simp+

end
